(* ===== verification/Prelude.thy ===== *)
theory Prelude
  imports
    Main
    "HOL-Library.Word"
    "HOL-Library.AList"
    "HOL-Library.Multiset"
    "HOL-Library.Monad_Syntax"
    "HOL-Library.List_Lexorder"
    "HOL-Library.Char_ord"
begin

text \<open>
  Shared vocabulary of the development: the fixed-width types the Go and JavaScript sources use,
  the collections of rewrite rules the component theories extend, and the generic facts on
  association lists (Go maps), permutations, words and counting that several components need.

  \<^item> a Go \<^verbatim>\<open>uint64\<close> is a 64-bit word, a byte an 8-bit word, \<^verbatim>\<open>common.Address\<close> (20 bytes)
    a 160-bit word and \<^verbatim>\<open>common.Hash\<close> (32 bytes) a 256-bit word;
  \<^item> a \<^verbatim>\<open>*big.Int\<close> is an \<^typ>\<open>int\<close>; \<^verbatim>\<open>x.Uint64()\<close> keeps its low 64 bits;
  \<^item> a Go map is an association list whose keys are distinct; Go leaves the iteration order
    of a map unspecified and the model iterates in insertion order, so no theorem depends on
    that order except through the list the model itself returns;
  \<^item> a run-time panic (a nil dereference) is \<^term>\<open>None\<close> of the option monad.
\<close>

type_synonym byte = "8 word"
type_synonym bytes = "byte list"
type_synonym uint64 = "64 word"
type_synonym address = "160 word"
type_synonym hash = "256 word"

named_theorems go_defs "definitions of the model unfolded by the component proofs"
named_theorems core_frame "what each step of the consensus core leaves unchanged"

subsection \<open>Integers\<close>

definition Uint64 :: "int \<Rightarrow> uint64" where
  "Uint64 x = word_of_int x"

lemma Uint64_small [simp]: "0 \<le> x \<Longrightarrow> x < 2 ^ 64 \<Longrightarrow> uint (Uint64 x) = x"
  by (simp add: Uint64_def uint_word_of_int take_bit_int_eq_self)

lemma unat_Uint64: "0 \<le> x \<Longrightarrow> x < 2 ^ 64 \<Longrightarrow> unat (Uint64 x) = nat x"
  by (simp add: Uint64_small unat_eq_nat_uint)

lemma Uint64_wraps: "Uint64 (x + 2 ^ 64) = Uint64 x"
  by (simp add: Uint64_def flip: word_of_int_2p_len [where 'a = 64])

lemma unat_of_nat_small [simp]: "n < 2 ^ 64 \<Longrightarrow> unat (of_nat n :: uint64) = n"
  by (simp add: unat_of_nat take_bit_nat_eq_self)

lemma mod_add_inj:
  assumes "(s + x) mod n = (s + y) mod n" "x < n" "y < (n::nat)"
  shows "x = y"
proof -
  have *: "x = y" if le: "y \<le> x" and lt: "x < n" and eq: "(s + x) mod n = (s + y) mod n"
    for x y :: nat
  proof -
    obtain q where "s + x = s + y + n * q"
      by (rule mod_eq_nat1E [OF eq]) (use le in auto)
    with lt show ?thesis by (cases q) auto
  qed
  show ?thesis
    using *[of y x] *[of x y] assms by (cases "y \<le> x") auto
qed

text \<open>The three-way comparison \<^verbatim>\<open>big.Int.Cmp\<close>.\<close>

definition big_Cmp :: "int \<Rightarrow> int \<Rightarrow> int" where
  "big_Cmp x y = (if x < y then -1 else if x = y then 0 else 1)"

lemma big_Cmp_simps [simp]:
  "big_Cmp x y < 0 \<longleftrightarrow> x < y"
  "big_Cmp x y > 0 \<longleftrightarrow> x > y"
  "big_Cmp x y = 0 \<longleftrightarrow> x = y"
  "big_Cmp x y \<ge> 0 \<longleftrightarrow> x \<ge> y"
  by (auto simp: big_Cmp_def)

subsection \<open>Maps as association lists\<close>

abbreviation keys :: "('k \<times> 'v) list \<Rightarrow> 'k list" where
  "keys m \<equiv> map fst m"

abbreviation amap :: "('k \<times> 'v) list \<Rightarrow> bool" where
  "amap m \<equiv> distinct (keys m)"

lemma amap_update [intro, simp]: "amap m \<Longrightarrow> amap (AList.update k v m)"
  by (rule distinct_update)

lemma amap_delete [intro, simp]: "amap m \<Longrightarrow> amap (AList.delete k m)"
  by (simp add: distinct_delete)

lemma amap_filter [intro]: "amap m \<Longrightarrow> amap (filter P m)"
  by (induction m) auto

lemma lookup_update [simp]:
  "map_of (AList.update k v m) k' = (if k' = k then Some v else map_of m k')"
  by (auto simp: update_conv')

lemma lookup_delete [simp]:
  "map_of (AList.delete k m) k' = (if k' = k then None else map_of m k')"
  by (auto simp: delete_conv')

lemma keys_update_set [simp]: "set (keys (AList.update k v m)) = insert k (set (keys m))"
  using dom_update [of k v m] by simp

lemma size_amap: "amap m \<Longrightarrow> length m = card (dom (map_of m))"
  by (metis distinct_card dom_map_of_conv_image_fst length_map set_map)

lemma update_in_set:
  "amap m \<Longrightarrow> (k', v') \<in> set (AList.update k v m) \<longleftrightarrow>
     (if k' = k then v' = v else (k', v') \<in> set m)"
  using map_of_eq_Some_iff [of "AList.update k v m" k' v'] map_of_eq_Some_iff [of m k' v']
  by (auto split: if_splits)

lemma set_update_subset: "set (AList.update k v m) \<subseteq> insert (k, v) (set m)"
  by (induction m) auto

lemma ball_update:
  "P (k, v) \<Longrightarrow> \<forall>p \<in> set m. P p \<Longrightarrow> \<forall>p \<in> set (AList.update k v m). P p"
  using set_update_subset [of k v m] by blast

lemma length_update:
  "amap m \<Longrightarrow> length (AList.update k v m) = (if k \<in> set (keys m) then length m else Suc (length m))"
  using arg_cong [OF update_keys [of k v m], of length] by simp

subsection \<open>Counting\<close>

lemma card_inter_ge:
  assumes "finite V" "A \<subseteq> V" "B \<subseteq> V"
  shows "card A + card B \<le> card V + card (A \<inter> B)"
proof -
  have "card A + card B = card (A \<union> B) + card (A \<inter> B)"
    using assms by (intro card_Un_Int) (auto intro: finite_subset)
  moreover have "card (A \<union> B) \<le> card V"
    using assms by (intro card_mono) auto
  ultimately show ?thesis by simp
qed

lemma length_filter_map_of:
  assumes "amap m"
  shows "length (filter (\<lambda>p. fst p \<in> S) m) = card (set (keys m) \<inter> S)"
proof -
  have "distinct (keys (filter (\<lambda>p. fst p \<in> S) m))"
    using assms by (rule amap_filter)
  then have "length (filter (\<lambda>p. fst p \<in> S) m) = card (set (keys (filter (\<lambda>p. fst p \<in> S) m)))"
    by (metis distinct_card length_map)
  also have "set (keys (filter (\<lambda>p. fst p \<in> S) m)) = set (keys m) \<inter> S"
    by auto
  finally show ?thesis .
qed

subsection \<open>Sorting by an injective key\<close>

text \<open>
  \<^verbatim>\<open>sort.Sort\<close> promises a sorted permutation and nothing about equal elements. Where the key is
  injective there is only one, which is what makes \<^const>\<open>sort_key\<close> a faithful model of it.
\<close>

lemma sort_key_unique:
  assumes "inj f" and "mset ys = mset xs" and "sorted (map f ys)"
  shows "ys = sort_key f xs"
proof -
  have "sort_key f xs = ys"
  proof (rule sort_key_inj_key_eq)
    show "mset xs = mset ys" using assms(2) by simp
    show "inj_on f (set xs)" using assms(1) by (rule inj_on_subset) simp
    show "sorted (map f ys)" by (rule assms(3))
  qed
  then show ?thesis by simp
qed

lemma sort_key_mset_cong: "inj f \<Longrightarrow> mset xs = mset ys \<Longrightarrow> sort_key f xs = sort_key f ys"
  by (rule sort_key_unique) auto

lemma sort_key_remove1:
  assumes "inj f"
  shows "sort_key f (remove1 x xs) = remove1 x (sort_key f xs)"
proof -
  have "sorted (map f (remove1 x (sort_key f xs)))"
    by (simp add: sorted_map_remove1)
  then show ?thesis
    using sort_key_unique [OF assms, of "remove1 x (sort_key f xs)" "remove1 x xs"] by simp
qed

end
