(* ===== verification/Address.thy ===== *)
theory Address
  imports Prelude
begin

text \<open>
  \<^verbatim>\<open>common.Address\<close> and its textual form (\<^verbatim>\<open>src/common/types.go\<close>). Validators are ordered by the
  text of their address, and that text is the EIP-55 mixed-case form, whose letter case is chosen
  by a Keccak digest. The digest function is the parameter \<open>kc\<close>; the order of validators is well
  defined because the text determines the address whatever \<open>kc\<close> is (\<open>inj_address_Hex\<close>).
\<close>

unbundle bit_operations_syntax

subsection \<open>Hexadecimal text\<close>

definition hex_digit :: "nat \<Rightarrow> char" where
  "hex_digit n = char_of (if n < 10 then 48 + n else 87 + n)"

definition address_nibble :: "address \<Rightarrow> nat \<Rightarrow> nat" where
  "address_nibble a i = unat (take_bit 4 (drop_bit (4 * (39 - i)) a))"

definition unchecksummed :: "address \<Rightarrow> string" where
  "unchecksummed a = map (\<lambda>i. hex_digit (address_nibble a i)) [0..<40]"

definition hash_nibble :: "bytes \<Rightarrow> nat \<Rightarrow> byte" where
  "hash_nibble h i = (if even i then drop_bit 4 (h ! (i div 2)) else h ! (i div 2) AND 15)"

definition checksum_case :: "bytes \<Rightarrow> nat \<Rightarrow> char \<Rightarrow> char" where
  "checksum_case h i c =
     (if of_char c > (57::nat) \<and> hash_nibble h i > 7 then char_of (of_char c - (32::nat)) else c)"

definition address_Hex :: "(string \<Rightarrow> bytes) \<Rightarrow> address \<Rightarrow> string" where
  "address_Hex kc a =
     (let u = unchecksummed a; h = kc u
      in ''0x'' @ map (\<lambda>i. checksum_case h i (u ! i)) [0..<length u])"

definition emptyAddress :: "address \<Rightarrow> bool" where
  "emptyAddress a \<longleftrightarrow> a = 0"

definition EmptyHash :: "hash \<Rightarrow> bool" where
  "EmptyHash h \<longleftrightarrow> h = 0"

subsection \<open>The text determines the address\<close>

definition unhex :: "char \<Rightarrow> nat" where
  "unhex c =
     (let n = of_char c in if n < 58 then n - 48 else if n < 71 then n - 55 else n - 87)"

lemma of_char_hex_digit: "n < 16 \<Longrightarrow> of_char (hex_digit n) = (if n < 10 then 48 + n else 87 + n)"
  by (auto simp: hex_digit_def of_char_of)

lemma unhex_checksum_case: "n < 16 \<Longrightarrow> unhex (checksum_case h i (hex_digit n)) = n"
  by (auto simp: checksum_case_def unhex_def of_char_hex_digit Let_def)

lemma address_nibble_less: "address_nibble a i < 16"
  using take_bit_nat_less_exp [of 4 "unat (drop_bit (4 * (39 - i)) a)"]
  by (simp add: address_nibble_def unsigned_take_bit_eq)

lemma length_unchecksummed [simp]: "length (unchecksummed a) = 40"
  by (simp add: unchecksummed_def)

lemma nth_unchecksummed: "i < 40 \<Longrightarrow> unchecksummed a ! i = hex_digit (address_nibble a i)"
  by (simp add: unchecksummed_def)

lemma unhex_address_Hex:
  assumes "i < 40"
  shows "unhex (drop 2 (address_Hex kc a) ! i) = address_nibble a i"
  using assms unhex_checksum_case [OF address_nibble_less]
  by (simp add: address_Hex_def Let_def nth_unchecksummed)

lemma bit_address_nibble:
  assumes "k < 160"
  shows "bit (address_nibble a (39 - k div 4)) (k mod 4) = bit a k"
proof -
  have "4 * (39 - (39 - k div 4)) + k mod 4 = k"
    using assms by (simp add: mult_div_mod_eq)
  then show ?thesis
    by (simp add: address_nibble_def bit_unsigned_iff bit_take_bit_iff bit_drop_bit_eq
        mod_less_divisor)
qed

lemma address_nibbles_inject:
  assumes "\<And>i. i < 40 \<Longrightarrow> address_nibble a i = address_nibble b i"
  shows "a = b"
proof (rule bit_word_eqI)
  fix k assume "k < LENGTH(160)"
  then have "k < 160" by simp
  moreover have "39 - k div 4 < 40" by simp
  ultimately show "bit a k \<longleftrightarrow> bit b k"
    using assms bit_address_nibble [of k a] bit_address_nibble [of k b] by simp
qed

theorem inj_address_Hex: "inj (address_Hex kc)"
proof (rule injI)
  fix a b assume "address_Hex kc a = address_Hex kc b"
  then have "address_nibble a i = address_nibble b i" if "i < 40" for i
    using that unhex_address_Hex [of i kc a] unhex_address_Hex [of i kc b] by simp
  then show "a = b" by (rule address_nibbles_inject)
qed

end
