(* ===== verification/Validator_Set.thy ===== *)
theory Validator_Set
  imports Complex_Main Address
begin

text \<open>
  The validator set of Istanbul (\<^verbatim>\<open>src/consensus/istanbul/validator/default.go\<close>): the sorted list of
  validators, the proposer selection policies, and the fault bound \<^verbatim>\<open>F\<close> from which every quorum of
  the protocol is computed. A validator is its address (\<^verbatim>\<open>defaultValidator\<close> has no other field), the
  selector field is a function of the policy, and \<^term>\<open>None\<close> is a nil validator.
\<close>

subsection \<open>State\<close>

type_synonym validator = address
type_synonym ProposerPolicy = uint64

definition RoundRobin :: ProposerPolicy where
  "RoundRobin = 0"

definition Sticky :: ProposerPolicy where
  "Sticky = 1"

record defaultSet =
  validators :: "validator list"
  policy :: ProposerPolicy
  proposer :: "validator option"

subsection \<open>Operations\<close>

definition sort_Validators :: "(string \<Rightarrow> bytes) \<Rightarrow> validator list \<Rightarrow> validator list" where
  "sort_Validators kc vs = sort_key (address_Hex kc) vs"

definition vs_Size :: "defaultSet \<Rightarrow> nat" where
  "vs_Size vs = length (validators vs)"

definition GetByIndex :: "defaultSet \<Rightarrow> uint64 \<Rightarrow> validator option" where
  "GetByIndex vs i = (if unat i < vs_Size vs then Some (validators vs ! unat i) else None)"

definition newDefaultSet :: "(string \<Rightarrow> bytes) \<Rightarrow> address list \<Rightarrow> ProposerPolicy \<Rightarrow> defaultSet" where
  "newDefaultSet kc addrs pol =
     (let vs = \<lparr>validators = sort_Validators kc addrs, policy = pol, proposer = None\<rparr>
      in if vs_Size vs > 0 then vs\<lparr>proposer := GetByIndex vs 0\<rparr> else vs)"

fun find_addr :: "nat \<Rightarrow> validator list \<Rightarrow> address \<Rightarrow> int \<times> validator option" where
  "find_addr i [] addr = (-1, None)"
| "find_addr i (v # vs) addr = (if addr = v then (int i, Some v) else find_addr (Suc i) vs addr)"

definition GetByAddress :: "defaultSet \<Rightarrow> address \<Rightarrow> int \<times> validator option" where
  "GetByAddress vs addr = find_addr 0 (validators vs) addr"

definition GetProposer :: "defaultSet \<Rightarrow> validator option" where
  "GetProposer vs = proposer vs"

definition IsProposer :: "defaultSet \<Rightarrow> address \<Rightarrow> bool" where
  "IsProposer vs addr \<longleftrightarrow> GetProposer vs = snd (GetByAddress vs addr)"

definition calcSeed :: "defaultSet \<Rightarrow> address \<Rightarrow> uint64 \<Rightarrow> uint64" where
  "calcSeed vs p rnd =
     (let (idx, val) = GetByAddress vs p;
          offset = (if val \<noteq> None then idx else 0)
      in word_of_int offset + rnd)"

definition roundRobinProposer :: "defaultSet \<Rightarrow> address \<Rightarrow> uint64 \<Rightarrow> validator option" where
  "roundRobinProposer vs p rnd =
     (if vs_Size vs = 0 then None
      else let seed = (if emptyAddress p then rnd else calcSeed vs p rnd + 1);
               pick = seed mod of_nat (vs_Size vs)
           in GetByIndex vs pick)"

definition stickyProposer :: "defaultSet \<Rightarrow> address \<Rightarrow> uint64 \<Rightarrow> validator option" where
  "stickyProposer vs p rnd =
     (if vs_Size vs = 0 then None
      else let seed = (if emptyAddress p then rnd else calcSeed vs p rnd);
               pick = seed mod of_nat (vs_Size vs)
           in GetByIndex vs pick)"

definition CalcProposer :: "defaultSet \<Rightarrow> address \<Rightarrow> uint64 \<Rightarrow> defaultSet" where
  "CalcProposer vs lastProposer rnd =
     (if policy vs = Sticky
      then vs\<lparr>proposer := stickyProposer vs lastProposer rnd\<rparr>
      else vs\<lparr>proposer := roundRobinProposer vs lastProposer rnd\<rparr>)"

definition AddValidator :: "(string \<Rightarrow> bytes) \<Rightarrow> defaultSet \<Rightarrow> address \<Rightarrow> defaultSet \<times> bool" where
  "AddValidator kc vs addr =
     (if addr \<in> set (validators vs) then (vs, False)
      else (vs\<lparr>validators := sort_Validators kc (validators vs @ [addr])\<rparr>, True))"

fun remove_first :: "validator list \<Rightarrow> address \<Rightarrow> validator list \<times> bool" where
  "remove_first [] addr = ([], False)"
| "remove_first (v # vs) addr =
     (if v = addr then (vs, True) else let (ws, b) = remove_first vs addr in (v # ws, b))"

definition RemoveValidator :: "defaultSet \<Rightarrow> address \<Rightarrow> defaultSet \<times> bool" where
  "RemoveValidator vs addr =
     (let (ws, b) = remove_first (validators vs) addr in (vs\<lparr>validators := ws\<rparr>, b))"

definition vs_Copy :: "(string \<Rightarrow> bytes) \<Rightarrow> defaultSet \<Rightarrow> defaultSet" where
  "vs_Copy kc vs = newDefaultSet kc (validators vs) (policy vs)"

text \<open>
  \<^verbatim>\<open>int(math.Ceil(float64(valSet.Size())/3)) - 1\<close>. The quotient is a double; below \<open>2 ^ 52\<close> validators
  its rounding never crosses an integer, so the ceiling is that of the exact quotient.
\<close>

definition vs_F :: "defaultSet \<Rightarrow> int" where
  "vs_F vs = \<lceil>rat_of_nat (vs_Size vs) / 3\<rceil> - 1"

subsection \<open>Lookup\<close>

lemma snd_find_addr: "snd (find_addr i vs a) = (if a \<in> set vs then Some a else None)"
  by (induction vs arbitrary: i) auto

lemma snd_GetByAddress [simp]:
  "snd (GetByAddress vs a) = (if a \<in> set (validators vs) then Some a else None)"
  by (simp add: GetByAddress_def snd_find_addr)

lemma find_addr_nth:
  "distinct vs \<Longrightarrow> k < length vs \<Longrightarrow> find_addr i vs (vs ! k) = (int (i + k), Some (vs ! k))"
proof (induction vs arbitrary: i k)
  case Nil
  then show ?case by simp
next
  case (Cons v vs)
  show ?case
  proof (cases k)
    case 0
    then show ?thesis by simp
  next
    case (Suc j)
    with Cons.prems have "vs ! j \<noteq> v" by auto
    with Cons.IH [of j "Suc i"] Cons.prems Suc show ?thesis by simp
  qed
qed

lemma GetByAddress_nth:
  "distinct (validators vs) \<Longrightarrow> k < vs_Size vs \<Longrightarrow>
     GetByAddress vs (validators vs ! k) = (int k, Some (validators vs ! k))"
  using find_addr_nth [of "validators vs" k 0] by (simp add: GetByAddress_def vs_Size_def)

lemma IsProposer_iff:
  "proposer vs = Some p \<Longrightarrow> IsProposer vs a \<longleftrightarrow> a = p \<and> p \<in> set (validators vs)"
  by (auto simp: IsProposer_def GetProposer_def)

subsection \<open>The invariant of the set\<close>

definition vs_wf :: "(string \<Rightarrow> bytes) \<Rightarrow> defaultSet \<Rightarrow> bool" where
  "vs_wf kc vs \<longleftrightarrow> sorted (map (address_Hex kc) (validators vs)) \<and> distinct (validators vs)"

lemma vs_wf_sorted: "vs_wf kc vs \<Longrightarrow> sort_Validators kc (validators vs) = validators vs"
  by (auto simp: vs_wf_def sort_Validators_def intro: sort_key_unique [OF inj_address_Hex, symmetric])

lemma set_sort_Validators [simp]: "set (sort_Validators kc vs) = set vs"
  by (simp add: sort_Validators_def)

lemma distinct_sort_Validators [simp]: "distinct (sort_Validators kc vs) = distinct vs"
  by (simp add: sort_Validators_def)

lemma sorted_sort_Validators [simp]: "sorted (map (address_Hex kc) (sort_Validators kc vs))"
  by (simp add: sort_Validators_def)

lemma validators_newDefaultSet [simp]:
  "validators (newDefaultSet kc addrs pol) = sort_Validators kc addrs"
  "policy (newDefaultSet kc addrs pol) = pol"
  by (simp_all add: newDefaultSet_def Let_def)

lemma vs_wf_newDefaultSet: "distinct addrs \<Longrightarrow> vs_wf kc (newDefaultSet kc addrs pol)"
  by (simp add: vs_wf_def)

lemma remove_first_eq: "remove_first vs a = (remove1 a vs, a \<in> set vs)"
  by (induction vs) auto

lemma RemoveValidator_eq:
  "RemoveValidator vs a =
     (vs\<lparr>validators := remove1 a (validators vs)\<rparr>, a \<in> set (validators vs))"
  by (simp add: RemoveValidator_def remove_first_eq)

lemma vs_wf_AddValidator: "vs_wf kc vs \<Longrightarrow> vs_wf kc (fst (AddValidator kc vs a))"
  by (auto simp: vs_wf_def AddValidator_def)

lemma vs_wf_RemoveValidator: "vs_wf kc vs \<Longrightarrow> vs_wf kc (fst (RemoveValidator vs a))"
  by (auto simp: vs_wf_def RemoveValidator_eq sorted_map_remove1)

lemma CalcProposer_simps [simp]:
  "validators (CalcProposer vs p r) = validators vs"
  "policy (CalcProposer vs p r) = policy vs"
  by (auto simp: CalcProposer_def)

lemma vs_wf_CalcProposer [simp]: "vs_wf kc (CalcProposer vs p r) = vs_wf kc vs"
  by (simp add: vs_wf_def)

lemma vs_wf_Copy: "vs_wf kc vs \<Longrightarrow> vs_wf kc (vs_Copy kc vs)"
  by (simp add: vs_Copy_def vs_wf_newDefaultSet vs_wf_def)

lemma vs_Copy_validators: "vs_wf kc vs \<Longrightarrow> validators (vs_Copy kc vs) = validators vs"
  by (simp add: vs_Copy_def vs_wf_sorted)

lemma vs_canonical:
  assumes "vs_wf kc vs" "vs_wf kc ws" "set (validators vs) = set (validators ws)"
  shows "validators vs = validators ws"
proof -
  have "mset (validators vs) = mset (validators ws)"
    using assms by (simp add: vs_wf_def set_eq_iff_mset_eq_distinct)
  then have "validators vs = sort_key (address_Hex kc) (validators ws)"
    using assms(1) by (intro sort_key_unique [OF inj_address_Hex]) (auto simp: vs_wf_def)
  with vs_wf_sorted [OF assms(2)] show ?thesis
    by (simp add: sort_Validators_def)
qed

subsection \<open>The fault bound\<close>

lemma vs_F_eq: "vs_F vs = (int (vs_Size vs) + 2) div 3 - 1"
proof -
  have "\<lceil>rat_of_nat n / 3\<rceil> = (int n + 2) div 3" for n
  proof (rule ceiling_unique)
    have "3 * ((int n + 2) div 3) \<le> int n + 2" "int n + 2 < 3 * ((int n + 2) div 3) + 3"
      by linarith+
    then have "3 * (of_int ((int n + 2) div 3) :: rat) \<le> rat_of_nat n + 2"
      and "rat_of_nat n + 2 < 3 * of_int ((int n + 2) div 3) + 3"
      by (metis (mono_tags, lifting) of_int_add of_int_le_iff of_int_mult of_int_numeral
          of_int_of_nat_eq, metis (mono_tags, lifting) of_int_add of_int_less_iff of_int_mult
          of_int_numeral of_int_of_nat_eq)
    then show "of_int ((int n + 2) div 3) - 1 < rat_of_nat n / 3"
      and "rat_of_nat n / 3 \<le> of_int ((int n + 2) div 3)"
      by simp_all
  qed
  then show ?thesis by (simp add: vs_F_def)
qed

lemma vs_F_bounds:
  assumes "vs_Size vs > 0"
  shows "0 \<le> vs_F vs" and "3 * vs_F vs < int (vs_Size vs)" and "int (vs_Size vs) \<le> 3 * vs_F vs + 3"
  using assms by (simp_all add: vs_F_eq)

subsection \<open>Proposer selection\<close>

lemma unat_mod_of_nat:
  assumes "0 < n" "n < 2 ^ 64"
  shows "unat (w mod of_nat n :: uint64) = unat w mod n"
  using assms by (simp add: unat_mod_distrib)

lemma GetByIndex_mod:
  assumes "0 < vs_Size vs" "vs_Size vs < 2 ^ 64"
  shows "GetByIndex vs (w mod of_nat (vs_Size vs)) = Some (validators vs ! (unat w mod vs_Size vs))"
  using assms by (simp add: GetByIndex_def unat_mod_of_nat)

lemma GetByIndex_mod_in:
  assumes "0 < vs_Size vs" "vs_Size vs < 2 ^ 64"
  shows "GetByIndex vs (w mod of_nat (vs_Size vs)) \<in> Some ` set (validators vs)"
proof -
  have "validators vs ! (unat w mod vs_Size vs) \<in> set (validators vs)"
    using assms(1) by (simp add: vs_Size_def)
  then show ?thesis using GetByIndex_mod [OF assms] by simp
qed

lemma proposer_is_validator:
  assumes "0 < vs_Size vs" "vs_Size vs < 2 ^ 64"
  shows "proposer (CalcProposer vs p rnd) \<in> Some ` set (validators vs)"
  using assms GetByIndex_mod_in [OF assms]
  by (simp add: CalcProposer_def stickyProposer_def roundRobinProposer_def Let_def)

lemma calcSeed_member:
  assumes "distinct (validators vs)" "k < vs_Size vs"
  shows "calcSeed vs (validators vs ! k) rnd = of_nat k + rnd"
  using assms by (simp add: calcSeed_def GetByAddress_nth)

text \<open>The index the policies pick, for rounds that stay clear of the wrap-around of \<^verbatim>\<open>uint64\<close>.\<close>

lemma roundRobin_index:
  assumes "distinct (validators vs)" "k < vs_Size vs" "\<not> emptyAddress (validators vs ! k)"
    and "k + r + 1 < 2 ^ 64" "vs_Size vs < 2 ^ 64"
  shows "roundRobinProposer vs (validators vs ! k) (of_nat r) =
           Some (validators vs ! ((k + r + 1) mod vs_Size vs))"
proof -
  have "unat (of_nat k + of_nat r + 1 :: uint64) = k + r + 1"
    using assms(4) unat_of_nat_small [of "k + r + 1"] by (simp add: add_ac)
  then show ?thesis
    using assms by (auto simp: roundRobinProposer_def calcSeed_member GetByIndex_mod)
qed

lemma sticky_index:
  assumes "distinct (validators vs)" "k < vs_Size vs" "\<not> emptyAddress (validators vs ! k)"
    and "k + r < 2 ^ 64" "vs_Size vs < 2 ^ 64"
  shows "stickyProposer vs (validators vs ! k) (of_nat r) =
           Some (validators vs ! ((k + r) mod vs_Size vs))"
proof -
  have "unat (of_nat k + of_nat r :: uint64) = k + r"
    using assms(4) unat_of_nat_small [of "k + r"] by simp
  then show ?thesis
    using assms by (auto simp: stickyProposer_def calcSeed_member GetByIndex_mod)
qed

lemma rotation_covers:
  assumes "0 < (n::nat)"
  shows "(\<lambda>j. (s + j) mod n) ` {..<n} = {..<n}"
proof -
  have "inj_on (\<lambda>j. (s + j) mod n) {..<n}"
  proof (rule inj_onI)
    fix x y assume "x \<in> {..<n}" "y \<in> {..<n}" "(s + x) mod n = (s + y) mod n"
    then show "x = y" by (auto intro: mod_add_inj)
  qed
  moreover have "(\<lambda>j. (s + j) mod n) ` {..<n} \<subseteq> {..<n}"
    using assms by auto
  ultimately show ?thesis
    by (metis card_image card_subset_eq finite_lessThan)
qed

lemma roundRobin_turns:
  assumes "distinct (validators vs)" "k < vs_Size vs" "\<not> emptyAddress (validators vs ! k)"
    and "k + r + vs_Size vs < 2 ^ 64"
  shows "(\<lambda>j. roundRobinProposer vs (validators vs ! k) (of_nat (r + j))) ` {..<vs_Size vs} =
    Some ` set (validators vs)"
proof -
  let ?n = "vs_Size vs"
  have n: "0 < ?n" using assms(2) by simp
  have pick: "roundRobinProposer vs (validators vs ! k) (of_nat (r + j)) =
      Some (validators vs ! ((k + r + 1 + j) mod ?n))" if "j < ?n" for j
    using roundRobin_index [OF assms(1-3), of "r + j"] assms(4) that by (simp add: add_ac)
  have "(\<lambda>j. roundRobinProposer vs (validators vs ! k) (of_nat (r + j))) ` {..<?n} =
      (\<lambda>i. Some (validators vs ! i)) ` (\<lambda>j. (k + r + 1 + j) mod ?n) ` {..<?n}"
    unfolding image_image by (intro image_cong refl) (use pick in \<open>simp del: of_nat_add\<close>)
  also have "\<dots> = (\<lambda>i. Some (validators vs ! i)) ` {..<?n}"
    using rotation_covers [OF n, of "k + r + 1"] by (simp only: )
  also have "\<dots> = Some ` set (validators vs)"
    by (simp only: vs_Size_def set_conv_nth lessThan_def) auto
  finally show ?thesis .
qed

text \<open>
  C17: under the round robin policy the turn to propose goes round fairly: whoever proposed last and
  whatever the round, the next \<open>n\<close> rounds have the \<open>n\<close> validators as their proposers, each
  once.
\<close>

theorem round_robin_fair:
  assumes "policy vs = RoundRobin" "distinct (validators vs)" "lastp \<in> set (validators vs)"
    and "\<not> emptyAddress lastp" "r + 2 * vs_Size vs < 2 ^ 64"
  shows "bij_betw (\<lambda>j. proposer (CalcProposer vs lastp (of_nat (r + j))))
    {..<vs_Size vs} (Some ` set (validators vs))"
proof -
  obtain k where k: "k < vs_Size vs" "lastp = validators vs ! k"
    using assms(3) by (metis in_set_conv_nth vs_Size_def)
  let ?f = "\<lambda>j. roundRobinProposer vs lastp (of_nat (r + j))"
  have img: "?f ` {..<vs_Size vs} = Some ` set (validators vs)"
    using roundRobin_turns [OF assms(2) k(1), of r] assms(4,5) k by simp
  then have "card (?f ` {..<vs_Size vs}) = card {..<vs_Size vs}"
    using distinct_card [OF assms(2)] by (simp add: card_image vs_Size_def)
  then have "bij_betw ?f {..<vs_Size vs} (Some ` set (validators vs))"
    using img by (simp add: bij_betw_def eq_card_imp_inj_on)
  then show ?thesis
    using assms(1) by (simp add: CalcProposer_def RoundRobin_def Sticky_def)
qed

theorem round_robin_fair_witness:
  "bij_betw (\<lambda>j. proposer (CalcProposer \<lparr>validators = [5, 6, 7], policy = RoundRobin, proposer = None\<rparr>
      6 (of_nat (10 + j)))) {..<3} (Some ` {5, 6, 7})"
  using round_robin_fair [of "\<lparr>validators = [5, 6, 7], policy = RoundRobin, proposer = None\<rparr>" 6 10]
  by (simp add: vs_Size_def emptyAddress_def numeral_3_eq_3)

text \<open>
  C32: the sticky policy keeps the proposer of the last block at round 0 and moves on by one validator
  with every round.
\<close>

theorem sticky_moves_by_round:
  assumes "policy vs = Sticky" "distinct (validators vs)" "k < vs_Size vs"
    and "\<not> emptyAddress (validators vs ! k)" "k + r < 2 ^ 64" "vs_Size vs < 2 ^ 64"
  shows "proposer (CalcProposer vs (validators vs ! k) (of_nat r)) =
    Some (validators vs ! ((k + r) mod vs_Size vs))"
  using assms sticky_index [of vs k r] by (simp add: CalcProposer_def)

theorem sticky_moves_by_round_witness:
  "proposer (CalcProposer \<lparr>validators = [5, 6, 7], policy = Sticky, proposer = None\<rparr> 6 (of_nat 2)) = Some 5"
  using sticky_moves_by_round [of "\<lparr>validators = [5, 6, 7], policy = Sticky, proposer = None\<rparr>" 1 2]
  by (simp add: vs_Size_def emptyAddress_def)

text \<open>
  C33: once a proposer was calculated for a set with a validator in it, \<^verbatim>\<open>IsProposer\<close> holds of exactly one
  address, and that is the address of a validator.
\<close>

theorem one_proposer:
  assumes "0 < vs_Size vs" "vs_Size vs < 2 ^ 64"
  shows "\<exists>p \<in> set (validators vs). \<forall>a. IsProposer (CalcProposer vs lastp rnd) a \<longleftrightarrow> a = p"
proof -
  obtain p where "p \<in> set (validators vs)" "proposer (CalcProposer vs lastp rnd) = Some p"
    using proposer_is_validator [OF assms, of lastp rnd] by auto
  then show ?thesis using IsProposer_iff [of "CalcProposer vs lastp rnd" p] by auto
qed

theorem one_proposer_witness:
  "\<exists>p \<in> {5, 6, 7}. \<forall>a. IsProposer (CalcProposer \<lparr>validators = [5, 6, 7], policy = RoundRobin,
     proposer = None\<rparr> 0 3) a \<longleftrightarrow> a = p"
  using one_proposer [of "\<lparr>validators = [5, 6, 7], policy = RoundRobin, proposer = None\<rparr>" 0 3]
  by (simp add: vs_Size_def)


subsection \<open>Histories of a set\<close>

text \<open>Votes that add (\<open>True\<close>) and remove (\<open>False\<close>) validators, one after the other.\<close>

definition vs_apply :: "(string \<Rightarrow> bytes) \<Rightarrow> address \<times> bool \<Rightarrow> defaultSet \<Rightarrow> defaultSet" where
  "vs_apply kc op vs =
     fst (if snd op then AddValidator kc vs (fst op) else RemoveValidator vs (fst op))"

definition set_apply :: "address \<times> bool \<Rightarrow> address set \<Rightarrow> address set" where
  "set_apply op A = (if snd op then insert (fst op) A else A - {fst op})"

lemma vs_apply_spec:
  assumes "vs_wf kc vs"
  shows "vs_wf kc (vs_apply kc op vs)"
    "set (validators (vs_apply kc op vs)) = set_apply op (set (validators vs))"
    "policy (vs_apply kc op vs) = policy vs"
  using assms vs_wf_AddValidator [OF assms] vs_wf_RemoveValidator [OF assms]
  by (auto simp: vs_apply_def set_apply_def AddValidator_def RemoveValidator_eq vs_wf_def)

lemma vs_apply_all:
  "vs_wf kc vs \<Longrightarrow> vs_wf kc (fold (vs_apply kc) ops vs) \<and>
     set (validators (fold (vs_apply kc) ops vs)) = fold set_apply ops (set (validators vs)) \<and>
     policy (fold (vs_apply kc) ops vs) = policy vs"
  by (induction ops arbitrary: vs) (simp_all add: vs_apply_spec)

text \<open>
  C18: the list of validators depends on nothing but the set of its members: after any history of
  additions and removals it is the list \<^verbatim>\<open>NewSet\<close> builds from the members in any order. So nodes that
  agree on the members agree on every index, and with it on every proposer.
\<close>

theorem validators_canonical:
  assumes "distinct addrs" "distinct members" "set members = fold set_apply ops (set addrs)"
  shows "validators (fold (vs_apply kc) ops (newDefaultSet kc addrs pol)) =
    validators (newDefaultSet kc members pol)"
  using vs_apply_all [OF vs_wf_newDefaultSet [OF assms(1)], of kc ops pol]
    vs_wf_newDefaultSet [OF assms(2)] assms(3)
  by (intro vs_canonical) auto

theorem validators_canonical_witness:
  "validators (fold (vs_apply (\<lambda>_. replicate 32 0)) [(9, True), (5, False)]
      (newDefaultSet (\<lambda>_. replicate 32 0) [5, 6, 7] RoundRobin)) =
    validators (newDefaultSet (\<lambda>_. replicate 32 0) [9, 7, 6] RoundRobin)"
  by (rule validators_canonical) (auto simp: set_apply_def)

end
