(* ===== verification/Prque.thy ===== *)
theory Prque
  imports Prelude
begin

text \<open>
  The priority queue in which the core keeps the messages and requests it cannot process yet
  (\<^verbatim>\<open>collections/prque\<close>, vendored under \<^verbatim>\<open>src/vendor/gopkg.in/karalabe/cookiejar.v2\<close>). It is Go's
  \<^verbatim>\<open>container/heap\<close> over an array of (value, priority) items, greatest priority first. The blocks of
  \<^verbatim>\<open>sstack\<close> are one list here. The priorities the core uses are integers rounded to \<^verbatim>\<open>float32\<close>; a
  \<^verbatim>\<open>float32\<close> that is an integer is the \<^typ>\<open>int\<close> it denotes (\<open>float32_of\<close> below does the rounding).

  The interface the core relies on is the locale \<open>prio_queue\<close>: popping yields an item of greatest
  priority and removes exactly that item.
\<close>

subsection \<open>Rounding to a 24-bit significand\<close>

fun float32_shift :: "nat \<Rightarrow> nat" where
  "float32_shift n = (if n < 2 ^ 24 then 0 else Suc (float32_shift (n div 2)))"

declare float32_shift.simps [simp del]

definition float32_nat :: "nat \<Rightarrow> nat" where
  "float32_nat n =
     (let e = float32_shift n; q = n div 2 ^ e; r = n mod 2 ^ e
      in (if 2 * r < 2 ^ e \<or> (2 * r = 2 ^ e \<and> even q) then q else Suc q) * 2 ^ e)"

definition float32_of :: "int \<Rightarrow> int" where
  "float32_of x = (if x < 0 then - int (float32_nat (nat (- x))) else int (float32_nat (nat x)))"

subsection \<open>The heap of \<^verbatim>\<open>container/heap\<close>\<close>

type_synonym 'a item = "'a \<times> int"
type_synonym 'a prque = "'a item list"

definition prio :: "'a prque \<Rightarrow> nat \<Rightarrow> int" where
  "prio xs i = snd (xs ! i)"

definition heap_Less :: "'a prque \<Rightarrow> nat \<Rightarrow> nat \<Rightarrow> bool" where
  "heap_Less xs i j \<longleftrightarrow> prio xs i > prio xs j"

definition heap_Swap :: "'a prque \<Rightarrow> nat \<Rightarrow> nat \<Rightarrow> 'a prque" where
  "heap_Swap xs i j = xs[i := xs ! j, j := xs ! i]"

function heap_up :: "'a prque \<Rightarrow> nat \<Rightarrow> 'a prque" where
  "heap_up xs j =
     (let i = (j - 1) div 2
      in if i = j \<or> \<not> heap_Less xs j i then xs else heap_up (heap_Swap xs i j) i)"
  by pat_completeness auto
termination
  by (relation "measure snd") auto

definition heap_child :: "'a prque \<Rightarrow> nat \<Rightarrow> nat \<Rightarrow> nat" where
  "heap_child xs i n =
     (let j1 = 2 * i + 1; j2 = j1 + 1 in if j2 < n \<and> heap_Less xs j2 j1 then j2 else j1)"

function heap_down :: "'a prque \<Rightarrow> nat \<Rightarrow> nat \<Rightarrow> 'a prque" where
  "heap_down xs i n =
     (if 2 * i + 1 \<ge> n then xs
      else if \<not> heap_Less xs (heap_child xs i n) i then xs
      else heap_down (heap_Swap xs i (heap_child xs i n)) (heap_child xs i n) n)"
  by pat_completeness auto
termination
  by (relation "measure (\<lambda>(xs, i, n). n - i)") (auto simp: heap_child_def Let_def)

declare heap_up.simps [simp del] heap_down.simps [simp del]

definition prque_New :: "'a prque" where
  "prque_New = []"

definition prque_Push :: "'a prque \<Rightarrow> 'a \<Rightarrow> int \<Rightarrow> 'a prque" where
  "prque_Push q x p = heap_up (q @ [(x, p)]) (length q)"

text \<open>\<^verbatim>\<open>Pop\<close> on an empty heap indexes out of range, a panic: \<^term>\<open>None\<close>.\<close>

definition prque_Pop :: "'a prque \<Rightarrow> ('a item \<times> 'a prque) option" where
  "prque_Pop q =
     (if q = [] then None
      else let n = length q - 1; r = heap_down (heap_Swap q 0 n) 0 n
           in Some (last r, butlast r))"

definition prque_Empty :: "'a prque \<Rightarrow> bool" where
  "prque_Empty q \<longleftrightarrow> length q = 0"

subsection \<open>The interface\<close>

locale prio_queue =
  fixes new :: "'q"
    and push :: "'q \<Rightarrow> 'a \<Rightarrow> int \<Rightarrow> 'q"
    and pop :: "'q \<Rightarrow> (('a \<times> int) \<times> 'q) option"
    and empty :: "'q \<Rightarrow> bool"
    and items :: "'q \<Rightarrow> ('a \<times> int) multiset"
    and invar :: "'q \<Rightarrow> bool"
  assumes items_new: "items new = {#}"
    and invar_new: "invar new"
    and items_push: "invar q \<Longrightarrow> items (push q x p) = add_mset (x, p) (items q)"
    and invar_push: "invar q \<Longrightarrow> invar (push q x p)"
    and empty_iff: "empty q \<longleftrightarrow> items q = {#}"
    and pop_empty: "items q = {#} \<Longrightarrow> pop q = None"
    and pop_max: "invar q \<Longrightarrow> items q \<noteq> {#} \<Longrightarrow>
          \<exists>x p q'. pop q = Some ((x, p), q') \<and> invar q' \<and> items q = add_mset (x, p) (items q') \<and>
            (\<forall>y r. (y, r) \<in># items q \<longrightarrow> r \<le> p)"
begin

lemma pop_SomeD:
  assumes "invar q" "pop q = Some ((x, p), q')"
  shows "invar q'" "items q = add_mset (x, p) (items q')" "\<forall>y r. (y, r) \<in># items q \<longrightarrow> r \<le> p"
proof -
  have "items q \<noteq> {#}"
    using assms(2) pop_empty by fastforce
  from pop_max [OF assms(1) this] assms(2)
  show "invar q'" "items q = add_mset (x, p) (items q')" "\<forall>y r. (y, r) \<in># items q \<longrightarrow> r \<le> p"
    by auto
qed

lemma push_all:
  "invar q \<Longrightarrow> invar (fold (\<lambda>xp q. push q (fst xp) (snd xp)) xs q) \<and>
     items (fold (\<lambda>xp q. push q (fst xp) (snd xp)) xs q) = mset xs + items q"
  by (induction xs arbitrary: q) (auto simp: items_push invar_push)

lemma pop_NoneD: "invar q \<Longrightarrow> pop q = None \<Longrightarrow> empty q"
  using pop_max empty_iff by fastforce

lemma pop_smaller: "invar q \<Longrightarrow> pop q = Some (xp, q') \<Longrightarrow> size (items q') < size (items q)"
  using pop_SomeD(2) by (cases xp) simp

end

subsection \<open>The heap satisfies the interface\<close>

abbreviation parent :: "nat \<Rightarrow> nat" where
  "parent k \<equiv> (k - 1) div 2"

lemma parent_less: "0 < k \<Longrightarrow> parent k < k"
  by linarith

lemma parent_fixed: "parent k = k \<longleftrightarrow> k = 0"
  by linarith

definition heap_on :: "nat \<Rightarrow> 'a prque \<Rightarrow> bool" where
  "heap_on n xs \<longleftrightarrow> (\<forall>k. 0 < k \<and> k < n \<longrightarrow> prio xs k \<le> prio xs (parent k))"

text \<open>The two loops move one misplaced item; everything else is in heap order around it.\<close>

definition up_inv :: "'a prque \<Rightarrow> nat \<Rightarrow> bool" where
  "up_inv xs j \<longleftrightarrow> j < length xs \<and>
     (\<forall>k. 0 < k \<and> k < length xs \<and> k \<noteq> j \<longrightarrow> prio xs k \<le> prio xs (parent k)) \<and>
     (\<forall>k. 0 < k \<and> k < length xs \<and> parent k = j \<and> 0 < j \<longrightarrow> prio xs k \<le> prio xs (parent j))"

definition down_inv :: "'a prque \<Rightarrow> nat \<Rightarrow> nat \<Rightarrow> bool" where
  "down_inv xs i n \<longleftrightarrow> n \<le> length xs \<and>
     (\<forall>k. 0 < k \<and> k < n \<and> parent k \<noteq> i \<longrightarrow> prio xs k \<le> prio xs (parent k)) \<and>
     (\<forall>k. 0 < k \<and> k < n \<and> parent k = i \<and> 0 < i \<longrightarrow> prio xs k \<le> prio xs (parent i))"

lemma length_heap_Swap [simp]: "length (heap_Swap xs i j) = length xs"
  by (simp add: heap_Swap_def)

lemma mset_heap_Swap: "i < length xs \<Longrightarrow> j < length xs \<Longrightarrow> mset (heap_Swap xs i j) = mset xs"
  unfolding heap_Swap_def by (rule mset_swap)

lemma prio_heap_Swap:
  assumes "i < length xs" "j < length xs"
  shows "prio (heap_Swap xs i j) k = (if k = i then prio xs j else if k = j then prio xs i else prio xs k)"
  using assms by (auto simp: heap_Swap_def prio_def nth_list_update)

lemma nth_heap_Swap_other: "k \<noteq> i \<Longrightarrow> k \<noteq> j \<Longrightarrow> heap_Swap xs i j ! k = xs ! k"
  by (simp add: heap_Swap_def)

lemma up_inv_Swap:
  assumes inv: "up_inv xs j" and i: "i = parent j" "i \<noteq> j" and less: "heap_Less xs j i"
  shows "up_inv (heap_Swap xs i j) i"
proof -
  have ord: "prio xs k \<le> prio xs (parent k)" if "0 < k" "k < length xs" "k \<noteq> j" for k
    using inv that by (auto simp: up_inv_def)
  have skip: "prio xs k \<le> prio xs i" if "0 < k" "k < length xs" "parent k = j" for k
    using inv that i by (auto simp: up_inv_def)
  have len: "i < length xs" "j < length xs" "0 < j" "i < j"
    using inv i by (auto simp: up_inv_def)
  have gt: "prio xs i < prio xs j" using less by (simp add: heap_Less_def)
  show ?thesis
    unfolding up_inv_def
  proof (intro conjI allI impI, goal_cases)
    case 1
    then show ?case using len by simp
  next
    case (2 k)
    then have k: "0 < k" "k < length xs" "k \<noteq> i" by auto
    consider "k = j" | "k \<noteq> j" "parent k = j" | "k \<noteq> j" "parent k = i"
      | "k \<noteq> j" "parent k \<noteq> i" "parent k \<noteq> j" by blast
    then show ?case
    proof cases
      case 1
      then show ?thesis using len gt i(1) [symmetric] by (simp add: prio_heap_Swap)
    next
      case 2
      then show ?thesis using len k skip [OF k(1,2)] by (simp add: prio_heap_Swap)
    next
      case 3
      then show ?thesis using len k gt ord [OF k(1,2)] by (simp add: prio_heap_Swap)
    next
      case 4
      then show ?thesis using len k ord [OF k(1,2)] by (simp add: prio_heap_Swap)
    qed
  next
    case (3 k)
    then have "parent i < i" using parent_less [of i] by blast
    then have "parent i \<noteq> i" "parent i \<noteq> j" using len by simp_all
    then have "prio (heap_Swap xs i j) (parent i) = prio xs (parent i)"
      using len by (simp add: prio_heap_Swap)
    moreover have "prio xs i \<le> prio xs (parent i)"
      using ord [of i] 3 len by simp
    moreover have "prio (heap_Swap xs i j) k \<le> prio xs i"
    proof (cases "k = j")
      case True
      then show ?thesis using len by (simp add: prio_heap_Swap)
    next
      case False
      then have "prio xs k \<le> prio xs i" using ord [of k] 3 by simp
      moreover have "k \<noteq> i" using 3 parent_less [of k] by auto
      ultimately show ?thesis using len False by (simp add: prio_heap_Swap)
    qed
    ultimately show ?case by linarith
  qed
qed

lemma heap_up_correct:
  "up_inv xs j \<Longrightarrow>
     heap_on (length xs) (heap_up xs j) \<and> mset (heap_up xs j) = mset xs \<and>
     length (heap_up xs j) = length xs"
proof (induction xs j rule: heap_up.induct)
  case (1 xs j)
  let ?i = "parent j"
  show ?case
  proof (cases "?i = j \<or> \<not> heap_Less xs j ?i")
    case True
    then have "prio xs j \<le> prio xs (parent j)"
      unfolding parent_fixed by (auto simp: heap_Less_def)
    with 1(2) have "heap_on (length xs) xs"
      by (auto simp: heap_on_def up_inv_def)
    with True show ?thesis by (simp add: heap_up.simps [of xs j] Let_def)
  next
    case False
    then have "up_inv (heap_Swap xs ?i j) ?i"
      using 1(2) by (intro up_inv_Swap) auto
    moreover have "mset (heap_Swap xs ?i j) = mset xs"
      using 1(2) by (intro mset_heap_Swap) (auto simp: up_inv_def)
    ultimately show ?thesis
      using 1(1) [OF refl False] False by (simp add: heap_up.simps [of xs j] Let_def)
  qed
qed

lemma down_inv_Swap:
  assumes inv: "down_inv xs i n" and j: "parent j = i" "0 < j" "j < n"
    and best: "\<And>k. 0 < k \<Longrightarrow> k < n \<Longrightarrow> parent k = i \<Longrightarrow> prio xs k \<le> prio xs j"
    and less: "heap_Less xs j i"
  shows "down_inv (heap_Swap xs i j) j n"
proof -
  have ord: "prio xs k \<le> prio xs (parent k)" if "0 < k" "k < n" "parent k \<noteq> i" for k
    using inv that by (auto simp: down_inv_def)
  have skip: "prio xs k \<le> prio xs (parent i)" if "0 < k" "k < n" "parent k = i" "0 < i" for k
    using inv that by (auto simp: down_inv_def)
  have len: "n \<le> length xs" "i < length xs" "j < length xs" "i < j"
    using inv j parent_less [of j] by (auto simp: down_inv_def)
  have gt: "prio xs i < prio xs j" using less by (simp add: heap_Less_def)
  show ?thesis
    unfolding down_inv_def
  proof (intro conjI allI impI, goal_cases)
    case 1
    then show ?case using len by simp
  next
    case (2 k)
    then have k: "0 < k" "k < n" "parent k \<noteq> j" by auto
    show ?case
    proof (cases "parent k = i")
      case True
      then show ?thesis using k len gt best [of k] by (auto simp: prio_heap_Swap)
    next
      case False
      then have "k \<noteq> j" using j by blast
      moreover have "prio xs k \<le> prio xs (parent k)" using ord k False by blast
      moreover have "prio xs j \<le> prio xs (parent i)" if "k = i"
        using skip [of j] j k that by simp
      ultimately show ?thesis using False k len by (auto simp: prio_heap_Swap)
    qed
  next
    case (3 k)
    then have "k \<noteq> i" "k \<noteq> j" "parent k \<noteq> i"
      using len parent_less [of k] by auto
    then show ?case using 3 ord [of k] len j by (auto simp: prio_heap_Swap)
  qed
qed

lemma heap_down_correct:
  "down_inv xs i n \<Longrightarrow>
     heap_on n (heap_down xs i n) \<and> mset (heap_down xs i n) = mset xs \<and>
     length (heap_down xs i n) = length xs \<and>
     (\<forall>k. n \<le> k \<longrightarrow> heap_down xs i n ! k = xs ! k)"
proof (induction xs i n rule: heap_down.induct)
  case (1 xs i n)
  let ?j1 = "2 * i + 1"
  let ?j = "heap_child xs i n"
  note unfold = heap_down.simps [of xs i n]
  have child: "k = ?j1 \<or> k = ?j1 + 1" if "0 < k" "parent k = i" for k
    using that by linarith
  have ord: "prio xs k \<le> prio xs (parent k)" if "0 < k" "k < n" "parent k \<noteq> i" for k
    using 1(2) that by (auto simp: down_inv_def)
  consider (leaf) "n \<le> ?j1" | (stop) "\<not> n \<le> ?j1" "\<not> heap_Less xs ?j i"
    | (swap) "\<not> n \<le> ?j1" "heap_Less xs ?j i" by blast
  then show ?case
  proof cases
    case leaf
    have "heap_on n xs"
      unfolding heap_on_def using ord child leaf by fastforce
    with leaf unfold show ?thesis by simp
  next
    case stop
    have "prio xs k \<le> prio xs i" if "k = ?j1 \<or> k = ?j1 + 1" "k < n" for k
      using stop(2) that by (auto simp: heap_Less_def heap_child_def Let_def split: if_splits)
    then have "prio xs k \<le> prio xs (parent k)" if "0 < k" "k < n" for k
      using ord [OF that] child [OF that(1)] that(2) by (cases "parent k = i") auto
    then have "heap_on n xs" by (simp add: heap_on_def)
    with stop unfold show ?thesis by simp
  next
    case swap
    have j: "parent ?j = i" "0 < ?j" "?j < n" using swap(1) by (auto simp: heap_child_def Let_def)
    have best: "prio xs k \<le> prio xs ?j" if "0 < k" "k < n" "parent k = i" for k
      using that(2) child [OF that(1,3)] by (auto simp: heap_Less_def heap_child_def Let_def)
    have "down_inv (heap_Swap xs i ?j) ?j n"
      by (rule down_inv_Swap [OF 1(2) j best swap(2)])
    then have IH: "heap_on n (heap_down (heap_Swap xs i ?j) ?j n)"
      "mset (heap_down (heap_Swap xs i ?j) ?j n) = mset (heap_Swap xs i ?j)"
      "length (heap_down (heap_Swap xs i ?j) ?j n) = length (heap_Swap xs i ?j)"
      "\<forall>k. n \<le> k \<longrightarrow> heap_down (heap_Swap xs i ?j) ?j n ! k = heap_Swap xs i ?j ! k"
      using 1(1) [OF swap(1)] swap(2) by blast+
    have len: "i < n" "n \<le> length xs"
      using j parent_less [of ?j] 1(2) by (auto simp: down_inv_def)
    have "heap_down xs i n = heap_down (heap_Swap xs i ?j) ?j n"
      using swap unfold by simp
    moreover have "mset (heap_Swap xs i ?j) = mset xs"
      using len j(3) by (intro mset_heap_Swap) simp_all
    moreover have "heap_Swap xs i ?j ! k = xs ! k" if "n \<le> k" for k
      using that len j(3) by (intro nth_heap_Swap_other) linarith+
    ultimately show ?thesis using IH by simp
  qed
qed

lemma heap_on_top: "heap_on n xs \<Longrightarrow> k < n \<Longrightarrow> prio xs k \<le> prio xs 0"
proof (induction k rule: less_induct)
  case (less k)
  show ?case
  proof (cases "k = 0")
    case False
    then have "prio xs k \<le> prio xs (parent k)" "parent k < k"
      using less.prems parent_less [of k] by (auto simp: heap_on_def)
    with less.IH [of "parent k"] less.prems show ?thesis by simp
  qed simp
qed

lemma prque_Push_correct:
  assumes "heap_on (length q) q"
  shows "heap_on (length (prque_Push q x p)) (prque_Push q x p)"
    and "mset (prque_Push q x p) = add_mset (x, p) (mset q)"
proof -
  have nth: "prio (q @ [(x, p)]) k = prio q k" if "k < length q" for k
    using that by (simp add: prio_def nth_append)
  have "up_inv (q @ [(x, p)]) (length q)"
    unfolding up_inv_def
  proof (intro conjI allI impI, goal_cases)
    case 1
    then show ?case by simp
  next
    case (2 k)
    then have "k < length q" "parent k < length q" using parent_less [of k] by auto
    with 2 assms show ?case by (simp add: nth heap_on_def)
  next
    case (3 k)
    then show ?case using parent_less [of k] by simp
  qed
  from heap_up_correct [OF this]
  show "heap_on (length (prque_Push q x p)) (prque_Push q x p)"
    and "mset (prque_Push q x p) = add_mset (x, p) (mset q)"
    by (simp_all add: prque_Push_def)
qed

lemma prque_Pop_correct:
  assumes heap: "heap_on (length q) q" and ne: "q \<noteq> []"
  shows "\<exists>x p q'. prque_Pop q = Some ((x, p), q') \<and> heap_on (length q') q' \<and>
           mset q = add_mset (x, p) (mset q') \<and> (\<forall>y r. (y, r) \<in># mset q \<longrightarrow> r \<le> p)"
proof -
  let ?n = "length q - 1" and ?s = "heap_Swap q 0 (length q - 1)"
  define r where "r = heap_down ?s 0 ?n"
  have len: "0 < length q" "?n < length q" using ne by simp_all
  have "down_inv ?s 0 ?n"
    unfolding down_inv_def
  proof (intro conjI allI impI, goal_cases)
    case (2 k)
    then have "parent k < k" using parent_less [of k] by blast
    with 2 have "k \<noteq> ?n" "parent k \<noteq> ?n" "parent k < length q" by linarith+
    with 2 heap len show ?case by (auto simp: prio_heap_Swap heap_on_def)
  qed simp_all
  from heap_down_correct [OF this]
  have r: "heap_on ?n r" "mset r = mset q" "length r = length q" "r ! ?n = q ! 0"
    using len mset_heap_Swap [OF len] by (auto simp: r_def heap_Swap_def)
  then have r_split: "r = butlast r @ [q ! 0]"
    using ne append_butlast_last_id [of r] last_conv_nth [of r] by (metis length_0_conv)
  have heap': "heap_on (length (butlast r)) (butlast r)"
    unfolding heap_on_def
  proof (intro allI impI)
    fix k assume k: "0 < k \<and> k < length (butlast r)"
    then have "parent k < length (butlast r)" using parent_less [of k] by linarith
    with k r(1,3) show "prio (butlast r) k \<le> prio (butlast r) (parent k)"
      by (simp add: heap_on_def prio_def nth_butlast)
  qed
  have mset': "mset q = add_mset (q ! 0) (mset (butlast r))"
    using arg_cong [OF r_split, of mset] r(2) by simp
  have top: "r' \<le> prio q 0" if "(y, r') \<in># mset q" for y r'
  proof -
    from that obtain k where "k < length q" "q ! k = (y, r')"
      by (auto simp: in_set_conv_nth)
    then show ?thesis using heap_on_top [OF heap, of k] by (simp add: prio_def)
  qed
  have "prque_Pop q = Some (last r, butlast r)"
    using ne by (simp only: prque_Pop_def Let_def r_def if_False)
  moreover have "last r = q ! 0"
    using r_split by (metis last_snoc)
  ultimately have "prque_Pop q = Some (q ! 0, butlast r)" by simp
  then show ?thesis
    using heap' mset' top by (cases "q ! 0") (auto simp: prio_def)
qed

interpretation pq: prio_queue prque_New prque_Push prque_Pop prque_Empty mset
  "\<lambda>q. heap_on (length q) q"
proof
  show "mset prque_New = {#}" "heap_on (length prque_New) prque_New"
    by (simp_all add: prque_New_def heap_on_def)
  fix q :: "'a prque" and x p
  show "prque_Empty q \<longleftrightarrow> mset q = {#}" by (simp add: prque_Empty_def)
  show "mset q = {#} \<Longrightarrow> prque_Pop q = None" by (simp add: prque_Pop_def)
  assume heap: "heap_on (length q) q"
  then show "mset (prque_Push q x p) = add_mset (x, p) (mset q)"
    and "heap_on (length (prque_Push q x p)) (prque_Push q x p)"
    by (rule prque_Push_correct)+
  show "mset q \<noteq> {#} \<Longrightarrow> \<exists>x p q'. prque_Pop q = Some ((x, p), q') \<and> heap_on (length q') q' \<and>
          mset q = add_mset (x, p) (mset q') \<and> (\<forall>y r. (y, r) \<in># mset q \<longrightarrow> r \<le> p)"
    using prque_Pop_correct [OF heap] by simp
qed

lemma length_heap_down [simp]: "length (heap_down xs i n) = length xs"
proof (induction xs i n rule: heap_down.induct)
  case (1 xs i n)
  let ?j1 = "2 * i + 1"
  let ?j = "heap_child xs i n"
  note unfold = heap_down.simps [of xs i n]
  show ?case
  proof (cases "n \<le> ?j1 \<or> \<not> heap_Less xs ?j i")
    case True
    with unfold show ?thesis by auto
  next
    case False
    then have "length (heap_down (heap_Swap xs i ?j) ?j n) = length (heap_Swap xs i ?j)"
      using 1 by blast
    with False unfold show ?thesis by simp
  qed
qed

lemma prque_Pop_size: "prque_Pop q = Some (xp, q') \<Longrightarrow> length q = Suc (length q')"
proof -
  assume "prque_Pop q = Some (xp, q')"
  then show ?thesis
    by (auto simp: prque_Pop_def Let_def split: if_splits)
qed

text \<open>No item is lost or made up, in any queue.\<close>

lemma mset_heap_up: "j < length xs \<Longrightarrow> mset (heap_up xs j) = mset xs"
proof (induction xs j rule: heap_up.induct)
  case (1 xs j)
  let ?i = "parent j"
  have i: "?i < length xs" using "1.prems" parent_less [of j] parent_fixed [of j] by (cases "j = 0") auto
  show ?case
  proof (cases "?i = j \<or> \<not> heap_Less xs j ?i")
    case True
    then show ?thesis using heap_up.simps [of xs j] by (auto simp: Let_def)
  next
    case False
    then have "mset (heap_up (heap_Swap xs ?i j) ?i) = mset (heap_Swap xs ?i j)"
      using 1 i by simp
    then show ?thesis
      using False heap_up.simps [of xs j] mset_heap_Swap [OF i "1.prems"] by (auto simp: Let_def)
  qed
qed

lemma mset_heap_down: "n \<le> length xs \<Longrightarrow> mset (heap_down xs i n) = mset xs"
proof (induction xs i n rule: heap_down.induct)
  case (1 xs i n)
  let ?j1 = "2 * i + 1"
  let ?j = "heap_child xs i n"
  note unfold = heap_down.simps [of xs i n]
  show ?case
  proof (cases "n \<le> ?j1 \<or> \<not> heap_Less xs ?j i")
    case True
    with unfold show ?thesis by auto
  next
    case False
    then have "mset (heap_down (heap_Swap xs i ?j) ?j n) = mset (heap_Swap xs i ?j)"
      using 1 by simp
    moreover have "i < length xs" "?j < length xs"
      using False "1.prems" by (auto simp: heap_child_def)
    ultimately show ?thesis using False unfold mset_heap_Swap by simp
  qed
qed

lemma prque_Push_mset: "mset (prque_Push q x p) = add_mset (x, p) (mset q)"
  by (simp add: prque_Push_def mset_heap_up)

lemma prque_Pop_mset:
  assumes "prque_Pop q = Some (xp, q')"
  shows "mset q = add_mset xp (mset q')"
proof -
  have ne: "q \<noteq> []" using assms by (auto simp: prque_Pop_def)
  define r where "r = heap_down (heap_Swap q 0 (length q - 1)) 0 (length q - 1)"
  have r: "xp = last r" "q' = butlast r" using assms ne by (simp_all add: prque_Pop_def r_def Let_def)
  have "mset r = mset q" using ne by (simp add: r_def mset_heap_down mset_heap_Swap)
  moreover have "r \<noteq> []" using calculation ne by auto
  then have "mset r = mset (butlast r @ [last r])" by simp
  then have "mset r = add_mset xp (mset q')" unfolding r by simp
  ultimately show ?thesis by simp
qed

subsection \<open>Rounding keeps the order\<close>

lemma float32_shift_small [simp]: "n < 2 ^ 24 \<Longrightarrow> float32_shift n = 0"
  by (simp add: float32_shift.simps)

lemma float32_nat_exact [simp]: "n < 2 ^ 24 \<Longrightarrow> float32_nat n = n"
  by (simp add: float32_nat_def)

lemma float32_of_exact: "\<bar>x\<bar> < 2 ^ 24 \<Longrightarrow> float32_of x = x"
  by (auto simp: float32_of_def float32_nat_exact [OF nat_less_iff [THEN iffD2]])

text \<open>
  The shift leaves a quotient of at most 24 bits, with its top bit set unless the number was small;
  so a larger shift means a larger result and, at equal shifts, rounding to the nearest multiple is
  monotone.
\<close>

lemma float32_shift_div: "n div 2 ^ float32_shift n < 2 ^ 24"
proof (induction n rule: float32_shift.induct)
  case (1 n)
  then show ?case
    by (cases "n < 2 ^ 24") (simp_all add: float32_shift.simps [of n] div_mult2_eq)
qed

lemma float32_shift_top: "float32_shift n \<noteq> 0 \<Longrightarrow> 2 ^ 23 \<le> n div 2 ^ float32_shift n"
proof (induction n rule: float32_shift.induct)
  case (1 n)
  then have n: "\<not> n < 2 ^ 24" by (auto simp: float32_shift.simps [of n])
  show ?case
  proof (cases "float32_shift (n div 2) = 0")
    case True
    with n show ?thesis by (simp add: float32_shift.simps [of n])
  next
    case False
    with 1 n show ?thesis by (simp add: float32_shift.simps [of n] div_mult2_eq)
  qed
qed

lemma float32_shift_mono: "a \<le> b \<Longrightarrow> float32_shift a \<le> float32_shift b"
proof (induction a arbitrary: b rule: float32_shift.induct)
  case (1 a)
  show ?case
  proof (cases "a < 2 ^ 24")
    case False
    with 1 have "float32_shift (a div 2) \<le> float32_shift (b div 2)"
      by (simp add: div_le_mono)
    with False 1(2) show ?thesis by (simp add: float32_shift.simps [of a] float32_shift.simps [of b])
  qed simp
qed

definition round_to :: "nat \<Rightarrow> nat \<Rightarrow> nat" where
  "round_to e n =
     (if 2 * (n mod 2 ^ e) < 2 ^ e \<or> (2 * (n mod 2 ^ e) = 2 ^ e \<and> even (n div 2 ^ e))
      then n div 2 ^ e else Suc (n div 2 ^ e))"

lemma float32_nat_round: "float32_nat n = round_to (float32_shift n) n * 2 ^ float32_shift n"
  by (simp add: float32_nat_def round_to_def Let_def)

lemma round_to_bounds: "n div 2 ^ e \<le> round_to e n" "round_to e n \<le> Suc (n div 2 ^ e)"
  by (auto simp: round_to_def)

lemma round_to_mono:
  assumes "a \<le> b"
  shows "round_to e a \<le> round_to e b"
proof (cases "a div 2 ^ e = b div 2 ^ e")
  case True
  then have "a mod 2 ^ e \<le> b mod 2 ^ e"
    using assms by (metis add_le_cancel_left mult_div_mod_eq)
  with True show ?thesis by (auto simp: round_to_def)
next
  case False
  then have "a div 2 ^ e < b div 2 ^ e"
    using assms by (metis div_le_mono le_neq_implies_less)
  with round_to_bounds(1) [of b e] round_to_bounds(2) [of e a] show ?thesis by linarith
qed

lemma float32_nat_mono:
  assumes "a \<le> b"
  shows "float32_nat a \<le> float32_nat b"
proof (cases "float32_shift a = float32_shift b")
  case True
  with round_to_mono [OF assms] show ?thesis by (simp add: float32_nat_round)
next
  case False
  let ?e = "float32_shift a" and ?f = "float32_shift b"
  have lt: "?e < ?f" using False float32_shift_mono [OF assms] by simp
  have "round_to ?e a \<le> 2 ^ 24"
    using round_to_bounds(2) [of ?e a] float32_shift_div [of a] by linarith
  then have "float32_nat a \<le> 2 ^ 24 * 2 ^ ?e" by (simp add: float32_nat_round)
  also have "\<dots> = 2 ^ 23 * 2 ^ Suc ?e" by simp
  also have "\<dots> \<le> 2 ^ 23 * 2 ^ ?f" using lt by (intro mult_le_mono power_increasing) simp_all
  also have "\<dots> \<le> round_to ?f b * 2 ^ ?f"
    using float32_shift_top [of b] round_to_bounds(1) [of b ?f] lt
    by (intro mult_le_mono1) linarith
  finally show ?thesis by (simp add: float32_nat_round)
qed

subsection \<open>The order of delivery\<close>

text \<open>All items of a queue in the order in which \<^verbatim>\<open>Pop\<close> gives them out.\<close>

function prque_drain :: "'a prque \<Rightarrow> 'a item list" where
  "prque_drain q = (case prque_Pop q of None \<Rightarrow> [] | Some (xp, q') \<Rightarrow> xp # prque_drain q')"
  by pat_completeness auto
termination
  by (relation "measure length") (auto dest: prque_Pop_size)

declare prque_drain.simps [simp del]

lemma prque_drain_correct:
  "heap_on (length q) q \<Longrightarrow>
     mset (prque_drain q) = mset q \<and> sorted_wrt (\<lambda>a b. snd b \<le> snd a) (prque_drain q)"
proof (induction q rule: prque_drain.induct)
  case (1 q)
  show ?case
  proof (cases "prque_Pop q")
    case None
    then have "q = []" by (auto simp: prque_Pop_def Let_def split: if_splits)
    then show ?thesis using None prque_drain.simps [of q] by simp
  next
    case (Some xq)
    obtain x p q' where xq: "xq = ((x, p), q')" by (metis surj_pair)
    note pop = Some [unfolded xq]
    note q = pq.pop_SomeD [OF "1.prems" pop]
    have IH: "mset (prque_drain q') = mset q'" "sorted_wrt (\<lambda>a b. snd b \<le> snd a) (prque_drain q')"
      using "1.IH" [OF pop refl] q(1) by auto
    have "\<forall>b \<in> set (prque_drain q'). snd b \<le> p"
    proof
      fix b assume "b \<in> set (prque_drain q')"
      then have "b \<in># mset q'" using IH(1) by (metis set_mset_mset)
      then have "b \<in># mset q" using q(2) by simp
      then show "snd b \<le> p" using q(3) by (cases b) simp
    qed
    then show ?thesis using IH pop q(2) by (simp add: prque_drain.simps [of q])
  qed
qed


end
