(* ===== verification/Istanbul_Types.thy ===== *)
theory Istanbul_Types
  imports Validator_Set Prque
begin

text \<open>
  The data of the Istanbul consensus core: views, proposals and the protocol messages
  (\<^verbatim>\<open>src/consensus/istanbul/types.go\<close>, \<^verbatim>\<open>core/types.go\<close>, \<^verbatim>\<open>core/errors.go\<close>, \<^verbatim>\<open>core/events.go\<close>), and the
  \<^verbatim>\<open>Backend\<close> interface the core calls (\<^verbatim>\<open>src/consensus/istanbul/backend.go\<close>).

  A proposal is a block; the core only asks it for its number and its hash, and these are the fields
  of the model. The encodings of protocol messages (RLP) and the cryptographic operations are fields
  of \<open>Backend\<close>, parameters of every handler; an encoding or signing that fails is
  \<^term>\<open>None\<close>.
\<close>

subsection \<open>Views, subjects, requests\<close>

record View =
  Round :: int
  Sequence :: int

definition view_Cmp :: "View \<Rightarrow> View \<Rightarrow> int" where
  "view_Cmp v y =
     (if big_Cmp (Sequence v) (Sequence y) \<noteq> 0 then big_Cmp (Sequence v) (Sequence y)
      else if big_Cmp (Round v) (Round y) \<noteq> 0 then big_Cmp (Round v) (Round y)
      else 0)"

record Proposal =
  Number :: int
  Hash :: hash

record Preprepare =
  pp_View :: View
  pp_Proposal :: Proposal

record Subject =
  sub_View :: View
  sub_Digest :: hash

text \<open>A request holds a proposal, or a nil interface.\<close>

record Request =
  req_Proposal :: "Proposal option"

subsection \<open>Messages\<close>

record message =
  Code :: uint64
  Msg :: bytes
  Address :: address
  Signature :: bytes
  CommittedSeal :: bytes

definition msgPreprepare :: uint64 where "msgPreprepare = 0"
definition msgPrepare :: uint64 where "msgPrepare = 1"
definition msgCommit :: uint64 where "msgCommit = 2"
definition msgRoundChange :: uint64 where "msgRoundChange = 3"

lemmas msg_codes = msgPreprepare_def msgPrepare_def msgCommit_def msgRoundChange_def

subsection \<open>Errors, states, events\<close>

datatype err =
    errInconsistentSubject
  | errNotFromProposer
  | errIgnored
  | errFutureMessage
  | errOldMessage
  | errInvalidMessage
  | errFailedDecodePreprepare
  | errFailedDecodePrepare
  | errFailedDecodeCommit
  | errFailedDecodeMessageSet
  | ErrUnauthorizedAddress
  | ErrFutureBlock
  | ErrRLP
  | ErrSignature
  | ErrBackend nat

datatype State = StateAcceptRequest | StatePreprepared | StatePrepared | StateCommitted

fun state_num :: "State \<Rightarrow> nat" where
  "state_num StateAcceptRequest = 0"
| "state_num StatePreprepared = 1"
| "state_num StatePrepared = 2"
| "state_num StateCommitted = 3"

definition State_Cmp :: "State \<Rightarrow> State \<Rightarrow> int" where
  "State_Cmp s y = (if state_num s < state_num y then -1 else if state_num s > state_num y then 1 else 0)"

datatype event =
    RequestEvent "Proposal option"
  | MessageEvent bytes
  | BacklogEvent validator message
  | TimeoutEvent
  | FinalCommittedEvent

text \<open>What a handler does outside the core: the calls it makes on the backend and the events it posts.\<close>

datatype effect =
    Broadcast defaultSet bytes
  | Gossip defaultSet bytes
  | CommitBlock Proposal "bytes list"
  | Post event

subsection \<open>The backend\<close>

record Backend =
  keccak :: "string \<Rightarrow> bytes"
  backend_Address :: address
  Validators :: "Proposal \<Rightarrow> defaultSet"
  ParentValidators :: "Proposal \<Rightarrow> defaultSet"
  backend_Commit :: "Proposal \<Rightarrow> bytes list \<Rightarrow> err option"
  Verify :: "Proposal \<Rightarrow> int \<times> err option"
  Sign :: "bytes \<Rightarrow> bytes option"
  GetSignatureAddress :: "bytes \<Rightarrow> bytes \<Rightarrow> address option"
  LastProposal :: "Proposal option \<times> address"
  HasPropsal :: "hash \<Rightarrow> int \<Rightarrow> bool"
  backend_GetProposer :: "uint64 \<Rightarrow> address"
  HasBadProposal :: "hash \<Rightarrow> bool"
  encodePreprepare :: "Preprepare \<Rightarrow> bytes option"
  decodePreprepare :: "bytes \<Rightarrow> Preprepare option"
  encodeSubject :: "Subject option \<Rightarrow> bytes option"
  decodeSubject :: "bytes \<Rightarrow> Subject option"
  encodeMessage :: "message \<Rightarrow> bytes option"
  decodeMessage :: "bytes \<Rightarrow> message option"

definition PayloadNoSig :: "Backend \<Rightarrow> message \<Rightarrow> bytes option" where
  "PayloadNoSig be m = encodeMessage be (m\<lparr>Signature := []\<rparr>)"

definition CheckValidatorSignature ::
  "Backend \<Rightarrow> defaultSet option \<Rightarrow> bytes \<Rightarrow> bytes \<Rightarrow> (err + address) option" where
  "CheckValidatorSignature be vo data sig =
     (case GetSignatureAddress be data sig of
        None \<Rightarrow> Some (Inl ErrSignature)
      | Some signer \<Rightarrow>
          do {
            vs \<leftarrow> vo;
            Some (case snd (GetByAddress vs signer) of
                    Some val \<Rightarrow> Inr val
                  | None \<Rightarrow> Inl ErrUnauthorizedAddress)
          })"

text \<open>
  \<^verbatim>\<open>FromPayload\<close> with a validation function; its caller uses the decoded message only when there is no
  error. The address the validation function returns is dropped.
\<close>

definition FromPayload ::
  "Backend \<Rightarrow> (bytes \<Rightarrow> bytes \<Rightarrow> (err + address) option) \<Rightarrow> bytes \<Rightarrow> (err + message) option" where
  "FromPayload be validateFn b =
     (case decodeMessage be b of
        None \<Rightarrow> Some (Inl ErrRLP)
      | Some m \<Rightarrow>
          (case PayloadNoSig be m of
             None \<Rightarrow> Some (Inl ErrRLP)
           | Some payload \<Rightarrow>
               do {
                 r \<leftarrow> validateFn payload (Signature m);
                 Some (case r of Inl e \<Rightarrow> Inl e | Inr _ \<Rightarrow> Inr m)
               }))"

subsection \<open>The order of views\<close>

lemma view_Cmp_simps [simp]:
  "view_Cmp v y < 0 \<longleftrightarrow> Sequence v < Sequence y \<or> (Sequence v = Sequence y \<and> Round v < Round y)"
  "view_Cmp v y > 0 \<longleftrightarrow> Sequence v > Sequence y \<or> (Sequence v = Sequence y \<and> Round v > Round y)"
  "view_Cmp v y = 0 \<longleftrightarrow> v = y"
  by (auto simp: view_Cmp_def)

definition view_le :: "View \<Rightarrow> View \<Rightarrow> bool" where
  "view_le v w \<longleftrightarrow> Sequence v < Sequence w \<or> (Sequence v = Sequence w \<and> Round v \<le> Round w)"

lemma view_le_refl [simp, intro]: "view_le v v"
  by (simp add: view_le_def)

lemma view_le_trans [trans]: "view_le u v \<Longrightarrow> view_le v w \<Longrightarrow> view_le u w"
  by (auto simp: view_le_def)

lemma view_le_antisym: "view_le v w \<Longrightarrow> view_le w v \<Longrightarrow> v = w"
  by (auto simp: view_le_def)

lemma State_Cmp_less [simp]: "State_Cmp s y < 0 \<longleftrightarrow> state_num s < state_num y"
  by (simp add: State_Cmp_def)

lemma state_num_simps [simp]:
  "state_num s < 3 \<longleftrightarrow> s \<noteq> StateCommitted"
  "state_num s < 2 \<longleftrightarrow> s = StateAcceptRequest \<or> s = StatePreprepared"
  by (cases s; simp)+

lemma FromPayload_authentic:
  assumes "FromPayload be (CheckValidatorSignature be (Some vs)) b = Some (Inr m)"
  shows "decodeMessage be b = Some m \<and>
    (\<exists>payload signer. PayloadNoSig be m = Some payload \<and>
       GetSignatureAddress be payload (Signature m) = Some signer \<and> signer \<in> set (validators vs))"
  using assms
  by (auto simp: FromPayload_def CheckValidatorSignature_def split: option.splits if_splits)

lemma FromPayload_total: "\<exists>r. FromPayload be (CheckValidatorSignature be (Some vs)) b = Some r"
  by (simp add: FromPayload_def CheckValidatorSignature_def split: option.splits)

subsection \<open>Authenticity\<close>


end
