(* ===== verification/Quorum.thy ===== *)
theory Quorum
  imports Validator_Set
begin

text \<open>
  The quorum arithmetic behind the thresholds of the consensus core. The handlers accept a proposal
  on \<^verbatim>\<open>Size() > 2*F()\<close> messages of distinct validators, so a quorum is a set of more than
  \<open>2 * F\<close> validators. The locale states what the counting argument needs of a set of validators and
  its fault bound; it is interpreted on \<^typ>\<open>defaultSet\<close>, where it applies exactly when
  the number of validators is one more than a multiple of three.
\<close>

locale fault_bounded =
  fixes members :: "'s \<Rightarrow> 'a set"
    and bound :: "'s \<Rightarrow> nat"
    and tight :: "'s \<Rightarrow> bool"
  assumes finite_members: "finite (members s)"
    and members_le: "members s \<noteq> {} \<Longrightarrow> card (members s) \<le> 3 * bound s + 3"
    and members_gt: "members s \<noteq> {} \<Longrightarrow> 3 * bound s < card (members s)"
    and tight_iff: "members s \<noteq> {} \<Longrightarrow> tight s \<longleftrightarrow> card (members s) = 3 * bound s + 1"
begin

definition is_quorum :: "'s \<Rightarrow> 'a set \<Rightarrow> bool" where
  "is_quorum s Q \<longleftrightarrow> Q \<subseteq> members s \<and> 2 * bound s < card Q"

lemma is_quorum_finite: "is_quorum s Q \<Longrightarrow> finite Q"
  using finite_members finite_subset by (auto simp: is_quorum_def)

lemma quorum_exists: "members s \<noteq> {} \<Longrightarrow> is_quorum s (members s)"
  using members_gt [of s] by (simp add: is_quorum_def)

lemma quorums_share:
  assumes "members s \<noteq> {}" "tight s" "is_quorum s A" "is_quorum s B"
  shows "bound s < card (A \<inter> B)"
  using assms card_inter_ge [OF finite_members, of A s B] tight_iff [of s]
  by (simp add: is_quorum_def)

lemma quorums_share_honest:
  assumes "members s \<noteq> {}" "tight s" "is_quorum s A" "is_quorum s B"
    and "card (X \<inter> members s) \<le> bound s"
  shows "\<exists>v \<in> A \<inter> B. v \<notin> X"
proof (rule ccontr)
  assume "\<not> ?thesis"
  then have "A \<inter> B \<subseteq> X \<inter> members s"
    using assms(3) by (auto simp: is_quorum_def)
  then have "card (A \<inter> B) \<le> card (X \<inter> members s)"
    using finite_members by (intro card_mono) auto
  with quorums_share [OF assms(1-4)] assms(5) show False by simp
qed

lemma loose_quorums:
  assumes "members s \<noteq> {}" "\<not> tight s"
  shows "\<exists>A B. is_quorum s A \<and> is_quorum s B \<and> card (A \<inter> B) \<le> bound s"
proof -
  let ?n = "card (members s)" and ?f = "bound s"
  have n: "3 * ?f + 2 \<le> ?n"
    using members_gt [OF assms(1)] tight_iff [OF assms(1)] assms(2) by simp
  then have "2 * ?f + 1 \<le> ?n" by simp
  then obtain A where A: "A \<subseteq> members s" "card A = 2 * ?f + 1"
    by (meson obtain_subset_with_card_n)
  then have "card (members s - A) = ?n - (2 * ?f + 1)"
    using finite_members by (simp add: card_Diff_subset finite_subset)
  with n have "?f + 1 \<le> card (members s - A)" by simp
  then obtain C where C: "C \<subseteq> members s - A" "card C = ?f + 1"
    by (meson obtain_subset_with_card_n)
  obtain D where D: "D \<subseteq> A" "card D = ?f"
    using A(2) by (metis obtain_subset_with_card_n le_add1 mult_2 add.assoc)
  have fin: "finite C" "finite D"
    using C D A finite_members by (meson Diff_subset finite_subset)+
  have "C \<inter> D = {}" using C D by auto
  then have "card (C \<union> D) = 2 * ?f + 1"
    using C D fin by (simp add: card_Un_disjoint)
  moreover have "A \<inter> (C \<union> D) = D" using C D by auto
  ultimately show ?thesis
    using A C D by (intro exI [of _ A] exI [of _ "C \<union> D"]) (auto simp: is_quorum_def)
qed

end

text \<open>The validator set provides the bound; it is tight when \<open>n mod 3 = 1\<close>.\<close>

definition vs_tight :: "defaultSet \<Rightarrow> bool" where
  "vs_tight vs \<longleftrightarrow> card (set (validators vs)) mod 3 = 1"

definition members_F :: "defaultSet \<Rightarrow> nat" where
  "members_F vs = (card (set (validators vs)) - 1) div 3"

lemma members_F_eq: "distinct (validators vs) \<Longrightarrow> 0 < vs_Size vs \<Longrightarrow> int (members_F vs) = vs_F vs"
  by (cases "validators vs") (simp_all add: members_F_def vs_F_eq vs_Size_def distinct_card)

interpretation val: fault_bounded "\<lambda>vs. set (validators vs)" members_F vs_tight
proof
  fix s :: defaultSet
  let ?n = "card (set (validators s))"
  show "finite (set (validators s))" by simp
  assume "set (validators s) \<noteq> {}"
  then have n: "0 < ?n" by (simp add: card_gt_0_iff)
  then show "?n \<le> 3 * members_F s + 3" "3 * members_F s < ?n"
    by (simp_all add: members_F_def)
  show "vs_tight s \<longleftrightarrow> ?n = 3 * members_F s + 1"
    using n by (simp add: members_F_def vs_tight_def) presburger
qed

lemma quorum_iff:
  assumes "distinct (validators vs)" "validators vs \<noteq> []"
  shows "val.is_quorum vs A \<longleftrightarrow> A \<subseteq> set (validators vs) \<and> int (card A) > 2 * vs_F vs"
  using assms members_F_eq [of vs] by (auto simp: val.is_quorum_def vs_Size_def)

text \<open>
  C13: two quorums of more than \<open>2F\<close> validators always have more than \<open>F\<close> validators in common if, and
  only if, the number of validators is one more than a multiple of three. With any other number
  there are two quorums whose common members may all be faulty.
\<close>

theorem quorum_intersection:
  assumes "distinct (validators vs)" "validators vs \<noteq> []"
  shows "(\<forall>A B. A \<subseteq> set (validators vs) \<and> int (card A) > 2 * vs_F vs \<and>
              B \<subseteq> set (validators vs) \<and> int (card B) > 2 * vs_F vs \<longrightarrow> int (card (A \<inter> B)) > vs_F vs)
     \<longleftrightarrow> vs_Size vs mod 3 = 1"
proof -
  have F: "int (members_F vs) = vs_F vs" and ne: "set (validators vs) \<noteq> {}"
    using assms members_F_eq [of vs] by (simp_all add: vs_Size_def)
  have tight: "vs_tight vs \<longleftrightarrow> vs_Size vs mod 3 = 1"
    using distinct_card [OF assms(1)] by (simp add: vs_tight_def vs_Size_def)
  show ?thesis
  proof
    assume L: "\<forall>A B. A \<subseteq> set (validators vs) \<and> int (card A) > 2 * vs_F vs \<and>
      B \<subseteq> set (validators vs) \<and> int (card B) > 2 * vs_F vs \<longrightarrow> int (card (A \<inter> B)) > vs_F vs"
    show "vs_Size vs mod 3 = 1"
    proof (rule ccontr)
      assume "vs_Size vs mod 3 \<noteq> 1"
      then obtain A B where "val.is_quorum vs A" "val.is_quorum vs B" "card (A \<inter> B) \<le> members_F vs"
        using val.loose_quorums [OF ne] tight by blast
      then show False
        using L F unfolding quorum_iff [OF assms] by (metis leD of_nat_less_iff)
    qed
  next
    assume "vs_Size vs mod 3 = 1"
    then have "vs_tight vs" using tight by simp
    then have "members_F vs < card (A \<inter> B)" if "val.is_quorum vs A" "val.is_quorum vs B" for A B
      using val.quorums_share [OF ne] that by blast
    then show "\<forall>A B. A \<subseteq> set (validators vs) \<and> int (card A) > 2 * vs_F vs \<and>
      B \<subseteq> set (validators vs) \<and> int (card B) > 2 * vs_F vs \<longrightarrow> int (card (A \<inter> B)) > vs_F vs"
      unfolding quorum_iff [OF assms] F [symmetric] of_nat_less_iff by blast
  qed
qed

theorem quorum_intersection_witness:
  "\<not> (\<forall>A B. A \<subseteq> {1, 2, 3, 4, 5, 6} \<and> int (card A) > 2 \<and> B \<subseteq> {1, 2, 3, 4, 5, 6} \<and> int (card B) > 2
        \<longrightarrow> int (card (A \<inter> B :: address set)) > 1)"
  using quorum_intersection [of "\<lparr>validators = [1, 2, 3, 4, 5, 6], policy = RoundRobin, proposer = None\<rparr>"]
  by (simp add: vs_Size_def vs_F_eq)

end
