(* ===== verification/Round_State.thy ===== *)
theory Round_State
  imports Istanbul_Types Quorum
begin

text \<open>
  The containers of one consensus round: \<^verbatim>\<open>messageSet\<close> (\<^verbatim>\<open>core/message_set.go\<close>), \<^verbatim>\<open>roundState\<close>
  (\<^verbatim>\<open>core/roundstate.go\<close>) and \<^verbatim>\<open>roundChangeSet\<close> (\<^verbatim>\<open>core/roundchange.go\<close>). The validator set a container
  points to is kept by value: the core replaces its set instead of changing the members of one, and
  the containers only ask for membership. The mutexes are not modelled; every operation here is the
  critical section it protects.
\<close>

subsection \<open>Message sets\<close>

record messageSet =
  ms_valSet :: defaultSet
  messages :: "(address \<times> message) list"

definition newMessageSet :: "defaultSet \<Rightarrow> messageSet" where
  "newMessageSet vs = \<lparr>ms_valSet = vs, messages = []\<rparr>"

definition ms_verify :: "messageSet \<Rightarrow> message \<Rightarrow> err option" where
  "ms_verify ms msg =
     (if snd (GetByAddress (ms_valSet ms) (Address msg)) = None then Some ErrUnauthorizedAddress
      else None)"

definition addVerifiedMessage :: "messageSet \<Rightarrow> message \<Rightarrow> messageSet" where
  "addVerifiedMessage ms msg = ms\<lparr>messages := AList.update (Address msg) msg (messages ms)\<rparr>"

definition ms_Add :: "messageSet \<Rightarrow> message \<Rightarrow> messageSet \<times> err option" where
  "ms_Add ms msg =
     (case ms_verify ms msg of
        Some e \<Rightarrow> (ms, Some e)
      | None \<Rightarrow> (addVerifiedMessage ms msg, None))"

definition ms_Values :: "messageSet \<Rightarrow> message list" where
  "ms_Values ms = map snd (messages ms)"

definition ms_Size :: "messageSet \<Rightarrow> nat" where
  "ms_Size ms = length (messages ms)"

definition ms_Get :: "messageSet \<Rightarrow> address \<Rightarrow> message option" where
  "ms_Get ms addr = map_of (messages ms) addr"

subsection \<open>Round states\<close>

record roundState =
  rs_round :: int
  rs_sequence :: int
  rs_Preprepare :: "Preprepare option"
  Prepares :: messageSet
  Commits :: messageSet
  lockedHash :: hash
  pendingRequest :: "Request option"

definition newRoundState ::
  "View \<Rightarrow> defaultSet \<Rightarrow> hash \<Rightarrow> Preprepare option \<Rightarrow> Request option \<Rightarrow> roundState" where
  "newRoundState view vs locked pp req =
     \<lparr>rs_round = Round view, rs_sequence = Sequence view, rs_Preprepare = pp,
      Prepares = newMessageSet vs, Commits = newMessageSet vs, lockedHash = locked,
      pendingRequest = req\<rparr>"

text \<open>The loop over \<^verbatim>\<open>Prepares.Values()\<close> that subtracts the senders counted twice.\<close>

fun minus_duplicates :: "messageSet \<Rightarrow> message list \<Rightarrow> int \<Rightarrow> int" where
  "minus_duplicates cs [] result = result"
| "minus_duplicates cs (m # ms) result =
     minus_duplicates cs ms (if ms_Get cs (Address m) \<noteq> None then result - 1 else result)"

definition GetPrepareOrCommitSize :: "roundState \<Rightarrow> int" where
  "GetPrepareOrCommitSize s =
     minus_duplicates (Commits s) (ms_Values (Prepares s))
       (int (ms_Size (Prepares s)) + int (ms_Size (Commits s)))"

definition rs_Subject :: "roundState \<Rightarrow> Subject option" where
  "rs_Subject s =
     (case rs_Preprepare s of
        None \<Rightarrow> None
      | Some pp \<Rightarrow>
          Some \<lparr>sub_View = \<lparr>Round = rs_round s, Sequence = rs_sequence s\<rparr>,
                sub_Digest = Hash (pp_Proposal pp)\<rparr>)"

definition SetPreprepare :: "roundState \<Rightarrow> Preprepare option \<Rightarrow> roundState" where
  "SetPreprepare s pp = s\<lparr>rs_Preprepare := pp\<rparr>"

definition rs_Proposal :: "roundState \<Rightarrow> Proposal option" where
  "rs_Proposal s = map_option pp_Proposal (rs_Preprepare s)"

definition LockHash :: "roundState \<Rightarrow> roundState" where
  "LockHash s =
     (case rs_Preprepare s of
        None \<Rightarrow> s
      | Some pp \<Rightarrow> s\<lparr>lockedHash := Hash (pp_Proposal pp)\<rparr>)"

definition UnlockHash :: "roundState \<Rightarrow> roundState" where
  "UnlockHash s = s\<lparr>lockedHash := 0\<rparr>"

definition IsHashLocked :: "Backend \<Rightarrow> roundState \<Rightarrow> bool" where
  "IsHashLocked be s =
     (if EmptyHash (lockedHash s) then False else \<not> HasBadProposal be (lockedHash s))"

definition GetLockedHash :: "roundState \<Rightarrow> hash" where
  "GetLockedHash s = lockedHash s"

subsection \<open>Round change sets\<close>

record roundChangeSet =
  rcs_validatorSet :: defaultSet
  roundChanges :: "(uint64 \<times> messageSet) list"

definition newRoundChangeSet :: "defaultSet \<Rightarrow> roundChangeSet" where
  "newRoundChangeSet vs = \<lparr>rcs_validatorSet = vs, roundChanges = []\<rparr>"

text \<open>
  \<^verbatim>\<open>Add\<close> creates the message set of a round before it checks the sender, so the set stays behind,
  empty, when the sender is rejected.
\<close>

definition rcs_at :: "roundChangeSet \<Rightarrow> uint64 \<Rightarrow> messageSet" where
  "rcs_at rcs rnd =
     (case map_of (roundChanges rcs) rnd of
        None \<Rightarrow> newMessageSet (rcs_validatorSet rcs) | Some ms \<Rightarrow> ms)"

definition rcs_Add :: "roundChangeSet \<Rightarrow> int \<Rightarrow> message \<Rightarrow> roundChangeSet \<times> (err + nat)" where
  "rcs_Add rcs r msg =
     (let rnd = Uint64 r;
          (ms', e) = ms_Add (rcs_at rcs rnd) msg;
          rcs' = rcs\<lparr>roundChanges := AList.update rnd ms' (roundChanges rcs)\<rparr>
      in (rcs', case e of Some er \<Rightarrow> Inl er | None \<Rightarrow> Inr (ms_Size ms')))"

definition rcs_Clear :: "roundChangeSet \<Rightarrow> int \<Rightarrow> roundChangeSet" where
  "rcs_Clear rcs r =
     rcs\<lparr>roundChanges :=
       filter (\<lambda>(k, rms). \<not> (length (ms_Values rms) = 0 \<or> k < Uint64 r)) (roundChanges rcs)\<rparr>"

fun max_round_loop :: "int \<Rightarrow> (uint64 \<times> messageSet) list \<Rightarrow> int option \<Rightarrow> int option" where
  "max_round_loop num [] maxRound = maxRound"
| "max_round_loop num ((k, rms) # rest) maxRound =
     (if int (ms_Size rms) < num then max_round_loop num rest maxRound
      else let r = sint k
           in max_round_loop num rest
                (case maxRound of
                   None \<Rightarrow> Some r
                 | Some m \<Rightarrow> if big_Cmp m r < 0 then Some r else maxRound))"

definition MaxRound :: "roundChangeSet \<Rightarrow> int \<Rightarrow> int option" where
  "MaxRound rcs num = max_round_loop num (roundChanges rcs) None"

subsection \<open>Votes: one per validator\<close>

text \<open>
  What the handlers rely on when they compare the size of a container with a quorum: it counts
  distinct validators, so neither a repeated message nor a message of an outsider raises it.
\<close>

locale vote_log =
  fixes voted :: "'s \<Rightarrow> 'a set"
    and voters :: "'s \<Rightarrow> 'a set"
    and cast :: "'s \<Rightarrow> 'm \<Rightarrow> 's \<times> 'e option"
    and who :: "'m \<Rightarrow> 'a"
    and count :: "'s \<Rightarrow> nat"
    and ok :: "'s \<Rightarrow> bool"
  assumes voted_voters: "ok s \<Longrightarrow> voted s \<subseteq> voters s"
    and finite_voters: "finite (voters s)"
    and count_voted: "ok s \<Longrightarrow> count s = card (voted s)"
    and ok_cast: "ok s \<Longrightarrow> ok (fst (cast s m))"
    and voters_cast: "voters (fst (cast s m)) = voters s"
    and cast_voter: "ok s \<Longrightarrow> who m \<in> voters s \<Longrightarrow>
          snd (cast s m) = None \<and> voted (fst (cast s m)) = insert (who m) (voted s)"
    and cast_outsider: "who m \<notin> voters s \<Longrightarrow> snd (cast s m) \<noteq> None \<and> voted (fst (cast s m)) = voted s"
begin

lemma count_le: "ok s \<Longrightarrow> count s \<le> card (voters s)"
  using voted_voters finite_voters by (simp add: count_voted card_mono)

lemma cast_accepted_iff: "ok s \<Longrightarrow> snd (cast s m) = None \<longleftrightarrow> who m \<in> voters s"
  using cast_voter cast_outsider by blast

lemma count_step:
  assumes "ok s"
  shows "count (fst (cast s m)) =
           (if who m \<in> voters s \<and> who m \<notin> voted s then Suc (count s) else count s)"
proof -
  have fin: "finite (voted s)" using voted_voters [OF assms] finite_voters finite_subset by blast
  show ?thesis
  proof (cases "who m \<in> voters s")
    case True
    then show ?thesis
      using assms fin ok_cast [OF assms, of m] cast_voter [OF assms True]
      by (auto simp: count_voted insert_absorb)
  next
    case False
    then show ?thesis
      using assms ok_cast [OF assms, of m] cast_outsider [OF False] by (simp add: count_voted)
  qed
qed

lemma cast_all:
  assumes "ok s"
  shows "ok (fold (\<lambda>m s. fst (cast s m)) ms s) \<and>
    voters (fold (\<lambda>m s. fst (cast s m)) ms s) = voters s \<and>
    voted (fold (\<lambda>m s. fst (cast s m)) ms s) = voted s \<union> (who ` set ms \<inter> voters s)"
  using assms
proof (induction ms arbitrary: s)
  case Nil
  then show ?case by simp
next
  case (Cons m ms)
  have "voted (fst (cast s m)) = voted s \<union> ({who m} \<inter> voters s)"
    using cast_voter [OF Cons.prems] cast_outsider by (cases "who m \<in> voters s") auto
  with Cons.IH [OF ok_cast [OF Cons.prems], of m] show ?case
    by (auto simp: voters_cast)
qed

lemma count_cast_all:
  assumes "ok s"
  shows "count (fold (\<lambda>m s. fst (cast s m)) ms s) = card (voted s \<union> (who ` set ms \<inter> voters s))"
  using cast_all [OF assms, of ms] by (simp add: count_voted)

end

definition ms_wf :: "messageSet \<Rightarrow> bool" where
  "ms_wf ms \<longleftrightarrow> amap (messages ms) \<and>
     (\<forall>p \<in> set (messages ms). Address (snd p) = fst p \<and> fst p \<in> set (validators (ms_valSet ms)))"

definition ms_senders :: "messageSet \<Rightarrow> address set" where
  "ms_senders ms = set (keys (messages ms))"

lemma ms_wfD:
  "ms_wf ms \<Longrightarrow> p \<in> set (messages ms) \<Longrightarrow>
     Address (snd p) = fst p \<and> fst p \<in> set (validators (ms_valSet ms))"
  unfolding ms_wf_def by blast

lemma ms_wf_new [simp]: "ms_wf (newMessageSet vs)"
  by (simp add: ms_wf_def newMessageSet_def)

lemma ms_valSet_new [simp]: "ms_valSet (newMessageSet vs) = vs"
  by (simp add: newMessageSet_def)

lemma ms_senders_new [simp]: "ms_senders (newMessageSet vs) = {}"
  by (simp add: ms_senders_def newMessageSet_def)

lemma ms_Add_cases:
  "ms_Add ms msg =
     (if Address msg \<in> set (validators (ms_valSet ms)) then (addVerifiedMessage ms msg, None)
      else (ms, Some ErrUnauthorizedAddress))"
  by (simp add: ms_Add_def ms_verify_def)

lemma ms_valSet_Add [simp]: "ms_valSet (fst (ms_Add ms msg)) = ms_valSet ms"
  by (simp add: ms_Add_cases addVerifiedMessage_def)

lemma ms_wf_Add: "ms_wf ms \<Longrightarrow> ms_wf (fst (ms_Add ms msg))"
proof (cases "Address msg \<in> set (validators (ms_valSet ms))")
  case True
  assume wf: "ms_wf ms"
  have "\<forall>p \<in> set (AList.update (Address msg) msg (messages ms)).
          Address (snd p) = fst p \<and> fst p \<in> set (validators (ms_valSet ms))"
  proof (rule ball_update)
    show "Address (snd (Address msg, msg)) = fst (Address msg, msg) \<and>
        fst (Address msg, msg) \<in> set (validators (ms_valSet ms))"
      using True by simp
  qed (use wf ms_wfD in blast)
  moreover have "amap (AList.update (Address msg) msg (messages ms))"
    using wf by (simp add: ms_wf_def)
  ultimately show ?thesis using True by (simp add: ms_Add_cases ms_wf_def addVerifiedMessage_def)
qed (simp add: ms_Add_cases)

lemma ms_senders_Add:
  "ms_senders (fst (ms_Add ms msg)) =
     (if Address msg \<in> set (validators (ms_valSet ms)) then insert (Address msg) (ms_senders ms)
      else ms_senders ms)"
  by (simp add: ms_Add_cases ms_senders_def addVerifiedMessage_def del: set_map)

lemma ms_Size_senders: "ms_wf ms \<Longrightarrow> ms_Size ms = card (ms_senders ms)"
  unfolding ms_wf_def ms_Size_def ms_senders_def by (metis distinct_card length_map)

lemma ms_Values_Add:
  "m \<in> set (ms_Values (fst (ms_Add ms msg))) \<Longrightarrow> m = msg \<or> m \<in> set (ms_Values ms)"
proof -
  assume "m \<in> set (ms_Values (fst (ms_Add ms msg)))"
  then show ?thesis
    using set_update_subset [of "Address msg" msg "messages ms"]
    by (fastforce simp: ms_Add_cases ms_Values_def addVerifiedMessage_def split: if_splits)
qed

lemma ms_senders_Values: "ms_wf ms \<Longrightarrow> ms_senders ms = Address ` set (ms_Values ms)"
proof -
  assume "ms_wf ms"
  then have "fst ` set (messages ms) = (\<lambda>p. Address (snd p)) ` set (messages ms)"
    by (intro image_cong refl) (simp add: ms_wfD)
  then show ?thesis by (simp add: ms_senders_def ms_Values_def image_image)
qed

interpretation msv: vote_log ms_senders "\<lambda>ms. set (validators (ms_valSet ms))" ms_Add Address
  ms_Size ms_wf
proof
  fix ms :: messageSet and msg :: message
  show "finite (set (validators (ms_valSet ms)))" by simp
  show "set (validators (ms_valSet (fst (ms_Add ms msg)))) = set (validators (ms_valSet ms))"
    by simp
  show "Address msg \<notin> set (validators (ms_valSet ms)) \<Longrightarrow>
      snd (ms_Add ms msg) \<noteq> None \<and> ms_senders (fst (ms_Add ms msg)) = ms_senders ms"
    by (simp add: ms_Add_cases)
  assume wf: "ms_wf ms"
  then show "ms_senders ms \<subseteq> set (validators (ms_valSet ms))"
    by (auto simp: ms_wf_def ms_senders_def)
  show "ms_Size ms = card (ms_senders ms)" using wf by (rule ms_Size_senders)
  show "ms_wf (fst (ms_Add ms msg))" using wf by (rule ms_wf_Add)
  show "Address msg \<in> set (validators (ms_valSet ms)) \<Longrightarrow>
      snd (ms_Add ms msg) = None \<and>
      ms_senders (fst (ms_Add ms msg)) = insert (Address msg) (ms_senders ms)"
    by (simp add: ms_senders_Add) (simp add: ms_Add_cases)
qed

subsection \<open>Counting prepares and commits together\<close>

lemma minus_duplicates_eq:
  "minus_duplicates cs ms r = r - int (length (filter (\<lambda>m. ms_Get cs (Address m) \<noteq> None) ms))"
  by (induction ms arbitrary: r) auto

lemma ms_Get_senders: "(\<exists>m. ms_Get ms a = Some m) \<longleftrightarrow> a \<in> ms_senders ms"
  using map_of_eq_None_iff [of "messages ms" a] by (auto simp: ms_Get_def ms_senders_def)

lemma filter_Values_senders:
  assumes "ms_wf ms"
  shows "length (filter (\<lambda>m. Address m \<in> S) (ms_Values ms)) = card (ms_senders ms \<inter> S)"
proof -
  have "length (filter (\<lambda>m. Address m \<in> S) (ms_Values ms)) =
        length (filter (\<lambda>p. fst p \<in> S) (messages ms))"
  proof -
    have "filter (\<lambda>p. Address (snd p) \<in> S) (messages ms) = filter (\<lambda>p. fst p \<in> S) (messages ms)"
      using assms by (intro filter_cong refl) (simp add: ms_wfD)
    then show ?thesis by (simp add: ms_Values_def filter_map o_def)
  qed
  also have "\<dots> = card (ms_senders ms \<inter> S)"
    using assms length_filter_map_of [of "messages ms" S]
    unfolding ms_wf_def ms_senders_def by blast
  finally show ?thesis .
qed

lemma GetPrepareOrCommitSize_card:
  assumes "ms_wf (Prepares s)" "ms_wf (Commits s)"
  shows "GetPrepareOrCommitSize s = int (card (ms_senders (Prepares s) \<union> ms_senders (Commits s)))"
proof -
  let ?P = "ms_senders (Prepares s)" and ?C = "ms_senders (Commits s)"
  have fin: "finite ?P" "finite ?C" by (simp_all add: ms_senders_def)
  have "GetPrepareOrCommitSize s = int (card ?P) + int (card ?C) - int (card (?P \<inter> ?C))"
    using assms filter_Values_senders [OF assms(1), of ?C]
    by (simp add: GetPrepareOrCommitSize_def minus_duplicates_eq ms_Get_senders ms_Size_senders)
  also have "\<dots> = int (card (?P \<union> ?C))"
    using card_Un_Int [OF fin] by simp
  finally show ?thesis .
qed

subsection \<open>Round states and round change sets\<close>

definition rs_wf :: "roundState \<Rightarrow> bool" where
  "rs_wf s \<longleftrightarrow> ms_wf (Prepares s) \<and> ms_wf (Commits s)"

lemma newRoundState_simps [simp]:
  "rs_round (newRoundState v vs h pp r) = Round v"
  "rs_sequence (newRoundState v vs h pp r) = Sequence v"
  "rs_Preprepare (newRoundState v vs h pp r) = pp"
  "Prepares (newRoundState v vs h pp r) = newMessageSet vs"
  "Commits (newRoundState v vs h pp r) = newMessageSet vs"
  "lockedHash (newRoundState v vs h pp r) = h"
  "pendingRequest (newRoundState v vs h pp r) = r"
  by (simp_all add: newRoundState_def)

lemma LockHash_simps [simp]:
  "rs_round (LockHash s) = rs_round s" "rs_sequence (LockHash s) = rs_sequence s"
  "rs_Preprepare (LockHash s) = rs_Preprepare s" "Prepares (LockHash s) = Prepares s"
  "Commits (LockHash s) = Commits s" "pendingRequest (LockHash s) = pendingRequest s"
  by (simp_all add: LockHash_def split: option.splits)

lemma UnlockHash_simps [simp]:
  "rs_round (UnlockHash s) = rs_round s" "rs_sequence (UnlockHash s) = rs_sequence s"
  "rs_Preprepare (UnlockHash s) = rs_Preprepare s" "Prepares (UnlockHash s) = Prepares s"
  "Commits (UnlockHash s) = Commits s" "pendingRequest (UnlockHash s) = pendingRequest s"
  by (simp_all add: UnlockHash_def)

lemma rs_Subject_LockHash [simp]: "rs_Subject (LockHash s) = rs_Subject s"
  by (simp add: rs_Subject_def split: option.splits)

lemma rs_Subject_Some:
  "rs_Subject s = Some sub \<Longrightarrow>
     \<exists>pp. rs_Preprepare s = Some pp \<and> sub_Digest sub = Hash (pp_Proposal pp) \<and>
       Round (sub_View sub) = rs_round s \<and> Sequence (sub_View sub) = rs_sequence s"
  by (auto simp: rs_Subject_def split: option.splits)

definition rcs_wf :: "roundChangeSet \<Rightarrow> bool" where
  "rcs_wf rcs \<longleftrightarrow> amap (roundChanges rcs) \<and>
     (\<forall>p \<in> set (roundChanges rcs). ms_wf (snd p) \<and> ms_valSet (snd p) = rcs_validatorSet rcs)"

definition rcs_senders :: "roundChangeSet \<Rightarrow> uint64 \<Rightarrow> address set" where
  "rcs_senders rcs k = (case map_of (roundChanges rcs) k of None \<Rightarrow> {} | Some ms \<Rightarrow> ms_senders ms)"

lemma rcs_wf_new [simp]: "rcs_wf (newRoundChangeSet vs)"
  by (simp add: rcs_wf_def newRoundChangeSet_def)

lemma rcs_senders_new [simp]: "rcs_senders (newRoundChangeSet vs) k = {}"
  by (simp add: rcs_senders_def newRoundChangeSet_def)

lemma rcs_at_wf:
  assumes "rcs_wf rcs"
  shows "ms_wf (rcs_at rcs k)" "ms_valSet (rcs_at rcs k) = rcs_validatorSet rcs"
    "ms_senders (rcs_at rcs k) = rcs_senders rcs k"
proof -
  have "ms_wf (rcs_at rcs k) \<and> ms_valSet (rcs_at rcs k) = rcs_validatorSet rcs"
  proof (cases "map_of (roundChanges rcs) k")
    case None
    then show ?thesis by (simp add: rcs_at_def)
  next
    case (Some ms)
    then have "(k, ms) \<in> set (roundChanges rcs)" by (rule map_of_SomeD)
    with assms have "ms_wf ms \<and> ms_valSet ms = rcs_validatorSet rcs"
      unfolding rcs_wf_def by fastforce
    with Some show ?thesis by (simp add: rcs_at_def)
  qed
  then show "ms_wf (rcs_at rcs k)" "ms_valSet (rcs_at rcs k) = rcs_validatorSet rcs" by simp_all
  show "ms_senders (rcs_at rcs k) = rcs_senders rcs k"
    by (simp add: rcs_senders_def rcs_at_def split: option.splits)
qed

lemma rcs_Add_wf:
  assumes "rcs_wf rcs"
  shows "rcs_wf (fst (rcs_Add rcs r msg))"
    and "rcs_validatorSet (fst (rcs_Add rcs r msg)) = rcs_validatorSet rcs"
proof -
  let ?ms = "fst (ms_Add (rcs_at rcs (Uint64 r)) msg)"
  have "ms_wf ?ms" "ms_valSet ?ms = rcs_validatorSet rcs"
    using rcs_at_wf [OF assms] ms_wf_Add by simp_all
  then have "\<forall>p \<in> set (AList.update (Uint64 r) ?ms (roundChanges rcs)).
      ms_wf (snd p) \<and> ms_valSet (snd p) = rcs_validatorSet rcs"
    by (intro ball_update) (use assms in \<open>simp_all add: rcs_wf_def\<close>)
  moreover have "amap (AList.update (Uint64 r) ?ms (roundChanges rcs))"
    using assms by (simp add: rcs_wf_def)
  ultimately show "rcs_wf (fst (rcs_Add rcs r msg))"
    by (simp add: rcs_Add_def rcs_wf_def Let_def case_prod_unfold)
  show "rcs_validatorSet (fst (rcs_Add rcs r msg)) = rcs_validatorSet rcs"
    by (simp add: rcs_Add_def Let_def split: prod.splits)
qed

text \<open>
  The count \<^verbatim>\<open>Add\<close> returns: the distinct validators that sent a round change whose round agrees with
  this one in its low 64 bits.
\<close>

lemma rcs_Add_count:
  assumes "rcs_wf rcs"
  shows "snd (rcs_Add rcs r msg) =
    (if Address msg \<in> set (validators (rcs_validatorSet rcs))
     then Inr (card (insert (Address msg) (rcs_senders rcs (Uint64 r))))
     else Inl ErrUnauthorizedAddress)"
proof -
  let ?ms = "rcs_at rcs (Uint64 r)"
  note ms = rcs_at_wf [OF assms, of "Uint64 r"]
  have "ms_Size (fst (ms_Add ?ms msg)) = card (ms_senders (fst (ms_Add ?ms msg)))"
    using ms_wf_Add [OF ms(1)] by (rule ms_Size_senders)
  then show ?thesis
    using ms(2,3) ms_senders_Add [of ?ms msg]
    by (auto simp: rcs_Add_def Let_def ms_Add_cases split: prod.splits)
qed

lemma rcs_senders_Add:
  assumes "rcs_wf rcs"
  shows "rcs_senders (fst (rcs_Add rcs r msg)) k =
    (if k = Uint64 r \<and> Address msg \<in> set (validators (rcs_validatorSet rcs))
     then insert (Address msg) (rcs_senders rcs k) else rcs_senders rcs k)"
  using rcs_at_wf [OF assms, of k] ms_senders_Add [of "rcs_at rcs k" msg]
  by (auto simp: rcs_Add_def Let_def rcs_senders_def split: prod.splits if_splits)

lemma rcs_wf_Clear: "rcs_wf rcs \<Longrightarrow> rcs_wf (rcs_Clear rcs r)"
  by (simp add: rcs_wf_def rcs_Clear_def amap_filter)

lemma rcs_validatorSet_Clear [simp]: "rcs_validatorSet (rcs_Clear rcs r) = rcs_validatorSet rcs"
  by (simp add: rcs_Clear_def)

subsection \<open>The greatest round with enough messages\<close>

definition round_candidates :: "roundChangeSet \<Rightarrow> int \<Rightarrow> int set" where
  "round_candidates rcs num = {sint k | k rms. (k, rms) \<in> set (roundChanges rcs) \<and> num \<le> int (ms_Size rms)}"

lemma Max_absorb:
  fixes x :: int
  assumes "finite S"
  shows "Max (S \<union> set_option (case acc of None \<Rightarrow> Some x
           | Some m \<Rightarrow> if big_Cmp m x < 0 then Some x else acc)) = Max (insert x S \<union> set_option acc)"
  using assms by (cases acc; cases "S = {}") auto

lemma max_round_loop_eq:
  "max_round_loop num rcs acc =
     (let S = {sint k | k rms. (k, rms) \<in> set rcs \<and> num \<le> int (ms_Size rms)} \<union> set_option acc
      in if S = {} then None else Some (Max S))"
proof (induction num rcs acc rule: max_round_loop.induct)
  case (1 num acc)
  then show ?case by (cases acc) simp_all
next
  case (2 num k rms rest acc)
  let ?S = "\<lambda>l. {sint k | k rms. (k, rms) \<in> set l \<and> num \<le> int (ms_Size rms)}"
  have fin: "finite (?S rest)"
    by (rule finite_subset [of _ "(\<lambda>p. sint (fst p)) ` set rest"]) force+
  have split: "?S ((k, rms) # rest) = (if num \<le> int (ms_Size rms) then insert (sint k) (?S rest) else ?S rest)"
    by auto
  show ?case
  proof (cases "int (ms_Size rms) < num")
    case True
    then show ?thesis using 2(1) split by simp
  next
    case False
    define acc' where "acc' = (case acc of None \<Rightarrow> Some (sint k)
      | Some m \<Rightarrow> if big_Cmp m (sint k) < 0 then Some (sint k) else acc)"
    have IH: "max_round_loop num rest acc' = Some (Max (?S rest \<union> set_option acc'))"
      using 2(2) [OF False refl] by (auto simp: acc'_def Let_def split: option.splits)
    have "Max (?S rest \<union> set_option acc') = Max (insert (sint k) (?S rest) \<union> set_option acc)"
      unfolding acc'_def by (rule Max_absorb [OF fin])
    with IH False split show ?thesis
      by (simp add: acc'_def Let_def)
  qed
qed

lemma MaxRound_eq:
  "MaxRound rcs num =
     (if round_candidates rcs num = {} then None else Some (Max (round_candidates rcs num)))"
  by (simp add: MaxRound_def max_round_loop_eq round_candidates_def Let_def)

subsection \<open>What the counters count\<close>

text \<open>The message set of a round after the messages \<open>ms\<close> arrived, in this order.\<close>

definition ms_log :: "defaultSet \<Rightarrow> message list \<Rightarrow> messageSet" where
  "ms_log vs ms = fold (\<lambda>m s. fst (ms_Add s m)) ms (newMessageSet vs)"

lemma ms_log_spec:
  "ms_wf (ms_log vs ms)" "ms_senders (ms_log vs ms) = Address ` set ms \<inter> set (validators vs)"
  using msv.cast_all [OF ms_wf_new, of ms vs] by (simp_all add: ms_log_def)

text \<open>
  C29: the size of a message set, which the handlers compare with a quorum, is the number of distinct
  validators among the senders: neither a repeated message nor the message of an outsider raises it.
\<close>

theorem votes_count_validators:
  "ms_Size (ms_log vs ms) = card (Address ` set ms \<inter> set (validators vs))"
  using ms_Size_senders [OF ms_log_spec(1)] by (simp add: ms_log_spec(2))

text \<open>
  C30: \<^verbatim>\<open>GetPrepareOrCommitSize\<close> counts every validator that sent a PREPARE or a COMMIT once, also when it
  sent both.
\<close>

theorem prepare_or_commit_counts_once:
  "GetPrepareOrCommitSize (s\<lparr>Prepares := ms_log vs ps, Commits := ms_log vs cs\<rparr>) =
     int (card (Address ` set (ps @ cs) \<inter> set (validators vs)))"
proof -
  have "GetPrepareOrCommitSize (s\<lparr>Prepares := ms_log vs ps, Commits := ms_log vs cs\<rparr>) =
      int (card (ms_senders (ms_log vs ps) \<union> ms_senders (ms_log vs cs)))"
    using GetPrepareOrCommitSize_card [of "s\<lparr>Prepares := ms_log vs ps, Commits := ms_log vs cs\<rparr>"]
    by (simp add: ms_log_spec(1))
  then show ?thesis by (simp add: ms_log_spec(2) Int_Un_distrib2 image_Un)
qed


end
