(* ===== verification/Backlog.thy ===== *)
theory Backlog
  imports Round_State
begin

text \<open>
  The state of the consensus core (\<^verbatim>\<open>core/core.go\<close>, type \<^verbatim>\<open>core\<close>) and the parts of it that postpone work:
  the classification of a message against the current view and the backlog of future messages
  (\<^verbatim>\<open>core/backlog.go\<close>), and the queue of future requests (\<^verbatim>\<open>core/request.go\<close>).

  The field \<open>effects\<close> collects, in order, the calls on the backend and the events posted; it stands
  for the outside world. Events posted from a goroutine (\<^verbatim>\<open>go c.sendEvent\<close>) reach the event loop in any
  order, and nothing below relies on the order in which they are collected. Loggers and meters are
  left out. An armed timer is the field's \<^term>\<open>Some\<close> value.
\<close>

record core =
  RequestTimeout :: uint64
  c_address :: address
  state :: State
  valSet :: "defaultSet option"
  waitingForRoundChange :: bool
  backlogs :: "(address \<times> message prque) list"
  current :: "roundState option"
  c_roundChangeSet :: "roundChangeSet option"
  roundChangeTimer :: "int option"
  futurePreprepareTimer :: "(int \<times> validator \<times> message) option"
  pendingRequests :: "Request prque"
  effects :: "effect list"

definition core_New :: "Backend \<Rightarrow> uint64 \<Rightarrow> core" where
  "core_New be timeout =
     \<lparr>RequestTimeout = timeout, c_address = backend_Address be, state = StateAcceptRequest,
      valSet = None, waitingForRoundChange = False, backlogs = [], current = None,
      c_roundChangeSet = None, roundChangeTimer = None, futurePreprepareTimer = None,
      pendingRequests = prque_New, effects = []\<rparr>"

definition emit :: "effect \<Rightarrow> core \<Rightarrow> core" where
  "emit e c = c\<lparr>effects := effects c @ [e]\<rparr>"

definition emits :: "effect list \<Rightarrow> core \<Rightarrow> core" where
  "emits es c = c\<lparr>effects := effects c @ es\<rparr>"

definition currentView :: "core \<Rightarrow> View option" where
  "currentView c = map_option (\<lambda>s. \<lparr>Round = rs_round s, Sequence = rs_sequence s\<rparr>) (current c)"

subsection \<open>Classifying a message\<close>

definition checkMessage :: "core \<Rightarrow> uint64 \<Rightarrow> View option \<Rightarrow> err option option" where
  "checkMessage c msgCode vo =
     (case vo of
        None \<Rightarrow> Some (Some errInvalidMessage)
      | Some view \<Rightarrow>
          do {
            cv \<leftarrow> currentView c;
            Some (
              if msgCode = msgRoundChange then
                if big_Cmp (Sequence view) (Sequence cv) > 0 then Some errFutureMessage
                else if view_Cmp view cv < 0 then Some errOldMessage
                else None
              else if view_Cmp view cv > 0 then Some errFutureMessage
              else if view_Cmp view cv < 0 then Some errOldMessage
              else if waitingForRoundChange c then Some errFutureMessage
              else if state c = StateAcceptRequest then
                if msgCode > msgPreprepare then Some errFutureMessage else None
              else None)
          })"

subsection \<open>The backlog\<close>

definition msgPriority :: "uint64 \<Rightarrow> uint64" where
  "msgPriority code =
     (if code = msgPreprepare then 1 else if code = msgCommit then 2
      else if code = msgPrepare then 3 else 0)"

definition toPriority :: "uint64 \<Rightarrow> View \<Rightarrow> int" where
  "toPriority msgCode view =
     (if msgCode = msgRoundChange
      then - float32_of (uint (Uint64 (Sequence view) * 1000))
      else - float32_of (uint (Uint64 (Sequence view) * 1000 + Uint64 (Round view) * 10 +
                               msgPriority msgCode)))"

definition message_view :: "Backend \<Rightarrow> message \<Rightarrow> View option" where
  "message_view be msg =
     (if Code msg = msgPreprepare then map_option pp_View (decodePreprepare be (Msg msg))
      else map_option sub_View (decodeSubject be (Msg msg)))"

definition storeBacklog :: "Backend \<Rightarrow> message \<Rightarrow> validator \<Rightarrow> core \<Rightarrow> core" where
  "storeBacklog be msg src c =
     (if src = c_address c then c
      else let backlog = (case map_of (backlogs c) src of None \<Rightarrow> prque_New | Some q \<Rightarrow> q);
               backlog' = (case message_view be msg of
                             Some view \<Rightarrow> prque_Push backlog msg (toPriority (Code msg) view)
                           | None \<Rightarrow> backlog)
           in c\<lparr>backlogs := AList.update src backlog' (backlogs c)\<rparr>)"

text \<open>The inner loop of \<^verbatim>\<open>processBacklog\<close>: the rest of one queue and the events it posts.\<close>

function drainBacklog ::
  "Backend \<Rightarrow> core \<Rightarrow> validator \<Rightarrow> message prque \<Rightarrow> (message prque \<times> effect list) option" where
  "drainBacklog be c src q =
     (case prque_Pop q of
        None \<Rightarrow> Some (q, [])
      | Some ((msg, p), q') \<Rightarrow>
          (case message_view be msg of
             None \<Rightarrow> drainBacklog be c src q'
           | Some view \<Rightarrow>
               (case checkMessage c (Code msg) (Some view) of
                  None \<Rightarrow> None
                | Some (Some e) \<Rightarrow>
                    if e = errFutureMessage then Some (prque_Push q' msg p, [])
                    else drainBacklog be c src q'
                | Some None \<Rightarrow>
                    do {
                      (r, es) \<leftarrow> drainBacklog be c src q';
                      Some (r, Post (BacklogEvent src msg) # es)
                    })))"
  by pat_completeness auto
termination
  by (relation "measure (\<lambda>(be, c, src, q). length q)") (auto dest: prque_Pop_size)

declare drainBacklog.simps [simp del]

fun processBacklogs ::
  "Backend \<Rightarrow> core \<Rightarrow> defaultSet \<Rightarrow> (address \<times> message prque) list
     \<Rightarrow> ((address \<times> message prque) list \<times> effect list) option" where
  "processBacklogs be c vs [] = Some ([], [])"
| "processBacklogs be c vs ((srcAddress, backlog) # rest) =
     (case snd (GetByAddress vs srcAddress) of
        None \<Rightarrow> processBacklogs be c vs rest
      | Some src \<Rightarrow>
          do {
            (q, es) \<leftarrow> drainBacklog be c src backlog;
            (rest', es') \<leftarrow> processBacklogs be c vs rest;
            Some ((srcAddress, q) # rest', es @ es')
          })"

definition processBacklog :: "Backend \<Rightarrow> core \<Rightarrow> core option" where
  "processBacklog be c =
     (if backlogs c = [] then Some c
      else do {
        vs \<leftarrow> valSet c;
        (bl, es) \<leftarrow> processBacklogs be c vs (backlogs c);
        Some (emits es (c\<lparr>backlogs := bl\<rparr>))
      })"

subsection \<open>Requests\<close>

definition checkRequestMsg :: "core \<Rightarrow> Request option \<Rightarrow> err option option" where
  "checkRequestMsg c ro =
     (case Option.bind ro req_Proposal of
        None \<Rightarrow> Some (Some errInvalidMessage)
      | Some p \<Rightarrow>
          do {
            s \<leftarrow> current c;
            Some (if big_Cmp (rs_sequence s) (Number p) > 0 then Some errOldMessage
                  else if big_Cmp (rs_sequence s) (Number p) < 0 then Some errFutureMessage
                  else None)
          })"

text \<open>\<^verbatim>\<open>float32(-request.Proposal.Number().Int64())\<close>.\<close>

definition requestPriority :: "Proposal \<Rightarrow> int" where
  "requestPriority p = float32_of (sint (- (word_of_int (Number p)) :: uint64))"

definition storeRequestMsg :: "Request \<Rightarrow> core \<Rightarrow> core option" where
  "storeRequestMsg r c =
     do {
       p \<leftarrow> req_Proposal r;
       Some (c\<lparr>pendingRequests := prque_Push (pendingRequests c) r (requestPriority p)\<rparr>)
     }"

function drainRequests :: "core \<Rightarrow> Request prque \<Rightarrow> (Request prque \<times> effect list) option" where
  "drainRequests c q =
     (case prque_Pop q of
        None \<Rightarrow> Some (q, [])
      | Some ((r, p), q') \<Rightarrow>
          (case checkRequestMsg c (Some r) of
             None \<Rightarrow> None
           | Some (Some e) \<Rightarrow>
               if e = errFutureMessage then Some (prque_Push q' r p, [])
               else drainRequests c q'
           | Some None \<Rightarrow>
               do {
                 (q'', es) \<leftarrow> drainRequests c q';
                 Some (q'', Post (RequestEvent (req_Proposal r)) # es)
               }))"
  by pat_completeness auto
termination
  by (relation "measure (\<lambda>(c, q). length q)") (auto dest: prque_Pop_size)

declare drainRequests.simps [simp del]

definition processPendingRequests :: "core \<Rightarrow> core option" where
  "processPendingRequests c =
     do {
       (q, es) \<leftarrow> drainRequests c (pendingRequests c);
       Some (emits es (c\<lparr>pendingRequests := q\<rparr>))
     }"

definition setState :: "Backend \<Rightarrow> State \<Rightarrow> core \<Rightarrow> core option" where
  "setState be st c =
     do {
       c1 \<leftarrow> Some (if state c \<noteq> st then c\<lparr>state := st\<rparr> else c);
       c2 \<leftarrow> (if st = StateAcceptRequest then processPendingRequests c1 else Some c1);
       processBacklog be c2
     }"

subsection \<open>Draining a backlog\<close>

definition ready :: "Backend \<Rightarrow> core \<Rightarrow> message \<Rightarrow> bool" where
  "ready be c m \<longleftrightarrow>
     (\<exists>view. message_view be m = Some view \<and> checkMessage c (Code m) (Some view) = Some None)"

definition stale :: "Backend \<Rightarrow> core \<Rightarrow> message \<Rightarrow> bool" where
  "stale be c m \<longleftrightarrow> message_view be m = None \<or>
     (\<exists>view e. message_view be m = Some view \<and> checkMessage c (Code m) (Some view) = Some (Some e) \<and>
        e \<noteq> errFutureMessage)"

definition drained ::
  "Backend \<Rightarrow> core \<Rightarrow> validator \<Rightarrow> message prque \<Rightarrow> message prque \<Rightarrow> effect list \<Rightarrow> bool" where
  "drained be c src q r es \<longleftrightarrow>
     set q \<subseteq> set r \<union> {(m, p). Post (BacklogEvent src m) \<in> set es} \<union> {(m, p). stale be c m} \<and>
     set r \<subseteq> set q \<and> set es \<subseteq> (\<lambda>m. Post (BacklogEvent src m)) ` {m \<in> fst ` set q. ready be c m}"

lemma drained_skip: "drained be c src q r es \<Longrightarrow> stale be c m \<Longrightarrow> set q' = insert (m, p) (set q) \<Longrightarrow>
    drained be c src q' r es"
  unfolding drained_def by simp blast

lemma drained_post: "drained be c src q r es \<Longrightarrow> ready be c m \<Longrightarrow> set q' = insert (m, p) (set q) \<Longrightarrow>
    drained be c src q' r (Post (BacklogEvent src m) # es)"
  unfolding drained_def by simp blast

lemma drainBacklog_drained:
  "case drainBacklog be c src q of None \<Rightarrow> current c = None | Some (r, es) \<Rightarrow> drained be c src q r es"
proof (induction be c src q rule: drainBacklog.induct)
  case (1 be c src q)
  note unfold = drainBacklog.simps [of be c src q]
  show ?case
  proof (cases "prque_Pop q")
    case None
    then have "drained be c src q q []" by (auto simp: drained_def)
    then show ?thesis using None unfold by simp
  next
    case (Some xq)
    obtain m p q' where xq: "xq = ((m, p), q')" by (metis surj_pair)
    note pop = Some [unfolded xq]
    have set_q: "set q = insert (m, p) (set q')" using prque_Pop_mset [OF pop] by (metis set_mset_add_mset_insert set_mset_mset)
    have set_push: "set (prque_Push q' m p) = set q"
      using prque_Push_mset [of q' m p] set_q by (metis set_mset_add_mset_insert set_mset_mset)
    show ?thesis
    proof (cases "message_view be m")
      case None
      then show ?thesis
        using "1.IH"(1) [OF pop refl refl None] drained_skip [OF _ _ set_q] unfold pop
        by (auto simp: stale_def split: option.splits)
    next
      case view: (Some view)
      show ?thesis
      proof (cases "checkMessage c (Code m) (Some view)")
        case None
        then have "current c = None"
          by (auto simp: checkMessage_def currentView_def split: bind_splits if_splits)
        then show ?thesis using None unfold pop view by simp
      next
        case chk: (Some r)
        show ?thesis
        proof (cases r)
          case None
          then have "ready be c m" using view chk by (simp add: ready_def)
          then show ?thesis
            using "1.IH"(2) [OF pop refl refl view chk None] drained_post [OF _ _ set_q] unfold pop view chk None
            by (auto split: option.splits bind_splits)
        next
          case e: (Some e)
          show ?thesis
          proof (cases "e = errFutureMessage")
            case True
            have "drained be c src q (prque_Push q' m p) []"
              using set_push by (auto simp: drained_def)
            then show ?thesis using True unfold pop view chk e by simp
          next
            case False
            then have "stale be c m" using view chk e by (simp add: stale_def)
            then show ?thesis
              using "1.IH"(3) [OF pop refl refl view chk e False] drained_skip [OF _ _ set_q] unfold pop view chk e False
              by (auto split: option.splits)
          qed
        qed
      qed
    qed
  qed
qed

text \<open>
  C12: processing the backlog of a validator loses no message that may still matter: each one is posted
  to the event loop, or stays in the backlog, or is undecodable or rejected for another reason than
  being early. Only messages of the backlog that are due in the current view and state are posted, and
  nothing is put into the backlog that was not there. It fails only on a core that has no round.
\<close>

theorem backlog_loses_nothing:
  "case drainBacklog be c src q of
     None \<Rightarrow> current c = None
   | Some (r, es) \<Rightarrow>
       set q \<subseteq> set r \<union> {(m, p). Post (BacklogEvent src m) \<in> set es} \<union> {(m, p). stale be c m} \<and>
       set r \<subseteq> set q \<and> set es \<subseteq> (\<lambda>m. Post (BacklogEvent src m)) ` {m \<in> fst ` set q. ready be c m}"
  using drainBacklog_drained unfolding drained_def .

subsection \<open>The order of the backlog\<close>

definition rank :: "uint64 \<Rightarrow> View \<Rightarrow> int" where
  "rank code v = (if code = msgRoundChange then 0 else Round v * 10 + uint (msgPriority code))"

definition view_small :: "int \<Rightarrow> View \<Rightarrow> bool" where
  "view_small bound v \<longleftrightarrow> 0 \<le> Round v \<and> Round v < 100 \<and> 0 \<le> Sequence v \<and> Sequence v < bound"

lemma msgPriority_le: "uint (msgPriority code) \<le> 3" "0 \<le> uint (msgPriority code)"
  by (simp_all add: msgPriority_def)

lemma rank_bounds: "view_small b v \<Longrightarrow> 0 \<le> rank code v \<and> rank code v < 1000"
  using msgPriority_le [of code] by (simp add: rank_def view_small_def)

lemma toPriority_eq:
  assumes "view_small (2 ^ 54) v"
  shows "toPriority code v = - float32_of (Sequence v * 1000 + rank code v)"
proof -
  have "Uint64 (Sequence v) * 1000 = Uint64 (Sequence v * 1000 + 0)"
    "Uint64 (Sequence v) * 1000 + Uint64 (Round v) * 10 + msgPriority code =
       Uint64 (Sequence v * 1000 + (Round v * 10 + uint (msgPriority code)))"
    by (simp_all add: Uint64_def)
  moreover have "uint (Uint64 (Sequence v * 1000 + rank code v)) = Sequence v * 1000 + rank code v"
    using assms rank_bounds [OF assms, of code] by (intro Uint64_small) (simp_all add: view_small_def)
  ultimately show ?thesis
    unfolding toPriority_def rank_def by (cases "code = msgRoundChange") (simp_all only: if_True if_False refl simp_thms)
qed



lemma float32_of_mono: "0 \<le> a \<Longrightarrow> a \<le> b \<Longrightarrow> float32_of a \<le> float32_of b"
  using float32_nat_mono [of "nat a" "nat b"] by (simp add: float32_of_def)

text \<open>
  C36: beyond the exact range the rounding never turns the order of sequences around: a message of an
  earlier sequence is never behind one of a later sequence, for all sequences up to \<open>2 ^ 54\<close>.
\<close>

theorem backlog_order_kept:
  assumes "view_small (2 ^ 54) v" "view_small (2 ^ 54) v'" "Sequence v < Sequence v'"
  shows "toPriority code v \<ge> toPriority code' v'"
proof -
  have "Sequence v * 1000 + rank code v \<le> Sequence v' * 1000 + rank code' v'"
    "0 \<le> Sequence v * 1000 + rank code v"
    using assms(3) rank_bounds [OF assms(1), of code] rank_bounds [OF assms(2), of code'] assms(1)
    by (auto simp: view_small_def)
  then show ?thesis
    using float32_of_mono by (simp add: toPriority_eq [OF assms(1)] toPriority_eq [OF assms(2)])
qed

theorem backlog_order_kept_witness:
  "toPriority msgPrepare \<lparr>Round = 9, Sequence = 3000000\<rparr> \<ge> toPriority msgPreprepare \<lparr>Round = 0, Sequence = 3000001\<rparr>"
  using backlog_order_kept [of "\<lparr>Round = 9, Sequence = 3000000\<rparr>" "\<lparr>Round = 0, Sequence = 3000001\<rparr>"
      msgPreprepare msgPrepare]
  by (simp add: view_small_def)


end
