(* ===== verification/Core.thy ===== *)
theory Core
  imports Backlog
begin

text \<open>
  The Istanbul consensus core (\<^verbatim>\<open>src/consensus/istanbul/core\<close>): sending and handling of PRE-PREPARE,
  PREPARE, COMMIT and ROUND CHANGE messages, the start of rounds, and the event loop. Every definition
  is the Go function of the same name; it maps the core's state to the new state and, where the Go
  function returns an error, that error. The outer option is \<^term>\<open>None\<close> exactly where the Go code
  dereferences a nil pointer (no round started, no validator set, no last proposal).
\<close>

unbundle bit_operations_syntax

subsection \<open>Sending\<close>

definition hash_bytes :: "hash \<Rightarrow> bytes" where
  "hash_bytes h = map (\<lambda>i. ucast (drop_bit (8 * (31 - i)) h)) [0..<32]"

definition PrepareCommittedSeal :: "hash \<Rightarrow> bytes" where
  "PrepareCommittedSeal h = hash_bytes h @ [ucast msgCommit]"

definition committedSeal :: "Backend \<Rightarrow> core \<Rightarrow> message \<Rightarrow> (err + bytes) option" where
  "committedSeal be c msg =
     (if Code msg = msgCommit then
        do {
          s \<leftarrow> current c;
          Some (case rs_Proposal s of
                  None \<Rightarrow> Inr []
                | Some p \<Rightarrow>
                    (case Sign be (PrepareCommittedSeal (Hash p)) of
                       None \<Rightarrow> Inl ErrSignature | Some seal \<Rightarrow> Inr seal))
        }
      else Some (Inr []))"

definition signMessage :: "Backend \<Rightarrow> message \<Rightarrow> err + bytes" where
  "signMessage be m =
     (case PayloadNoSig be m of
        None \<Rightarrow> Inl ErrRLP
      | Some data \<Rightarrow>
          (case Sign be data of
             None \<Rightarrow> Inl ErrSignature
           | Some sig \<Rightarrow>
               (case encodeMessage be (m\<lparr>Signature := sig\<rparr>) of
                  None \<Rightarrow> Inl ErrRLP | Some payload \<Rightarrow> Inr payload)))"

definition finalizeMessage :: "Backend \<Rightarrow> core \<Rightarrow> message \<Rightarrow> (err + bytes) option" where
  "finalizeMessage be c msg =
     do {
       seal \<leftarrow> committedSeal be c msg;
       Some (case seal of
               Inl e \<Rightarrow> Inl e
             | Inr sl \<Rightarrow> signMessage be (msg\<lparr>Address := c_address c, CommittedSeal := sl\<rparr>))
     }"

definition new_message :: "uint64 \<Rightarrow> bytes \<Rightarrow> message" where
  "new_message code b = \<lparr>Code = code, Msg = b, Address = 0, Signature = [], CommittedSeal = []\<rparr>"

definition broadcast :: "Backend \<Rightarrow> message \<Rightarrow> core \<Rightarrow> core option" where
  "broadcast be msg c =
     do {
       r \<leftarrow> finalizeMessage be c msg;
       (case r of
          Inl e \<Rightarrow> Some c
        | Inr payload \<Rightarrow> do { vs \<leftarrow> valSet c; Some (emit (Broadcast vs payload) c) })
     }"

definition core_IsProposer :: "Backend \<Rightarrow> core \<Rightarrow> bool" where
  "core_IsProposer be c =
     (case valSet c of None \<Rightarrow> False | Some v \<Rightarrow> IsProposer v (backend_Address be))"

definition IsCurrentProposal :: "core \<Rightarrow> hash \<Rightarrow> bool" where
  "IsCurrentProposal c h =
     (case Option.bind (current c) pendingRequest of
        None \<Rightarrow> False
      | Some r \<Rightarrow> map_option Hash (req_Proposal r) = Some h)"

definition sendPreprepare :: "Backend \<Rightarrow> Request \<Rightarrow> core \<Rightarrow> core option" where
  "sendPreprepare be request c =
     do {
       s \<leftarrow> current c;
       p \<leftarrow> req_Proposal request;
       (if big_Cmp (rs_sequence s) (Number p) = 0 \<and> core_IsProposer be c then
          do {
            curView \<leftarrow> currentView c;
            (case encodePreprepare be \<lparr>pp_View = curView, pp_Proposal = p\<rparr> of
               None \<Rightarrow> Some c
             | Some preprepare \<Rightarrow> broadcast be (new_message msgPreprepare preprepare) c)
          }
        else Some c)
     }"

definition sendPrepare :: "Backend \<Rightarrow> core \<Rightarrow> core option" where
  "sendPrepare be c =
     do {
       s \<leftarrow> current c;
       (case encodeSubject be (rs_Subject s) of
          None \<Rightarrow> Some c
        | Some encodedSubject \<Rightarrow> broadcast be (new_message msgPrepare encodedSubject) c)
     }"

definition broadcastCommit :: "Backend \<Rightarrow> Subject option \<Rightarrow> core \<Rightarrow> core option" where
  "broadcastCommit be sub c =
     (case encodeSubject be sub of
        None \<Rightarrow> Some c
      | Some encodedSubject \<Rightarrow> broadcast be (new_message msgCommit encodedSubject) c)"

definition sendCommit :: "Backend \<Rightarrow> core \<Rightarrow> core option" where
  "sendCommit be c = do { s \<leftarrow> current c; broadcastCommit be (rs_Subject s) c }"

definition sendCommitForOldBlock :: "Backend \<Rightarrow> View \<Rightarrow> hash \<Rightarrow> core \<Rightarrow> core option" where
  "sendCommitForOldBlock be view digest c =
     broadcastCommit be (Some \<lparr>sub_View = view, sub_Digest = digest\<rparr>) c"

subsection \<open>Timers and rounds\<close>

definition stopFuturePreprepareTimer :: "core \<Rightarrow> core" where
  "stopFuturePreprepareTimer c = c\<lparr>futurePreprepareTimer := None\<rparr>"

definition stopTimer :: "core \<Rightarrow> core" where
  "stopTimer c = (stopFuturePreprepareTimer c)\<lparr>roundChangeTimer := None\<rparr>"

text \<open>
  \<^verbatim>\<open>time.Duration(math.Pow(2, float64(round)))\<close>: from \<open>2 ^ 63\<close> on the power does not fit an
  \<^verbatim>\<open>int64\<close>, and the conversion yields the smallest one, as it does on amd64.
\<close>

definition pow2_duration :: "uint64 \<Rightarrow> uint64" where
  "pow2_duration r = 2 ^ min (unat r) 63"

definition round_timeout :: "uint64 \<Rightarrow> uint64 \<Rightarrow> int" where
  "round_timeout request_timeout r =
     sint (request_timeout * 1000000 + (if r > 0 then pow2_duration r * 1000000000 else 0))"

definition newRoundChangeTimer :: "core \<Rightarrow> core option" where
  "newRoundChangeTimer c =
     do {
       s \<leftarrow> current c;
       Some ((stopTimer c)\<lparr>roundChangeTimer :=
               Some (round_timeout (RequestTimeout c) (Uint64 (rs_round s)))\<rparr>)
     }"

definition updateRoundState :: "Backend \<Rightarrow> View \<Rightarrow> defaultSet \<Rightarrow> bool \<Rightarrow> core \<Rightarrow> core" where
  "updateRoundState be view vs roundChange c =
     (case (if roundChange then current c else None) of
        Some s \<Rightarrow>
          if IsHashLocked be s
          then c\<lparr>current := Some (newRoundState view vs (GetLockedHash s) (rs_Preprepare s) (pendingRequest s))\<rparr>
          else c\<lparr>current := Some (newRoundState view vs 0 None (pendingRequest s))\<rparr>
      | None \<Rightarrow> c\<lparr>current := Some (newRoundState view vs 0 None None)\<rparr>)"

definition catchUpRound :: "Backend \<Rightarrow> View \<Rightarrow> core \<Rightarrow> core option" where
  "catchUpRound be view c =
     do {
       s \<leftarrow> current c;
       vs \<leftarrow> valSet c;
       rcs \<leftarrow> c_roundChangeSet c;
       c1 \<leftarrow> Some (updateRoundState be view vs True (c\<lparr>waitingForRoundChange := True\<rparr>));
       newRoundChangeTimer (c1\<lparr>c_roundChangeSet := Some (rcs_Clear rcs (Round view))\<rparr>)
     }"

definition sendRoundChange :: "Backend \<Rightarrow> int \<Rightarrow> core \<Rightarrow> core option" where
  "sendRoundChange be rnd c =
     do {
       cv \<leftarrow> currentView c;
       (if big_Cmp (Round cv) rnd \<ge> 0 then Some c
        else do {
          c1 \<leftarrow> catchUpRound be \<lparr>Round = rnd, Sequence = Sequence cv\<rparr> c;
          cv1 \<leftarrow> currentView c1;
          (case encodeSubject be (Some \<lparr>sub_View = cv1, sub_Digest = 0\<rparr>) of
             None \<Rightarrow> Some c1
           | Some payload \<Rightarrow> broadcast be (new_message msgRoundChange payload) c1)
        })
     }"

definition sendNextRoundChange :: "Backend \<Rightarrow> core \<Rightarrow> core option" where
  "sendNextRoundChange be c =
     do { cv \<leftarrow> currentView c; sendRoundChange be (Round cv + 1) c }"

definition IstanbulExtraSeal :: nat where
  "IstanbulExtraSeal = 65"

definition copy_seal :: "bytes \<Rightarrow> bytes" where
  "copy_seal seal = take IstanbulExtraSeal (seal @ replicate IstanbulExtraSeal 0)"

definition core_commit :: "Backend \<Rightarrow> core \<Rightarrow> core option" where
  "core_commit be c =
     do {
       c1 \<leftarrow> setState be StateCommitted c;
       s \<leftarrow> current c1;
       (case rs_Proposal s of
          None \<Rightarrow> Some c1
        | Some p \<Rightarrow>
            let seals = map (\<lambda>m. copy_seal (CommittedSeal m)) (ms_Values (Commits s));
                c2 = emit (CommitBlock p seals) c1
            in case backend_Commit be p seals of
                 None \<Rightarrow> Some c2
               | Some e \<Rightarrow> sendNextRoundChange be (c2\<lparr>current := Some (UnlockHash s)\<rparr>))
     }"

text \<open>How \<^verbatim>\<open>startNewRound\<close> decides: stay, change the round, or open a new sequence.\<close>

datatype roundPlan = Stay | NextRound | NewSequence

definition planRound :: "core \<Rightarrow> Proposal option \<Rightarrow> int \<Rightarrow> roundPlan option" where
  "planRound c lastProposal rnd =
     (case current c of
        None \<Rightarrow> Some NewSequence
      | Some s \<Rightarrow>
          do {
            lp \<leftarrow> lastProposal;
            Some (
              if big_Cmp (Number lp) (rs_sequence s) \<ge> 0 then NewSequence
              else if big_Cmp (Number lp) (sint (word_of_int (rs_sequence s) - 1 :: uint64)) = 0 then
                if big_Cmp rnd 0 = 0 then Stay
                else if big_Cmp rnd (rs_round s) < 0 then Stay
                else NextRound
              else Stay)
          })"

definition enterRound ::
  "Backend \<Rightarrow> View \<Rightarrow> defaultSet \<Rightarrow> address \<Rightarrow> bool \<Rightarrow> core \<Rightarrow> core option" where
  "enterRound be newView vs lastProposer roundChange c =
     do {
       c1 \<leftarrow> Some (updateRoundState be newView vs roundChange
                    (c\<lparr>valSet := Some vs, c_roundChangeSet := Some (newRoundChangeSet vs)\<rparr>));
       c2 \<leftarrow> Some (c1\<lparr>valSet := Some (CalcProposer vs lastProposer (Uint64 (Round newView))),
                     waitingForRoundChange := False\<rparr>);
       c3 \<leftarrow> setState be StateAcceptRequest c2;
       s \<leftarrow> current c3;
       c4 \<leftarrow> (if roundChange \<and> core_IsProposer be c3 then
                if IsHashLocked be s then sendPreprepare be \<lparr>req_Proposal = rs_Proposal s\<rparr> c3
                else (case pendingRequest s of
                        Some r \<Rightarrow> sendPreprepare be r c3
                      | None \<Rightarrow> Some c3)
              else Some c3);
       newRoundChangeTimer c4
     }"

definition startNewRound :: "Backend \<Rightarrow> int \<Rightarrow> core \<Rightarrow> core option" where
  "startNewRound be rnd c =
     (let (lastProposal, lastProposer) = LastProposal be
      in do {
        plan \<leftarrow> planRound c lastProposal rnd;
        (case plan of
           Stay \<Rightarrow> Some c
         | NextRound \<Rightarrow>
             do {
               s \<leftarrow> current c;
               vs \<leftarrow> valSet c;
               enterRound be \<lparr>Round = rnd, Sequence = rs_sequence s\<rparr> vs lastProposer True c
             }
         | NewSequence \<Rightarrow>
             do {
               lp \<leftarrow> lastProposal;
               enterRound be \<lparr>Round = 0, Sequence = Number lp + 1\<rparr> (Validators be lp) lastProposer False c
             })
      })"

subsection \<open>Timeouts\<close>

text \<open>
  C31: the timeout of a round is the configured timeout plus \<open>2 ^ round\<close> seconds (none at round 0), in
  nanoseconds and without wrap-around, for all rounds up to 33 and any configured timeout up to a year.
\<close>

theorem round_timeout_exact:
  assumes "r \<le> 33" "t \<le> 31622400000"
  shows "round_timeout (of_nat t) (of_nat r) =
    int t * 1000000 + (if r = 0 then 0 else 2 ^ r * 1000000000)"
proof -
  have r: "unat (of_nat r :: uint64) = r"
    using assms(1) unat_of_nat_small [of r] by simp
  then have pos: "of_nat r > (0 :: uint64) \<longleftrightarrow> r \<noteq> 0"
    by (simp add: word_less_nat_alt del: unat_of_nat)
  define x where "x = int t * 1000000 + (if r = 0 then 0 else 2 ^ r * 1000000000)"
  have "(2::int) ^ r \<le> 2 ^ 33" using assms(1) by (intro power_increasing) auto
  then have x: "0 \<le> x" "x < 2 ^ 63" using assms(2) by (auto simp: x_def)
  have "of_nat t * 1000000 + (if of_nat r > (0 :: uint64) then pow2_duration (of_nat r) * 1000000000 else 0) =
      (word_of_int x :: uint64)"
    using r pos assms(1) by (simp add: x_def pow2_duration_def wi_hom_syms del: unat_of_nat)
  then have "round_timeout (of_nat t) (of_nat r) = sint (word_of_int x :: uint64)"
    by (simp only: round_timeout_def)
  also have "\<dots> = x"
    using x by (simp add: int_word_sint)
  finally show ?thesis by (simp only: x_def)
qed

theorem round_timeout_exact_witness: "round_timeout 10000 33 = 10000000000 + 2 ^ 33 * 1000000000"
  using round_timeout_exact [of 33 10000] by simp


end
