(* ===== verification/Handlers.thy ===== *)
theory Handlers
  imports Core
begin

text \<open>
  The message handlers of the consensus core and its event loop: \<^verbatim>\<open>core/preprepare.go\<close>,
  \<^verbatim>\<open>core/prepare.go\<close>, \<^verbatim>\<open>core/commit.go\<close>, \<^verbatim>\<open>core/roundchange.go\<close>, \<^verbatim>\<open>core/request.go\<close>,
  \<^verbatim>\<open>core/handler.go\<close> and \<^verbatim>\<open>core/final_committed.go\<close>. A handler returns the new core and its Go error.
\<close>

subsection \<open>PRE-PREPARE\<close>

definition acceptPreprepare :: "Preprepare \<Rightarrow> core \<Rightarrow> core option" where
  "acceptPreprepare preprepare c =
     do { s \<leftarrow> current c; Some (c\<lparr>current := Some (SetPreprepare s (Some preprepare))\<rparr>) }"

text \<open>An old PRE-PREPARE: answer with a COMMIT when it was the proposal of a block in the chain.\<close>

definition handleOldPreprepare ::
  "Backend \<Rightarrow> Preprepare \<Rightarrow> validator \<Rightarrow> core \<Rightarrow> (core \<times> err option) option" where
  "handleOldPreprepare be preprepare src c =
     (let p = pp_Proposal preprepare;
          previousProposer = backend_GetProposer be (Uint64 (Number p) - 1);
          vs = CalcProposer (vs_Copy (keccak be) (ParentValidators be p)) previousProposer
                 (Uint64 (Round (pp_View preprepare)))
      in if IsProposer vs src \<and> HasPropsal be (Hash p) (Number p)
         then do { c1 \<leftarrow> sendCommitForOldBlock be (pp_View preprepare) (Hash p) c; Some (c1, None) }
         else Some (c, Some errOldMessage))"

text \<open>A PRE-PREPARE of the current view that passed all checks, in state \<^verbatim>\<open>StateAcceptRequest\<close>.\<close>

definition adoptPreprepare :: "Backend \<Rightarrow> Preprepare \<Rightarrow> core \<Rightarrow> core option" where
  "adoptPreprepare be preprepare c =
     do {
       s \<leftarrow> current c;
       (if IsHashLocked be s then
          if Hash (pp_Proposal preprepare) = GetLockedHash s then
            do {
              c1 \<leftarrow> acceptPreprepare preprepare c;
              c2 \<leftarrow> setState be StatePrepared c1;
              sendCommit be c2
            }
          else sendNextRoundChange be c
        else
          do {
            c1 \<leftarrow> acceptPreprepare preprepare c;
            c2 \<leftarrow> setState be StatePreprepared c1;
            sendPrepare be c2
          })
     }"

definition handlePreprepare ::
  "Backend \<Rightarrow> message \<Rightarrow> validator \<Rightarrow> core \<Rightarrow> (core \<times> err option) option" where
  "handlePreprepare be msg src c =
     (case decodePreprepare be (Msg msg) of
        None \<Rightarrow> Some (c, Some errFailedDecodePreprepare)
      | Some preprepare \<Rightarrow>
          do {
            chk \<leftarrow> checkMessage c msgPreprepare (Some (pp_View preprepare));
            (case chk of
               Some e \<Rightarrow>
                 if e = errOldMessage then handleOldPreprepare be preprepare src c
                 else Some (c, Some e)
             | None \<Rightarrow>
                 do {
                   vs \<leftarrow> valSet c;
                   (if \<not> IsProposer vs src then Some (c, Some errNotFromProposer)
                    else case Verify be (pp_Proposal preprepare) of
                      (duration, Some e) \<Rightarrow>
                        if e = ErrFutureBlock
                        then Some ((stopFuturePreprepareTimer c)\<lparr>futurePreprepareTimer :=
                                     Some (duration, src, msg)\<rparr>, Some e)
                        else do { c1 \<leftarrow> sendNextRoundChange be c; Some (c1, Some e) }
                    | (duration, None) \<Rightarrow>
                        if state c = StateAcceptRequest
                        then do { c1 \<leftarrow> adoptPreprepare be preprepare c; Some (c1, None) }
                        else Some (c, None))
                 })
          })"

subsection \<open>PREPARE\<close>

definition verifySubject :: "Subject \<Rightarrow> core \<Rightarrow> err option option" where
  "verifySubject sub c =
     do {
       s \<leftarrow> current c;
       Some (if Some sub \<noteq> rs_Subject s then Some errInconsistentSubject else None)
     }"

definition acceptPrepare :: "message \<Rightarrow> core \<Rightarrow> core option" where
  "acceptPrepare msg c =
     do { s \<leftarrow> current c; Some (c\<lparr>current := Some (s\<lparr>Prepares := fst (ms_Add (Prepares s) msg)\<rparr>)\<rparr>) }"

definition handlePrepare ::
  "Backend \<Rightarrow> message \<Rightarrow> validator \<Rightarrow> core \<Rightarrow> (core \<times> err option) option" where
  "handlePrepare be msg src c =
     (case decodeSubject be (Msg msg) of
        None \<Rightarrow> Some (c, Some errFailedDecodePrepare)
      | Some prepare \<Rightarrow>
          do {
            chk \<leftarrow> checkMessage c msgPrepare (Some (sub_View prepare));
            (case chk of
               Some e \<Rightarrow> Some (c, Some e)
             | None \<Rightarrow>
                 do {
                   v \<leftarrow> verifySubject prepare c;
                   (case v of
                      Some e \<Rightarrow> Some (c, Some e)
                    | None \<Rightarrow>
                        do {
                          c1 \<leftarrow> acceptPrepare msg c;
                          s \<leftarrow> current c1;
                          vs \<leftarrow> valSet c1;
                          (if ((IsHashLocked be s \<and> sub_Digest prepare = GetLockedHash s) \<or>
                               GetPrepareOrCommitSize s > 2 * vs_F vs) \<and>
                              State_Cmp (state c1) StatePrepared < 0
                           then do {
                             c2 \<leftarrow> setState be StatePrepared (c1\<lparr>current := Some (LockHash s)\<rparr>);
                             c3 \<leftarrow> sendCommit be c2;
                             Some (c3, None)
                           }
                           else Some (c1, None))
                        })
                 })
          })"

subsection \<open>COMMIT\<close>

definition acceptCommit :: "message \<Rightarrow> core \<Rightarrow> core option" where
  "acceptCommit msg c =
     do { s \<leftarrow> current c; Some (c\<lparr>current := Some (s\<lparr>Commits := fst (ms_Add (Commits s) msg)\<rparr>)\<rparr>) }"

definition handleCommit ::
  "Backend \<Rightarrow> message \<Rightarrow> validator \<Rightarrow> core \<Rightarrow> (core \<times> err option) option" where
  "handleCommit be msg src c =
     (case decodeSubject be (Msg msg) of
        None \<Rightarrow> Some (c, Some errFailedDecodeCommit)
      | Some commit \<Rightarrow>
          do {
            chk \<leftarrow> checkMessage c msgCommit (Some (sub_View commit));
            (case chk of
               Some e \<Rightarrow> Some (c, Some e)
             | None \<Rightarrow>
                 do {
                   v \<leftarrow> verifySubject commit c;
                   (case v of
                      Some e \<Rightarrow> Some (c, Some e)
                    | None \<Rightarrow>
                        do {
                          c1 \<leftarrow> acceptCommit msg c;
                          s \<leftarrow> current c1;
                          vs \<leftarrow> valSet c1;
                          (if int (ms_Size (Commits s)) > 2 * vs_F vs \<and>
                              State_Cmp (state c1) StateCommitted < 0
                           then do {
                             c2 \<leftarrow> core_commit be (c1\<lparr>current := Some (LockHash s)\<rparr>);
                             Some (c2, None)
                           }
                           else Some (c1, None))
                        })
                 })
          })"

subsection \<open>ROUND CHANGE\<close>

definition handleRoundChange ::
  "Backend \<Rightarrow> message \<Rightarrow> validator \<Rightarrow> core \<Rightarrow> (core \<times> err option) option" where
  "handleRoundChange be msg src c =
     (case decodeSubject be (Msg msg) of
        None \<Rightarrow> Some (c, Some errInvalidMessage)
      | Some rc \<Rightarrow>
          do {
            chk \<leftarrow> checkMessage c msgRoundChange (Some (sub_View rc));
            (case chk of
               Some e \<Rightarrow> Some (c, Some e)
             | None \<Rightarrow>
                 do {
                   cv \<leftarrow> currentView c;
                   rcs \<leftarrow> c_roundChangeSet c;
                   vs \<leftarrow> valSet c;
                   rnd \<leftarrow> Some (Round (sub_View rc));
                   (rcs', r) \<leftarrow> Some (rcs_Add rcs rnd msg);
                   c1 \<leftarrow> Some (c\<lparr>c_roundChangeSet := Some rcs'\<rparr>);
                   (case r of
                      Inl e \<Rightarrow> Some (c1, Some e)
                    | Inr num \<Rightarrow>
                        if waitingForRoundChange c1 \<and> int num = vs_F vs + 1 then
                          if big_Cmp (Round cv) rnd < 0
                          then do { c2 \<leftarrow> sendRoundChange be rnd c1; Some (c2, None) }
                          else Some (c1, None)
                        else if int num = 2 * vs_F vs + 1 \<and>
                                (waitingForRoundChange c1 \<or> big_Cmp (Round cv) rnd < 0) then
                          do { c2 \<leftarrow> startNewRound be rnd c1; Some (c2, None) }
                        else if big_Cmp (Round cv) rnd < 0 then Some (c1, Some errIgnored)
                        else Some (c1, None))
                 })
          })"

subsection \<open>Requests, timeouts, final commits\<close>

definition handleRequest :: "Backend \<Rightarrow> Request \<Rightarrow> core \<Rightarrow> (core \<times> err option) option" where
  "handleRequest be request c =
     do {
       s \<leftarrow> current c;
       chk \<leftarrow> checkRequestMsg c (Some request);
       (case chk of
          Some e \<Rightarrow> Some (c, Some e)
        | None \<Rightarrow>
            do {
              c1 \<leftarrow> Some (c\<lparr>current := Some (s\<lparr>pendingRequest := Some request\<rparr>)\<rparr>);
              c2 \<leftarrow> (if state c1 = StateAcceptRequest then sendPreprepare be request c1 else Some c1);
              Some (c2, None)
            })
     }"

text \<open>The second half of \<^verbatim>\<open>handleTimeoutMsg\<close>: follow the chain, or ask for the next round.\<close>

definition timeoutCatchUp :: "Backend \<Rightarrow> core \<Rightarrow> core option" where
  "timeoutCatchUp be c =
     (case fst (LastProposal be) of
        None \<Rightarrow> sendNextRoundChange be c
      | Some lp \<Rightarrow>
          do {
            s \<leftarrow> current c;
            (if big_Cmp (Number lp) (rs_sequence s) \<ge> 0 then startNewRound be 0 c
             else sendNextRoundChange be c)
          })"

definition handleTimeoutMsg :: "Backend \<Rightarrow> core \<Rightarrow> core option" where
  "handleTimeoutMsg be c =
     (if waitingForRoundChange c then timeoutCatchUp be c
      else do {
        rcs \<leftarrow> c_roundChangeSet c;
        vs \<leftarrow> valSet c;
        (case MaxRound rcs (vs_F vs + 1) of
           None \<Rightarrow> timeoutCatchUp be c
         | Some maxRound \<Rightarrow>
             do {
               s \<leftarrow> current c;
               (if big_Cmp maxRound (rs_round s) > 0 then sendRoundChange be maxRound c
                else timeoutCatchUp be c)
             })
      })"

definition handleFinalCommitted :: "Backend \<Rightarrow> core \<Rightarrow> core option" where
  "handleFinalCommitted be c = startNewRound be 0 c"

subsection \<open>Dispatch\<close>

definition handleCheckedMsg ::
  "Backend \<Rightarrow> message \<Rightarrow> validator \<Rightarrow> core \<Rightarrow> (core \<times> err option) option" where
  "handleCheckedMsg be msg src c =
     (if Code msg \<in> {msgPreprepare, msgPrepare, msgCommit, msgRoundChange} then
        do {
          (c1, e) \<leftarrow>
            (if Code msg = msgPreprepare then handlePreprepare be msg src c
             else if Code msg = msgPrepare then handlePrepare be msg src c
             else if Code msg = msgCommit then handleCommit be msg src c
             else handleRoundChange be msg src c);
          Some (if e = Some errFutureMessage then storeBacklog be msg src c1 else c1, e)
        }
      else Some (c, Some errInvalidMessage))"

definition handleMsg :: "Backend \<Rightarrow> bytes \<Rightarrow> core \<Rightarrow> (core \<times> err option) option" where
  "handleMsg be payload c =
     do {
       r \<leftarrow> FromPayload be (CheckValidatorSignature be (valSet c)) payload;
       (case r of
          Inl e \<Rightarrow> Some (c, Some e)
        | Inr msg \<Rightarrow>
            do {
              vs \<leftarrow> valSet c;
              (case snd (GetByAddress vs (Address msg)) of
                 None \<Rightarrow> Some (c, Some ErrUnauthorizedAddress)
               | Some src \<Rightarrow> handleCheckedMsg be msg src c)
            })
     }"

definition gossip :: "bytes \<Rightarrow> core \<Rightarrow> core option" where
  "gossip payload c = do { vs \<leftarrow> valSet c; Some (emit (Gossip vs payload) c) }"

text \<open>One turn of the loop of \<^verbatim>\<open>handleEvents\<close>.\<close>

definition handleEvent :: "Backend \<Rightarrow> event \<Rightarrow> core \<Rightarrow> core option" where
  "handleEvent be ev c =
     (case ev of
        RequestEvent p \<Rightarrow>
          do {
            r \<leftarrow> Some \<lparr>req_Proposal = p\<rparr>;
            (c1, e) \<leftarrow> handleRequest be r c;
            (if e = Some errFutureMessage then storeRequestMsg r c1 else Some c1)
          }
      | MessageEvent payload \<Rightarrow>
          do {
            (c1, e) \<leftarrow> handleMsg be payload c;
            (if e = None then gossip payload c1 else Some c1)
          }
      | BacklogEvent src msg \<Rightarrow>
          do {
            (c1, e) \<leftarrow> handleCheckedMsg be msg src c;
            (if e = None then
               (case encodeMessage be msg of None \<Rightarrow> Some c1 | Some p \<Rightarrow> gossip p c1)
             else Some c1)
          }
      | TimeoutEvent \<Rightarrow> handleTimeoutMsg be c
      | FinalCommittedEvent \<Rightarrow> handleFinalCommitted be c)"

text \<open>\<^verbatim>\<open>Start\<close> opens the first round; \<^verbatim>\<open>Stop\<close> disarms the timers and the loop clears the round.\<close>

definition core_Start :: "Backend \<Rightarrow> core \<Rightarrow> core option" where
  "core_Start be c = startNewRound be 0 c"

definition core_Stop :: "core \<Rightarrow> core" where
  "core_Stop c = (stopTimer c)\<lparr>current := None\<rparr>"

end
