(* ===== verification/Core_Frame.thy ===== *)
theory Core_Frame
  imports Handlers
begin

text \<open>
  What the building blocks of the handlers do to the state: each of them succeeds on a core with a
  round, a validator set and a round change set, and changes nothing but queues, timers and the
  recorded effects (\<open>quiet\<close>), or moves the round as \<open>movedRound\<close> and \<open>enteredRound\<close> say. The handler proofs
  use these facts instead of the definitions.
\<close>

subsection \<open>Steps that leave the round alone\<close>

fun is_CommitBlock :: "effect \<Rightarrow> bool" where
  "is_CommitBlock (CommitBlock p seals) = True"
| "is_CommitBlock _ = False"

text \<open>The messages a core holds: in the backlogs, in the timer of a future block, in posted events.\<close>

definition queue_messages :: "message prque \<Rightarrow> message set" where
  "queue_messages q = fst ` set q"

definition queued :: "(address \<times> message prque) list \<Rightarrow> message set" where
  "queued bl = (\<Union>p \<in> set bl. queue_messages (snd p))"

definition posted :: "effect list \<Rightarrow> message set" where
  "posted es = {m. \<exists>src. Post (BacklogEvent src m) \<in> set es}"

definition held :: "core \<Rightarrow> message set" where
  "held c = queued (backlogs c) \<union> posted (effects c) \<union>
     (case futurePreprepareTimer c of None \<Rightarrow> {} | Some t \<Rightarrow> {snd (snd t)})"

lemma posted_append [simp]: "posted (es @ es') = posted es \<union> posted es'"
  by (auto simp: posted_def)

lemma posted_Nil [simp]: "posted [] = {}"
  by (simp add: posted_def)

lemma posted_Cons [simp]:
  "posted (e # es) = (case e of Post (BacklogEvent src m) \<Rightarrow> insert m (posted es) | _ \<Rightarrow> posted es)"
  by (auto simp: posted_def split: effect.split event.split)

lemma queue_messages_Push: "queue_messages (prque_Push q m p) = insert m (queue_messages q)"
proof -
  have "set_mset (mset (prque_Push q m p)) = insert (m, p) (set_mset (mset q))"
    by (simp add: prque_Push_mset)
  then show ?thesis by (simp add: queue_messages_def)
qed

lemma queue_messages_Pop:
  assumes "prque_Pop q = Some ((m, p), q')"
  shows "queue_messages q = insert m (queue_messages q')"
proof -
  have "set_mset (mset q) = insert (m, p) (set_mset (mset q'))"
    using prque_Pop_mset [OF assms] by simp
  then show ?thesis by (simp add: queue_messages_def)
qed

lemma queued_simps [simp]: "queued [] = {}" "queued (p # bl) = queue_messages (snd p) \<union> queued bl"
  by (simp_all add: queued_def)

definition quiet :: "core \<Rightarrow> core \<Rightarrow> bool" where
  "quiet c c' \<longleftrightarrow>
     RequestTimeout c' = RequestTimeout c \<and> c_address c' = c_address c \<and> state c' = state c \<and>
     valSet c' = valSet c \<and> waitingForRoundChange c' = waitingForRoundChange c \<and>
     current c' = current c \<and> c_roundChangeSet c' = c_roundChangeSet c \<and>
     held c' \<subseteq> held c \<and>
     (\<exists>es. effects c' = effects c @ es \<and> \<not> list_ex is_CommitBlock es)"

lemma quietD:
  assumes "quiet c c'"
  shows "state c' = state c" "valSet c' = valSet c" "current c' = current c"
    "waitingForRoundChange c' = waitingForRoundChange c" "c_address c' = c_address c"
    "c_roundChangeSet c' = c_roundChangeSet c" "RequestTimeout c' = RequestTimeout c"
    "\<exists>es. effects c' = effects c @ es \<and> \<not> list_ex is_CommitBlock es"
    "held c' \<subseteq> held c"
  using assms by (simp_all add: quiet_def)

lemma quiet_refl [simp, intro]: "quiet c c"
  by (simp add: quiet_def)

lemma quiet_trans [trans]:
  assumes "quiet a b" "quiet b c"
  shows "quiet a c"
proof -
  obtain es es' where "effects b = effects a @ es" "effects c = effects b @ es'"
    "\<not> list_ex is_CommitBlock es" "\<not> list_ex is_CommitBlock es'"
    using quietD(8) [OF assms(1)] quietD(8) [OF assms(2)] by blast
  then have "\<exists>es. effects c = effects a @ es \<and> \<not> list_ex is_CommitBlock es"
    by (intro exI [of _ "es @ es'"]) simp
  with quietD [OF assms(1)] quietD [OF assms(2)] show ?thesis by (simp add: quiet_def)
qed

lemma quiet_emits: "\<not> list_ex is_CommitBlock es \<Longrightarrow> posted es \<subseteq> held c \<Longrightarrow> quiet c (emits es c)"
  unfolding quiet_def emits_def held_def by simp blast

lemma quiet_emit: "\<not> is_CommitBlock e \<Longrightarrow> posted [e] = {} \<Longrightarrow> quiet c (emit e c)"
  by (auto simp: quiet_def emit_def held_def)

lemma quiet_fields:
  "quiet c (c\<lparr>pendingRequests := pr\<rparr>)" "quiet c (c\<lparr>roundChangeTimer := t\<rparr>)"
  "quiet c (c\<lparr>futurePreprepareTimer := None\<rparr>)"
  by (simp_all add: quiet_def held_def)

text \<open>A core on which a round runs.\<close>

definition running :: "core \<Rightarrow> bool" where
  "running c \<longleftrightarrow> current c \<noteq> None \<and> valSet c \<noteq> None \<and> c_roundChangeSet c \<noteq> None"

lemma quiet_running: "quiet c c' \<Longrightarrow> running c' = running c"
  by (simp add: quiet_def running_def)

lemma quiet_currentView: "quiet c c' \<Longrightarrow> currentView c' = currentView c"
  by (simp add: quiet_def currentView_def)

subsection \<open>Queues\<close>

lemma checkMessage_total: "current c \<noteq> None \<Longrightarrow> \<exists>r. checkMessage c code vo = Some r"
  by (cases vo) (auto simp: checkMessage_def currentView_def)

lemma drainBacklog_total:
  "current c \<noteq> None \<Longrightarrow>
     \<exists>r es. drainBacklog be c src q = Some (r, es) \<and> \<not> list_ex is_CommitBlock es \<and>
       queue_messages r \<union> posted es \<subseteq> queue_messages q"
proof (induction be c src q rule: drainBacklog.induct)
  case (1 be c src q)
  show ?case
  proof (cases "prque_Pop q")
    case None
    then show ?thesis by (simp add: drainBacklog.simps [of be c src q])
  next
    case (Some pq)
    obtain msg p q' where pq: "pq = ((msg, p), q')" by (metis surj_pair)
    note pop = Some [unfolded pq]
    note q = queue_messages_Pop [OF pop] queue_messages_Push [of q' msg p]
    show ?thesis
    proof (cases "message_view be msg")
      case None
      then show ?thesis
        using "1.IH"(1) [OF pop refl refl None] "1.prems" pop q
        by (auto simp: drainBacklog.simps [of be c src q])
    next
      case (Some view)
      obtain r where r: "checkMessage c (Code msg) (Some view) = Some r"
        using checkMessage_total [OF "1.prems"] by blast
      show ?thesis
      proof (cases r)
        case None
        then show ?thesis
          using "1.IH"(2) [OF pop refl refl Some r None] "1.prems" pop Some r q
          by (auto simp: drainBacklog.simps [of be c src q])
      next
        case (Some e)
        show ?thesis
        proof (cases "e = errFutureMessage")
          case True
          then show ?thesis
            using pop \<open>message_view be msg = Some view\<close> r Some q
            by (simp add: drainBacklog.simps [of be c src q])
        next
          case False
          then show ?thesis
            using "1.IH"(3) [OF pop refl refl \<open>message_view be msg = Some view\<close> r Some False]
              "1.prems" pop \<open>message_view be msg = Some view\<close> r Some q
            by (auto simp: drainBacklog.simps [of be c src q])
        qed
      qed
    qed
  qed
qed

lemma processBacklogs_total:
  "current c \<noteq> None \<Longrightarrow>
     \<exists>bl es. processBacklogs be c vs qs = Some (bl, es) \<and> \<not> list_ex is_CommitBlock es \<and>
       queued bl \<union> posted es \<subseteq> queued qs"
proof (induction qs)
  case Nil
  then show ?case by simp
next
  case (Cons aq qs)
  obtain a q where aq: "aq = (a, q)" by (cases aq)
  obtain bl es where IH: "processBacklogs be c vs qs = Some (bl, es)" "\<not> list_ex is_CommitBlock es"
    "queued bl \<subseteq> queued qs" "posted es \<subseteq> queued qs"
    using Cons.IH [OF Cons.prems] by auto
  obtain r es' where "drainBacklog be c a q = Some (r, es')" "\<not> list_ex is_CommitBlock es'"
    "queue_messages r \<subseteq> queue_messages q" "posted es' \<subseteq> queue_messages q"
    using drainBacklog_total [OF Cons.prems, of be a q] by auto
  with IH aq show ?case by simp blast
qed

lemma processBacklog_quiet:
  assumes "current c \<noteq> None" "valSet c \<noteq> None"
  shows "\<exists>c'. processBacklog be c = Some c' \<and> quiet c c'"
proof (cases "backlogs c = []")
  case True
  then show ?thesis by (simp add: processBacklog_def)
next
  case False
  obtain vs where vs: "valSet c = Some vs" using assms(2) by blast
  obtain bl es where "processBacklogs be c vs (backlogs c) = Some (bl, es)"
    and es: "\<not> list_ex is_CommitBlock es" "queued bl \<union> posted es \<subseteq> queued (backlogs c)"
    using processBacklogs_total [OF assms(1)] by blast
  with False vs have "processBacklog be c = Some (emits es (c\<lparr>backlogs := bl\<rparr>))"
    by (simp add: processBacklog_def)
  moreover have "quiet c (emits es (c\<lparr>backlogs := bl\<rparr>))"
    using es unfolding quiet_def emits_def held_def by simp blast
  ultimately show ?thesis by blast
qed

lemma checkRequestMsg_total: "current c \<noteq> None \<Longrightarrow> \<exists>r. checkRequestMsg c ro = Some r"
  by (auto simp: checkRequestMsg_def split: option.splits)

lemma drainRequests_total:
  "current c \<noteq> None \<Longrightarrow>
     \<exists>r es. drainRequests c q = Some (r, es) \<and> \<not> list_ex is_CommitBlock es \<and> posted es = {}"
proof (induction c q rule: drainRequests.induct)
  case (1 c q)
  show ?case
  proof (cases "prque_Pop q")
    case None
    then show ?thesis by (simp add: drainRequests.simps [of c q])
  next
    case (Some pq)
    obtain msg p q' where pq: "pq = ((msg, p), q')" by (metis surj_pair)
    note pop = Some [unfolded pq]
    obtain r where r: "checkRequestMsg c (Some msg) = Some r"
      using checkRequestMsg_total [OF "1.prems"] by blast
    show ?thesis
    proof (cases r)
      case None
      then show ?thesis
        using "1.IH"(1) [OF pop refl refl r None] "1.prems" pop r
        by (auto simp: drainRequests.simps [of c q])
    next
      case (Some e)
      then show ?thesis
        using "1.IH"(2) [OF pop refl refl r Some] "1.prems" pop r
        by (cases "e = errFutureMessage") (auto simp: drainRequests.simps [of c q])
    qed
  qed
qed

lemma processPendingRequests_quiet:
  assumes "current c \<noteq> None"
  shows "\<exists>c'. processPendingRequests c = Some c' \<and> quiet c c'"
proof -
  obtain q es where "drainRequests c (pendingRequests c) = Some (q, es)"
    and es: "\<not> list_ex is_CommitBlock es" "posted es = {}"
    using drainRequests_total [OF assms] by blast
  then have "processPendingRequests c = Some (emits es (c\<lparr>pendingRequests := q\<rparr>))"
    by (simp add: processPendingRequests_def)
  moreover have "quiet c (emits es (c\<lparr>pendingRequests := q\<rparr>))"
    using quiet_trans [OF quiet_fields(1) quiet_emits [OF es(1)]] es(2) by simp
  ultimately show ?thesis by blast
qed

lemma setState_quiet:
  assumes "current c \<noteq> None" "valSet c \<noteq> None"
  shows "\<exists>c'. setState be st c = Some c' \<and> quiet (c\<lparr>state := st\<rparr>) c'"
proof -
  have c1: "(if state c \<noteq> st then c\<lparr>state := st\<rparr> else c) = c\<lparr>state := st\<rparr>" by simp
  obtain c2 where c2: "(if st = StateAcceptRequest then processPendingRequests (c\<lparr>state := st\<rparr>)
      else Some (c\<lparr>state := st\<rparr>)) = Some c2" "quiet (c\<lparr>state := st\<rparr>) c2"
  proof (cases "st = StateAcceptRequest")
    case True
    then show ?thesis
      using processPendingRequests_quiet [of "c\<lparr>state := st\<rparr>"] assms(1) that by auto
  qed (use that in auto)
  moreover obtain c3 where "processBacklog be c2 = Some c3" "quiet c2 c3"
    using processBacklog_quiet [of c2] quietD [OF c2(2)] assms by auto
  ultimately show ?thesis
    unfolding setState_def c1 using quiet_trans by fastforce
qed

subsection \<open>Sending\<close>

lemma finalizeMessage_total: "current c \<noteq> None \<Longrightarrow> \<exists>r. finalizeMessage be c msg = Some r"
  by (auto simp: finalizeMessage_def committedSeal_def)

lemma broadcast_quiet:
  assumes "running c"
  shows "\<exists>c'. broadcast be msg c = Some c' \<and> quiet c c'"
proof -
  obtain vs where vs: "valSet c = Some vs" and cur: "current c \<noteq> None"
    using assms by (auto simp: running_def)
  obtain r where "finalizeMessage be c msg = Some r"
    using finalizeMessage_total [OF cur] by blast
  with vs show ?thesis
    by (cases r) (simp_all add: broadcast_def quiet_emit)
qed

lemma sendPreprepare_quiet:
  assumes "running c" "req_Proposal r \<noteq> None"
  shows "\<exists>c'. sendPreprepare be r c = Some c' \<and> quiet c c'"
proof -
  obtain s p where s: "current c = Some s" and p: "req_Proposal r = Some p"
    using assms by (auto simp: running_def)
  have view: "currentView c = Some \<lparr>Round = rs_round s, Sequence = rs_sequence s\<rparr>"
    using s by (simp add: currentView_def)
  show ?thesis
    using s p view broadcast_quiet [OF assms(1)]
    by (simp add: sendPreprepare_def split: option.splits)
qed

lemma sendPrepare_quiet:
  assumes "running c"
  shows "\<exists>c'. sendPrepare be c = Some c' \<and> quiet c c'"
proof -
  obtain s where "current c = Some s" using assms by (auto simp: running_def)
  then show ?thesis
    using broadcast_quiet [OF assms] by (simp add: sendPrepare_def split: option.splits)
qed

lemma broadcastCommit_quiet:
  "running c \<Longrightarrow> \<exists>c'. broadcastCommit be sub c = Some c' \<and> quiet c c'"
  using broadcast_quiet by (simp add: broadcastCommit_def split: option.splits)

lemma sendCommit_quiet:
  assumes "running c"
  shows "\<exists>c'. sendCommit be c = Some c' \<and> quiet c c'"
proof -
  obtain s where "current c = Some s" using assms by (auto simp: running_def)
  then show ?thesis
    using broadcastCommit_quiet [OF assms] by (simp add: sendCommit_def)
qed

lemma newRoundChangeTimer_quiet:
  assumes "current c \<noteq> None"
  shows "\<exists>c'. newRoundChangeTimer c = Some c' \<and> quiet c c'"
  using assms
  by (auto simp: newRoundChangeTimer_def stopTimer_def stopFuturePreprepareTimer_def quiet_def held_def
      split: option.splits)

subsection \<open>Moving to another round\<close>

text \<open>What a round hands to the next one of the same sequence: the request, and the locked proposal.\<close>

definition carried :: "Backend \<Rightarrow> View \<Rightarrow> defaultSet \<Rightarrow> roundState \<Rightarrow> roundState" where
  "carried be view vs s =
     (if IsHashLocked be s
      then newRoundState view vs (lockedHash s) (rs_Preprepare s) (pendingRequest s)
      else newRoundState view vs 0 None (pendingRequest s))"

lemma carried_simps [simp]:
  "rs_round (carried be view vs s) = Round view"
  "rs_sequence (carried be view vs s) = Sequence view"
  "Prepares (carried be view vs s) = newMessageSet vs"
  "Commits (carried be view vs s) = newMessageSet vs"
  "pendingRequest (carried be view vs s) = pendingRequest s"
  by (simp_all add: carried_def)

lemma updateRoundState_eq:
  "updateRoundState be view vs roundChange c =
     c\<lparr>current := Some (case current c of
         Some s \<Rightarrow> if roundChange then carried be view vs s else newRoundState view vs 0 None None
       | None \<Rightarrow> newRoundState view vs 0 None None)\<rparr>"
  by (simp add: updateRoundState_def carried_def GetLockedHash_def split: option.splits)

definition movedRound :: "Backend \<Rightarrow> int \<Rightarrow> roundState \<Rightarrow> defaultSet \<Rightarrow> roundChangeSet \<Rightarrow> core \<Rightarrow> core" where
  "movedRound be rnd s vs rcs c =
     c\<lparr>waitingForRoundChange := True,
       current := Some (carried be \<lparr>Round = rnd, Sequence = rs_sequence s\<rparr> vs s),
       c_roundChangeSet := Some (rcs_Clear rcs rnd)\<rparr>"

lemma sendRoundChange_spec:
  assumes c: "current c = Some s" "valSet c = Some vs" "c_roundChangeSet c = Some rcs"
  shows "\<exists>c'. sendRoundChange be rnd c = Some c' \<and>
           (if rs_round s < rnd then quiet (movedRound be rnd s vs rcs c) c' else c' = c)"
proof (cases "rs_round s < rnd")
  case False
  then show ?thesis using c by (simp add: sendRoundChange_def currentView_def)
next
  case True
  let ?v = "\<lparr>Round = rnd, Sequence = rs_sequence s\<rparr>"
  obtain c1 where c1: "newRoundChangeTimer (movedRound be rnd s vs rcs c) = Some c1"
    "quiet (movedRound be rnd s vs rcs c) c1"
    using newRoundChangeTimer_quiet [of "movedRound be rnd s vs rcs c"] by (auto simp: movedRound_def)
  have "catchUpRound be ?v c = Some c1"
    using c c1(1) by (simp add: catchUpRound_def updateRoundState_eq movedRound_def)
  moreover have run: "running c1"
    using quiet_running [OF c1(2)] c by (simp add: running_def movedRound_def)
  moreover obtain cv1 where "currentView c1 = Some cv1"
    using run by (auto simp: running_def currentView_def)
  moreover obtain c2 where "(case encodeSubject be (Some \<lparr>sub_View = cv1, sub_Digest = 0\<rparr>) of
      None \<Rightarrow> Some c1 | Some payload \<Rightarrow> broadcast be (new_message msgRoundChange payload) c1) = Some c2"
    "quiet c1 c2"
    using broadcast_quiet [OF run] by (cases "encodeSubject be (Some \<lparr>sub_View = cv1, sub_Digest = 0\<rparr>)") auto
  moreover have "currentView c = Some \<lparr>Round = rs_round s, Sequence = rs_sequence s\<rparr>"
    using c by (simp add: currentView_def)
  ultimately show ?thesis
    using True quiet_trans [OF c1(2)] by (simp add: sendRoundChange_def)
qed

lemma sendNextRoundChange_spec:
  assumes c: "current c = Some s" "valSet c = Some vs" "c_roundChangeSet c = Some rcs"
  shows "\<exists>c'. sendNextRoundChange be c = Some c' \<and> quiet (movedRound be (rs_round s + 1) s vs rcs c) c'"
  using sendRoundChange_spec [OF c, of be "rs_round s + 1"] c
  by (simp add: sendNextRoundChange_def currentView_def)

definition enteredRound ::
  "Backend \<Rightarrow> View \<Rightarrow> defaultSet \<Rightarrow> address \<Rightarrow> roundState option \<Rightarrow> core \<Rightarrow> core" where
  "enteredRound be view vs lastProposer so c =
     c\<lparr>valSet := Some (CalcProposer vs lastProposer (Uint64 (Round view))),
       c_roundChangeSet := Some (newRoundChangeSet vs), waitingForRoundChange := False,
       state := StateAcceptRequest,
       current := Some (case so of Some s \<Rightarrow> carried be view vs s
                                 | None \<Rightarrow> newRoundState view vs 0 None None)\<rparr>"

text \<open>What makes a round state safe to propose from again: a lock has its proposal, a request too.\<close>

definition reproposable :: "roundState \<Rightarrow> bool" where
  "reproposable s \<longleftrightarrow> (lockedHash s \<noteq> 0 \<longrightarrow> rs_Preprepare s \<noteq> None) \<and>
     (\<forall>r. pendingRequest s = Some r \<longrightarrow> req_Proposal r \<noteq> None)"

lemma reproposable_new: "reproposable (newRoundState view vs 0 None None)"
  by (simp add: reproposable_def)

lemma reproposable_carried: "reproposable s \<Longrightarrow> reproposable (carried be view vs s)"
  by (simp add: reproposable_def carried_def)

lemma enterRound_spec:
  assumes "so = (if roundChange then current c else None)"
    and "\<And>s. so = Some s \<Longrightarrow> reproposable s"
  shows "\<exists>c'. enterRound be view vs lp roundChange c = Some c' \<and>
           quiet (enteredRound be view vs lp so c) c'"
proof -
  define s where "s = (case so of Some s \<Rightarrow> carried be view vs s | None \<Rightarrow> newRoundState view vs 0 None None)"
  have rep: "reproposable s"
    using assms(2) by (auto simp: s_def reproposable_new reproposable_carried split: option.splits)
  define c2 where "c2 = c\<lparr>valSet := Some (CalcProposer vs lp (Uint64 (Round view))),
    c_roundChangeSet := Some (newRoundChangeSet vs), waitingForRoundChange := False, current := Some s\<rparr>"
  have upd: "(updateRoundState be view vs roundChange
       (c\<lparr>valSet := Some vs, c_roundChangeSet := Some (newRoundChangeSet vs)\<rparr>))
      \<lparr>valSet := Some (CalcProposer vs lp (Uint64 (Round view))), waitingForRoundChange := False\<rparr> = c2"
    using assms(1) by (auto simp: updateRoundState_eq c2_def s_def split: option.splits)
  have c2_state: "c2\<lparr>state := StateAcceptRequest\<rparr> = enteredRound be view vs lp so c"
    by (simp add: c2_def enteredRound_def s_def)
  obtain c3 where c3: "setState be StateAcceptRequest c2 = Some c3"
    "quiet (enteredRound be view vs lp so c) c3"
    using setState_quiet [of c2 be StateAcceptRequest] by (auto simp: c2_state) (auto simp: c2_def)
  have cur3: "current c3 = Some s" and run: "running c3"
    using quietD [OF c3(2)] by (simp_all add: running_def enteredRound_def s_def)
  define act where "act = (if roundChange \<and> core_IsProposer be c3 then
      if IsHashLocked be s then sendPreprepare be \<lparr>req_Proposal = rs_Proposal s\<rparr> c3
      else (case pendingRequest s of Some r \<Rightarrow> sendPreprepare be r c3 | None \<Rightarrow> Some c3)
    else Some c3)"
  have "\<exists>c4. act = Some c4 \<and> quiet c3 c4"
  proof -
    have "\<exists>c4. sendPreprepare be \<lparr>req_Proposal = rs_Proposal s\<rparr> c3 = Some c4 \<and> quiet c3 c4"
      if "IsHashLocked be s"
      using that rep by (intro sendPreprepare_quiet [OF run])
        (auto simp: reproposable_def rs_Proposal_def IsHashLocked_def EmptyHash_def split: if_splits)
    moreover have "\<exists>c4. sendPreprepare be r c3 = Some c4 \<and> quiet c3 c4" if "pendingRequest s = Some r" for r
      using that rep by (intro sendPreprepare_quiet [OF run]) (simp add: reproposable_def)
    ultimately show ?thesis
      by (cases "pendingRequest s") (simp_all add: act_def)
  qed
  then obtain c4 where c4: "act = Some c4" "quiet c3 c4" by blast
  obtain c5 where c5: "newRoundChangeTimer c4 = Some c5" "quiet c4 c5"
    using newRoundChangeTimer_quiet [of c4] quietD(3) [OF c4(2)] cur3 by auto
  have "enterRound be view vs lp roundChange c = Some c5"
    unfolding enterRound_def
    using c3(1) c4(1) c5(1) cur3 by (simp add: upd act_def)
  with quiet_trans [OF c3(2) quiet_trans [OF c4(2) c5(2)]] show ?thesis by blast
qed

end
