(* ===== verification/Core_Invariant.thy ===== *)
theory Core_Invariant
  imports Core_Frame
begin

text \<open>
  The invariant of the consensus core and its preservation by every handler. It says that the votes
  of the running round are those the code means to count: PREPARE and COMMIT messages that were
  delivered, from distinct validators of the current set, each for exactly the view and digest the
  node itself accepted; that a node past the PREPARE quorum is locked on the proposal of its round;
  and that whatever the node may have to propose again is there.

  Every message the core holds for later was delivered, too.
  The parameters are the decoder \<open>dec\<close> of subjects, the set \<open>D\<close> of messages delivered so far and
  the set \<open>W\<close> of validator lists the backend has supplied; both only grow along a run.
\<close>

subsection \<open>The invariant\<close>

definition vote_ok ::
  "(bytes \<Rightarrow> Subject option) \<Rightarrow> message set \<Rightarrow> uint64 \<Rightarrow> roundState \<Rightarrow> message \<Rightarrow> bool" where
  "vote_ok dec D code s m \<longleftrightarrow>
     m \<in> D \<and> Code m = code \<and> rs_Subject s \<noteq> None \<and> dec (Msg m) = rs_Subject s"

definition votes_ok ::
  "(bytes \<Rightarrow> Subject option) \<Rightarrow> message set \<Rightarrow> validator list \<Rightarrow> roundState \<Rightarrow> bool" where
  "votes_ok dec D vl s \<longleftrightarrow> rs_wf s \<and>
     validators (ms_valSet (Prepares s)) = vl \<and> validators (ms_valSet (Commits s)) = vl \<and>
     list_all (vote_ok dec D msgPrepare s) (ms_Values (Prepares s)) \<and>
     list_all (vote_ok dec D msgCommit s) (ms_Values (Commits s))"

definition locked_on_proposal :: "roundState \<Rightarrow> bool" where
  "locked_on_proposal s \<longleftrightarrow>
     (\<exists>pp. rs_Preprepare s = Some pp \<and> lockedHash s = Hash (pp_Proposal pp))"

definition phase_ok :: "State \<Rightarrow> bool \<Rightarrow> roundState \<Rightarrow> bool" where
  "phase_ok st waiting s \<longleftrightarrow>
     (st = StateAcceptRequest \<longrightarrow> ms_Values (Prepares s) = [] \<and> ms_Values (Commits s) = []) \<and>
     (st = StatePreprepared \<and> \<not> waiting \<longrightarrow> rs_Preprepare s \<noteq> None) \<and>
     (st \<in> {StatePrepared, StateCommitted} \<and> \<not> waiting \<longrightarrow> locked_on_proposal s)"

definition core_inv ::
  "(bytes \<Rightarrow> Subject option) \<Rightarrow> message set \<Rightarrow> validator list set \<Rightarrow> core \<Rightarrow> bool" where
  "core_inv dec D W c \<longleftrightarrow>
     (\<exists>s vs rcs. current c = Some s \<and> valSet c = Some vs \<and> c_roundChangeSet c = Some rcs \<and>
        validators vs \<in> W \<and> rcs_wf rcs \<and> validators (rcs_validatorSet rcs) = validators vs \<and>
        votes_ok dec D (validators vs) s \<and> reproposable s \<and>
        phase_ok (state c) (waitingForRoundChange c) s) \<and> held c \<subseteq> D"

lemma core_invE:
  assumes "core_inv dec D W c"
  obtains s vs rcs where "current c = Some s" "valSet c = Some vs" "c_roundChangeSet c = Some rcs"
    "validators vs \<in> W" "rcs_wf rcs" "validators (rcs_validatorSet rcs) = validators vs"
    "votes_ok dec D (validators vs) s" "reproposable s"
    "phase_ok (state c) (waitingForRoundChange c) s" "held c \<subseteq> D"
  using assms unfolding core_inv_def by blast

lemma core_inv_running: "core_inv dec D W c \<Longrightarrow> running c"
  by (auto simp: core_inv_def running_def)

lemma core_inv_quiet: "quiet c c' \<Longrightarrow> core_inv dec D W c \<Longrightarrow> core_inv dec D W c'"
  unfolding core_inv_def quiet_def by simp blast

lemma vote_ok_mono: "D \<subseteq> D' \<Longrightarrow> vote_ok dec D code s m \<Longrightarrow> vote_ok dec D' code s m"
  by (auto simp: vote_ok_def)

lemma core_inv_mono:
  assumes "core_inv dec D W c" "D \<subseteq> D'" "W \<subseteq> W'"
  shows "core_inv dec D' W' c"
proof -
  have "votes_ok dec D' vl s" if "votes_ok dec D vl s" for vl s
    using that vote_ok_mono [OF assms(2)] by (auto simp: votes_ok_def elim!: list.pred_mono_strong)
  with assms show ?thesis
    unfolding core_inv_def by blast
qed

subsection \<open>Steps\<close>

text \<open>
  A step keeps the invariant and never moves back in the order of views; every block it hands to the
  backend satisfies \<open>P\<close>.
\<close>

definition step_ok ::
  "(bytes \<Rightarrow> Subject option) \<Rightarrow> message set \<Rightarrow> validator list set \<Rightarrow> (effect \<Rightarrow> bool)
     \<Rightarrow> core \<Rightarrow> core \<Rightarrow> bool" where
  "step_ok dec D W P c c' \<longleftrightarrow> core_inv dec D W c' \<and>
     (\<exists>v v'. currentView c = Some v \<and> currentView c' = Some v' \<and> view_le v v') \<and>
     (\<exists>es. effects c' = effects c @ es \<and> list_all (\<lambda>e. is_CommitBlock e \<longrightarrow> P e) es)"

lemma no_commits_all: "\<not> list_ex is_CommitBlock es \<Longrightarrow> list_all (\<lambda>e. is_CommitBlock e \<longrightarrow> P e) es"
  by (induction es) auto

lemma step_ok_quiet:
  assumes "step_ok dec D W P c c1" "quiet c1 c2"
  shows "step_ok dec D W P c c2"
proof -
  obtain es es' where es: "effects c1 = effects c @ es" "list_all (\<lambda>e. is_CommitBlock e \<longrightarrow> P e) es"
    "effects c2 = effects c1 @ es'" "\<not> list_ex is_CommitBlock es'"
    using assms(1) quietD(8) [OF assms(2)] unfolding step_ok_def by blast
  then have "\<exists>es. effects c2 = effects c @ es \<and> list_all (\<lambda>e. is_CommitBlock e \<longrightarrow> P e) es"
    using no_commits_all by (intro exI [of _ "es @ es'"]) simp
  with assms show ?thesis
    unfolding step_ok_def using core_inv_quiet by (simp add: quiet_currentView)
qed

lemma core_inv_view: "core_inv dec D W c \<Longrightarrow> \<exists>v. currentView c = Some v"
  by (auto simp: core_inv_def currentView_def)

lemma step_ok_refl: "core_inv dec D W c \<Longrightarrow> step_ok dec D W P c c"
  using core_inv_view by (fastforce simp: step_ok_def)

lemma quiet_step_ok: "core_inv dec D W c \<Longrightarrow> quiet c c' \<Longrightarrow> step_ok dec D W P c c'"
  using step_ok_refl step_ok_quiet by blast

lemma step_ok_trans:
  assumes "step_ok dec D W P a b" "step_ok dec D W P b c"
  shows "step_ok dec D W P a c"
proof -
  obtain es es' where "effects b = effects a @ es" "effects c = effects b @ es'"
    "list_all (\<lambda>e. is_CommitBlock e \<longrightarrow> P e) es" "list_all (\<lambda>e. is_CommitBlock e \<longrightarrow> P e) es'"
    using assms unfolding step_ok_def by blast
  then have "\<exists>es. effects c = effects a @ es \<and> list_all (\<lambda>e. is_CommitBlock e \<longrightarrow> P e) es"
    by (intro exI [of _ "es @ es'"]) simp
  moreover have "\<exists>v v'. currentView a = Some v \<and> currentView c = Some v' \<and> view_le v v'"
    using assms view_le_trans unfolding step_ok_def by fastforce
  ultimately show ?thesis using assms(2) unfolding step_ok_def by blast
qed

lemma votes_ok_new: "votes_ok dec D (validators vs) (newRoundState view vs h pp r)"
  by (simp add: votes_ok_def rs_wf_def) (simp add: newMessageSet_def ms_Values_def)

lemma votes_ok_carried: "votes_ok dec D (validators vs) (carried be view vs s)"
  by (simp add: carried_def votes_ok_new)

lemma ms_Values_new [simp]: "ms_Values (newMessageSet vs) = []"
  by (simp add: newMessageSet_def ms_Values_def)

lemma movedRound_inv:
  assumes "validators vs \<in> W" "rcs_wf rcs" "validators (rcs_validatorSet rcs) = validators vs"
    and "reproposable s" "valSet c = Some vs" "held c \<subseteq> D"
  shows "core_inv dec D W (movedRound be rnd s vs rcs c)"
  using assms unfolding core_inv_def movedRound_def
  by (simp add: rcs_wf_Clear votes_ok_carried reproposable_carried phase_ok_def held_def)

lemma movedRound_ok:
  assumes inv: "core_inv dec D W c"
    and c: "current c = Some s" "valSet c = Some vs" "c_roundChangeSet c = Some rcs"
    and rnd: "rs_round s < rnd"
  shows "step_ok dec D W P c (movedRound be rnd s vs rcs c)"
proof -
  have "core_inv dec D W (movedRound be rnd s vs rcs c)"
    using inv c by (auto elim!: core_invE intro: movedRound_inv)
  then show ?thesis
    using c rnd by (simp add: step_ok_def currentView_def movedRound_def view_le_def)
qed

lemma sendRoundChange_ok:
  assumes inv: "core_inv dec D W c"
  shows "\<exists>c'. sendRoundChange be rnd c = Some c' \<and> step_ok dec D W P c c'"
proof -
  obtain s vs rcs where c: "current c = Some s" "valSet c = Some vs" "c_roundChangeSet c = Some rcs"
    using inv by (rule core_invE)
  obtain c' where c': "sendRoundChange be rnd c = Some c'"
    "if rs_round s < rnd then quiet (movedRound be rnd s vs rcs c) c' else c' = c"
    using sendRoundChange_spec [OF c] by blast
  then show ?thesis
    using movedRound_ok [OF inv c, of rnd P be] step_ok_quiet step_ok_refl [OF inv]
    by (cases "rs_round s < rnd") auto
qed

lemma sendNextRoundChange_ok:
  assumes inv: "core_inv dec D W c"
  shows "\<exists>c'. sendNextRoundChange be c = Some c' \<and> step_ok dec D W P c c'"
proof -
  obtain v where "currentView c = Some v" using core_inv_view [OF inv] by blast
  then show ?thesis
    using sendRoundChange_ok [OF inv] by (simp add: sendNextRoundChange_def)
qed

lemma enteredRound_inv:
  assumes "validators vs \<in> W" "\<And>s. so = Some s \<Longrightarrow> reproposable s" "held c \<subseteq> D"
  shows "core_inv dec D W (enteredRound be view vs lp so c)"
  using assms unfolding core_inv_def enteredRound_def
  by (cases so) (simp_all add: newRoundChangeSet_def [THEN arg_cong [of _ _ rcs_validatorSet]]
      votes_ok_carried votes_ok_new reproposable_carried reproposable_new phase_ok_def held_def)

lemma enteredRound_ok:
  assumes "core_inv dec D W c" "validators vs \<in> W" "\<And>s. so = Some s \<Longrightarrow> reproposable s"
    and "currentView c = Some v" "view_le v view"
  shows "step_ok dec D W P c (enteredRound be view vs lp so c)"
proof -
  have "currentView (enteredRound be view vs lp so c) = Some view"
    by (cases so) (simp_all add: currentView_def enteredRound_def)
  moreover have "effects (enteredRound be view vs lp so c) = effects c"
    by (simp add: enteredRound_def)
  ultimately show ?thesis
    using assms(4,5) enteredRound_inv [OF assms(2,3), of so c D dec be view lp] assms(1)
    by (simp add: step_ok_def core_inv_def)
qed

lemma startNewRound_ok:
  assumes inv: "core_inv dec D W c"
    and lp: "fst (LastProposal be) = Some lp" and vl: "validators (Validators be lp) \<in> W"
  shows "\<exists>c'. startNewRound be rnd c = Some c' \<and> step_ok dec D W P c c'"
proof -
  obtain s vs rcs where c: "current c = Some s" "valSet c = Some vs" "c_roundChangeSet c = Some rcs"
    and s: "validators vs \<in> W" "reproposable s"
    using inv by (rule core_invE)
  obtain addr where last: "LastProposal be = (Some lp, addr)" using lp by (cases "LastProposal be") auto
  have view: "currentView c = Some \<lparr>Round = rs_round s, Sequence = rs_sequence s\<rparr>"
    using c by (simp add: currentView_def)
  obtain plan where plan: "planRound c (Some lp) rnd = Some plan"
    using c by (simp add: planRound_def)
  show ?thesis
  proof (cases plan)
    case Stay
    then show ?thesis using plan last step_ok_refl [OF inv] by (simp add: startNewRound_def)
  next
    case NextRound
    let ?v = "\<lparr>Round = rnd, Sequence = rs_sequence s\<rparr>"
    have "view_le \<lparr>Round = rs_round s, Sequence = rs_sequence s\<rparr> ?v"
      using plan NextRound c by (auto simp: planRound_def view_le_def split: if_splits)
    then have "step_ok dec D W P c (enteredRound be ?v vs addr (Some s) c)"
      using enteredRound_ok [OF inv s(1) _ view] s(2) by blast
    moreover obtain c' where "enterRound be ?v vs addr True c = Some c'"
      "quiet (enteredRound be ?v vs addr (Some s) c) c'"
      using enterRound_spec [of "Some s" True c be ?v vs addr] c s(2) by auto
    ultimately show ?thesis
      using plan NextRound last c step_ok_quiet by (auto simp: startNewRound_def)
  next
    case NewSequence
    let ?v = "\<lparr>Round = 0, Sequence = Number lp + 1\<rparr>"
    have "view_le \<lparr>Round = rs_round s, Sequence = rs_sequence s\<rparr> ?v"
      using plan NewSequence c by (auto simp: planRound_def view_le_def split: if_splits)
    then have "step_ok dec D W P c (enteredRound be ?v (Validators be lp) addr None c)"
      using enteredRound_ok [OF inv vl _ view] by blast
    moreover obtain c' where "enterRound be ?v (Validators be lp) addr False c = Some c'"
      "quiet (enteredRound be ?v (Validators be lp) addr None c) c'"
      using enterRound_spec [of None False c be ?v "Validators be lp" addr] by auto
    ultimately show ?thesis
      using plan NewSequence last step_ok_quiet by (auto simp: startNewRound_def)
  qed
qed


subsection \<open>Votes\<close>

text \<open>Replacing the round state and the phase of a core, at the same view.\<close>

lemma step_ok_update:
  assumes inv: "core_inv dec D W c" and c: "current c = Some s" "valSet c = Some vs"
    and view: "rs_round s' = rs_round s" "rs_sequence s' = rs_sequence s"
    and s': "votes_ok dec D (validators vs) s'" "reproposable s'"
      "phase_ok st (waitingForRoundChange c) s'"
  shows "step_ok dec D W P c (c\<lparr>current := Some s', state := st\<rparr>)"
proof -
  have "core_inv dec D W (c\<lparr>current := Some s', state := st\<rparr>)"
    using inv c s' unfolding core_inv_def held_def by simp blast
  then show ?thesis using c view by (simp add: step_ok_def currentView_def)
qed

text \<open>A message that passes \<^verbatim>\<open>checkMessage\<close> is for the current view, of a node that is in a round.\<close>

lemma checkMessage_accepts:
  assumes "checkMessage c code (Some v) = Some None" "code \<noteq> msgRoundChange"
  shows "currentView c = Some v" "\<not> waitingForRoundChange c"
    "state c = StateAcceptRequest \<Longrightarrow> code \<le> msgPreprepare"
proof -
  obtain cv where cv: "currentView c = Some cv"
    using assms by (cases "currentView c") (simp_all add: checkMessage_def)
  show "\<not> waitingForRoundChange c" "state c = StateAcceptRequest \<Longrightarrow> code \<le> msgPreprepare"
    using assms cv by (simp_all add: checkMessage_def split: if_splits)
  show "currentView c = Some v"
    using assms cv view_le_antisym
    by (auto simp: checkMessage_def view_Cmp_simps split: if_splits)
qed

lemma votes_ok_vote:
  assumes "votes_ok dec D vl s" "msg \<in> D" "dec (Msg msg) = rs_Subject s" "rs_Subject s \<noteq> None"
  shows "Code msg = msgPrepare \<Longrightarrow> votes_ok dec D vl (s\<lparr>Prepares := fst (ms_Add (Prepares s) msg)\<rparr>)"
    and "Code msg = msgCommit \<Longrightarrow> votes_ok dec D vl (s\<lparr>Commits := fst (ms_Add (Commits s) msg)\<rparr>)"
proof -
  have sub: "rs_Subject (s\<lparr>Prepares := x\<rparr>) = rs_Subject s" "rs_Subject (s\<lparr>Commits := x\<rparr>) = rs_Subject s" for x
    by (simp_all add: rs_Subject_def split: option.split)
  have ok: "vote_ok dec D code (s\<lparr>Prepares := x\<rparr>) = vote_ok dec D code s"
    "vote_ok dec D code (s\<lparr>Commits := x\<rparr>) = vote_ok dec D code s" for x code
    by (simp_all add: vote_ok_def sub fun_eq_iff)
  have new: "vote_ok dec D (Code msg) s msg" using assms by (simp add: vote_ok_def)
  have add: "list_all (vote_ok dec D (Code msg) s) (ms_Values (fst (ms_Add ms msg)))"
    if "list_all (vote_ok dec D (Code msg) s) (ms_Values ms)" for ms
    using that new ms_Values_Add unfolding list_all_iff by blast
  show "Code msg = msgPrepare \<Longrightarrow> votes_ok dec D vl (s\<lparr>Prepares := fst (ms_Add (Prepares s) msg)\<rparr>)"
    using assms(1) add unfolding votes_ok_def rs_wf_def by (simp add: ok ms_wf_Add)
  show "Code msg = msgCommit \<Longrightarrow> votes_ok dec D vl (s\<lparr>Commits := fst (ms_Add (Commits s) msg)\<rparr>)"
    using assms(1) add unfolding votes_ok_def rs_wf_def by (simp add: ok ms_wf_Add)
qed

lemma locked_on_LockHash: "rs_Subject s \<noteq> None \<Longrightarrow> locked_on_proposal (LockHash s)"
  by (auto simp: locked_on_proposal_def LockHash_def rs_Subject_def split: option.splits)

lemma votes_ok_LockHash: "votes_ok dec D vl (LockHash s) = votes_ok dec D vl s"
  by (simp add: votes_ok_def rs_wf_def vote_ok_def [abs_def])

lemma reproposable_LockHash: "reproposable s \<Longrightarrow> reproposable (LockHash s)"
  by (auto simp: reproposable_def LockHash_def split: option.splits)


subsection \<open>Commits\<close>

text \<open>
  A block handed to the backend is certified when its seals are those of COMMIT messages that were
  delivered, from more than \<open>2F\<close> distinct validators of a set the backend supplied, all for one and
  the same view and for the digest of exactly that block.
\<close>

definition commit_quorum ::
  "(bytes \<Rightarrow> Subject option) \<Rightarrow> message set \<Rightarrow> defaultSet \<Rightarrow> View \<Rightarrow> hash \<Rightarrow> message list \<Rightarrow> bool" where
  "commit_quorum dec D vs view h ms \<longleftrightarrow>
     distinct (map Address ms) \<and> int (length ms) > 2 * vs_F vs \<and>
     (\<forall>m \<in> set ms. m \<in> D \<and> Code m = msgCommit \<and> Address m \<in> set (validators vs) \<and>
        dec (Msg m) = Some \<lparr>sub_View = view, sub_Digest = h\<rparr>)"

fun certified ::
  "(bytes \<Rightarrow> Subject option) \<Rightarrow> message set \<Rightarrow> validator list set \<Rightarrow> effect \<Rightarrow> bool" where
  "certified dec D W (CommitBlock p seals) \<longleftrightarrow>
     (\<exists>vs view ms. validators vs \<in> W \<and> commit_quorum dec D vs view (Hash p) ms \<and>
        seals = map (\<lambda>m. copy_seal (CommittedSeal m)) ms)"
| "certified dec D W e \<longleftrightarrow> True"

lemma vs_F_validators: "validators vs = validators vs' \<Longrightarrow> vs_F vs = vs_F vs'"
  by (simp add: vs_F_def vs_Size_def)

lemma commits_form_quorum:
  assumes "votes_ok dec D (validators vs) s" "rs_Preprepare s = Some pp"
    and "int (ms_Size (Commits s)) > 2 * vs_F vs"
  shows "commit_quorum dec D vs \<lparr>Round = rs_round s, Sequence = rs_sequence s\<rparr>
    (Hash (pp_Proposal pp)) (ms_Values (Commits s))"
proof -
  have wf: "ms_wf (Commits s)" and vl: "validators (ms_valSet (Commits s)) = validators vs"
    and votes: "\<forall>m \<in> set (ms_Values (Commits s)). vote_ok dec D msgCommit s m"
    using assms(1) by (simp_all add: votes_ok_def rs_wf_def list_all_iff)
  have "map Address (ms_Values (Commits s)) = map fst (messages (Commits s))"
    using ms_wfD [OF wf] by (simp add: ms_Values_def)
  moreover have "amap (messages (Commits s))"
    using wf by (simp add: ms_wf_def)
  ultimately have "distinct (map Address (ms_Values (Commits s)))" by simp
  moreover have "int (length (ms_Values (Commits s))) > 2 * vs_F vs"
    using assms(3) by (simp add: ms_Values_def ms_Size_def)
  moreover have "\<forall>m \<in> set (ms_Values (Commits s)). Address m \<in> set (validators vs)"
    using ms_wfD [OF wf] vl by (auto simp: ms_Values_def)
  moreover have "rs_Subject s = Some \<lparr>sub_View = \<lparr>Round = rs_round s, Sequence = rs_sequence s\<rparr>,
      sub_Digest = Hash (pp_Proposal pp)\<rparr>"
    using assms(2) by (simp add: rs_Subject_def)
  ultimately show ?thesis
    using votes by (simp add: commit_quorum_def vote_ok_def)
qed

end
