(* ===== verification/Core_Safety.thy ===== *)
theory Core_Safety
  imports Core_Invariant
begin

text \<open>
  Every handler of the consensus core, from any core that satisfies the invariant and for any message:
  it does not panic, keeps the invariant, never moves back in the order of views, and hands a block
  to the backend only when a quorum of COMMIT messages certifies it.
\<close>

subsection \<open>Committing\<close>

lemma abandonRound_ok:
  assumes inv: "core_inv dec D W c" and s: "current c = Some s"
  shows "\<exists>c'. sendNextRoundChange be (c\<lparr>current := Some (UnlockHash s)\<rparr>) = Some c' \<and> step_ok dec D W P c c'"
proof -
  let ?c = "c\<lparr>current := Some (UnlockHash s)\<rparr>"
  obtain vs rcs where c: "valSet c = Some vs" "c_roundChangeSet c = Some rcs" "validators vs \<in> W"
    "rcs_wf rcs" "validators (rcs_validatorSet rcs) = validators vs" "reproposable s" "held c \<subseteq> D"
    using inv s by (auto elim!: core_invE)
  define c1 where "c1 = movedRound be (rs_round s + 1) (UnlockHash s) vs rcs ?c"
  have "reproposable (UnlockHash s)"
    using c(6) by (simp add: reproposable_def UnlockHash_def)
  then have "core_inv dec D W c1"
    unfolding c1_def by (intro movedRound_inv) (use c in \<open>simp_all add: held_def\<close>)
  then have "step_ok dec D W P c c1"
    using s by (simp add: step_ok_def currentView_def c1_def movedRound_def view_le_def)
  moreover obtain c' where "sendNextRoundChange be ?c = Some c'" "quiet c1 c'"
    using sendNextRoundChange_spec [of ?c "UnlockHash s" vs rcs be] c by (auto simp: c1_def)
  ultimately show ?thesis using step_ok_quiet by blast
qed

lemma step_ok_emit:
  assumes "step_ok dec D W P c c1" "is_CommitBlock e \<longrightarrow> P e" "posted [e] = {}"
  shows "step_ok dec D W P c (emit e c1)"
proof -
  obtain es where "effects c1 = effects c @ es" "list_all (\<lambda>e. is_CommitBlock e \<longrightarrow> P e) es"
    using assms(1) by (auto simp: step_ok_def)
  then have "\<exists>es. effects (emit e c1) = effects c @ es \<and> list_all (\<lambda>e. is_CommitBlock e \<longrightarrow> P e) es"
    using assms(2) by (intro exI [of _ "es @ [e]"]) (simp add: emit_def)
  then show ?thesis
    using assms(1,3) by (simp add: step_ok_def core_inv_def currentView_def emit_def held_def)
qed

lemma core_commit_ok:
  assumes inv: "core_inv dec D W c" and c: "current c = Some s" "valSet c = Some vs"
    and sub: "rs_Subject s \<noteq> None" and size: "int (ms_Size (Commits s)) > 2 * vs_F vs"
  shows "\<exists>c'. core_commit be (c\<lparr>current := Some (LockHash s)\<rparr>) = Some c' \<and>
    step_ok dec D W (certified dec D W) c c'"
proof -
  let ?P = "certified dec D W"
  obtain pp where pp: "rs_Preprepare s = Some pp" using sub by (auto simp: rs_Subject_def split: option.splits)
  have s: "validators vs \<in> W" "votes_ok dec D (validators vs) s" "reproposable s"
    using inv c by (auto elim!: core_invE)
  have "step_ok dec D W ?P c (c\<lparr>current := Some (LockHash s), state := StateCommitted\<rparr>)"
    using s sub by (intro step_ok_update [OF inv c])
      (simp_all add: votes_ok_LockHash reproposable_LockHash phase_ok_def locked_on_LockHash)
  moreover obtain c1 where c1: "setState be StateCommitted (c\<lparr>current := Some (LockHash s)\<rparr>) = Some c1"
    "quiet (c\<lparr>current := Some (LockHash s), state := StateCommitted\<rparr>) c1"
    using setState_quiet [of "c\<lparr>current := Some (LockHash s)\<rparr>" be StateCommitted] c by auto
  ultimately have ok1: "step_ok dec D W ?P c c1" using step_ok_quiet by blast
  have cur1: "current c1 = Some (LockHash s)" using quietD(3) [OF c1(2)] by simp
  define seals where "seals = map (\<lambda>m. copy_seal (CommittedSeal m)) (ms_Values (Commits s))"
  define c2 where "c2 = emit (CommitBlock (pp_Proposal pp) seals) c1"
  have "?P (CommitBlock (pp_Proposal pp) seals)"
    using s(1) commits_form_quorum [OF s(2) pp size] unfolding seals_def certified.simps by blast
  then have ok2: "step_ok dec D W ?P c c2"
    unfolding c2_def by (intro step_ok_emit [OF ok1]) simp_all
  then have inv2: "core_inv dec D W c2" and cur2: "current c2 = Some (LockHash s)"
    using cur1 by (simp_all add: step_ok_def c2_def emit_def)
  have eq: "core_commit be (c\<lparr>current := Some (LockHash s)\<rparr>) =
     (case backend_Commit be (pp_Proposal pp) seals of None \<Rightarrow> Some c2
      | Some e \<Rightarrow> sendNextRoundChange be (c2\<lparr>current := Some (UnlockHash (LockHash s))\<rparr>))"
    by (cases "backend_Commit be (pp_Proposal pp) seals")
      (simp_all add: core_commit_def c1 cur1 rs_Proposal_def pp Let_def c2_def flip: seals_def)
  show ?thesis
    unfolding eq using ok2 abandonRound_ok [OF inv2 cur2] step_ok_trans [OF ok2]
    by (cases "backend_Commit be (pp_Proposal pp) seals") fastforce+
qed

subsection \<open>The handlers\<close>

text \<open>What every handler promises: no panic, and a step that keeps the invariant.\<close>

definition handled ::
  "(bytes \<Rightarrow> Subject option) \<Rightarrow> message set \<Rightarrow> validator list set \<Rightarrow> core
     \<Rightarrow> (core \<times> err option) option \<Rightarrow> bool" where
  "handled dec D W c r \<longleftrightarrow>
     (\<exists>c' e. r = Some (c', e) \<and> step_ok dec D W (certified dec D W) c c')"

lemma handled_stay: "core_inv dec D W c \<Longrightarrow> handled dec D W c (Some (c, e))"
  by (simp add: handled_def step_ok_refl)

lemma handled_step:
  "\<exists>c'. f = Some c' \<and> step_ok dec D W (certified dec D W) c c' \<Longrightarrow>
     handled dec D W c (do { c' \<leftarrow> f; Some (c', e) })"
  by (auto simp: handled_def)

lemma sendCommitForOldBlock_quiet:
  "running c \<Longrightarrow> \<exists>c'. sendCommitForOldBlock be view h c = Some c' \<and> quiet c c'"
  using broadcastCommit_quiet by (simp add: sendCommitForOldBlock_def)

lemma enterPhase:
  assumes inv: "core_inv dec D W c" and c: "current c = Some s" "valSet c = Some vs"
    and view: "rs_round s' = rs_round s" "rs_sequence s' = rs_sequence s"
    and s': "votes_ok dec D (validators vs) s'" "reproposable s'"
      "phase_ok st (waitingForRoundChange c) s'"
  shows "\<exists>c'. setState be st (c\<lparr>current := Some s'\<rparr>) = Some c' \<and> step_ok dec D W P c c'"
  using setState_quiet [of "c\<lparr>current := Some s'\<rparr>" be st] c
    step_ok_quiet [OF step_ok_update [OF inv c view s']] by auto

lemma step_then_quiet:
  assumes "\<exists>c1. f = Some c1 \<and> step_ok dec D W P c c1"
    and "\<And>c1. running c1 \<Longrightarrow> \<exists>c2. g c1 = Some c2 \<and> quiet c1 c2"
  shows "\<exists>c2. do { c1 \<leftarrow> f; g c1 } = Some c2 \<and> step_ok dec D W P c c2"
proof -
  obtain c1 where c1: "f = Some c1" "step_ok dec D W P c c1" using assms(1) by blast
  then have "running c1" using core_inv_running by (auto simp: step_ok_def)
  then obtain c2 where "g c1 = Some c2" "quiet c1 c2" using assms(2) by blast
  with c1 show ?thesis using step_ok_quiet by auto
qed

lemma adoptPreprepare_ok:
  assumes inv: "core_inv dec D W c" and st: "state c = StateAcceptRequest"
  shows "\<exists>c'. adoptPreprepare be pp c = Some c' \<and> step_ok dec D W P c c'"
proof -
  obtain s vs where c: "current c = Some s" "valSet c = Some vs"
    and s: "votes_ok dec D (validators vs) s" "reproposable s"
      "phase_ok StateAcceptRequest (waitingForRoundChange c) s"
    using inv st by (auto elim!: core_invE)
  let ?s = "SetPreprepare s (Some pp)"
  have s': "votes_ok dec D (validators vs) ?s" "reproposable ?s"
    using s by (simp_all add: votes_ok_def rs_wf_def phase_ok_def SetPreprepare_def reproposable_def)
  have acc: "acceptPreprepare pp c = Some (c\<lparr>current := Some ?s\<rparr>)"
    using c by (simp add: acceptPreprepare_def)
  have view: "rs_round ?s = rs_round s" "rs_sequence ?s = rs_sequence s"
    by (simp_all add: SetPreprepare_def)
  have "\<exists>c'. do { c2 \<leftarrow> setState be StatePreprepared (c\<lparr>current := Some ?s\<rparr>); sendPrepare be c2 } = Some c' \<and>
      step_ok dec D W P c c'"
    by (intro step_then_quiet enterPhase [OF inv c view s'] sendPrepare_quiet)
      (auto simp: phase_ok_def SetPreprepare_def)
  moreover have "\<exists>c'. do { c2 \<leftarrow> setState be StatePrepared (c\<lparr>current := Some ?s\<rparr>); sendCommit be c2 } = Some c' \<and>
      step_ok dec D W P c c'" if "Hash (pp_Proposal pp) = GetLockedHash s"
    using that by (intro step_then_quiet enterPhase [OF inv c view s'] sendCommit_quiet)
      (auto simp: phase_ok_def SetPreprepare_def locked_on_proposal_def GetLockedHash_def)
  ultimately show ?thesis
    using sendNextRoundChange_ok [OF inv] c acc by (simp add: adoptPreprepare_def)
qed

lemma handlePreprepare_ok:
  assumes inv: "core_inv dec D W c" and msg: "msg \<in> D"
  shows "handled dec D W c (handlePreprepare be msg src c)"
proof (cases "decodePreprepare be (Msg msg)")
  case None
  then show ?thesis using handled_stay [OF inv] by (simp add: handlePreprepare_def)
next
  case (Some pp)
  obtain s vs where c: "current c = Some s" "valSet c = Some vs" using inv by (rule core_invE)
  obtain chk where chk: "checkMessage c msgPreprepare (Some (pp_View pp)) = Some chk"
    using checkMessage_total c(1) by blast
  obtain d eo where ver: "Verify be (pp_Proposal pp) = (d, eo)" by (cases "Verify be (pp_Proposal pp)")
  have "\<exists>c'. sendCommitForOldBlock be v h c = Some c' \<and> step_ok dec D W P c c'" for v h P
    using sendCommitForOldBlock_quiet [OF core_inv_running [OF inv]] quiet_step_ok [OF inv] by blast
  then have old: "handled dec D W c (handleOldPreprepare be pp src c)"
    unfolding handleOldPreprepare_def Let_def
    by (simp add: handled_stay [OF inv] handled_step)
  have timer: "handled dec D W c (Some ((stopFuturePreprepareTimer c)\<lparr>futurePreprepareTimer := Some (t, v, msg)\<rparr>, e))" for t v e
    using inv msg c unfolding handled_def step_ok_def core_inv_def
    by (simp add: stopFuturePreprepareTimer_def held_def currentView_def split: option.splits)
  have next_round: "handled dec D W c (do { c' \<leftarrow> sendNextRoundChange be c; Some (c', e) })" for e
    by (intro handled_step sendNextRoundChange_ok [OF inv])
  have adopt: "handled dec D W c (do { c' \<leftarrow> adoptPreprepare be pp c; Some (c', None) })"
    if "state c = StateAcceptRequest"
    by (intro handled_step adoptPreprepare_ok [OF inv that])
  show ?thesis
    using Some chk ver c old timer next_round adopt handled_stay [OF inv]
    by (simp add: handlePreprepare_def split: option.split)
qed

text \<open>A vote that passed \<^verbatim>\<open>verifySubject\<close> is for the view and digest of the round state.\<close>

lemma verifySubject_accepts:
  "current c = Some s \<Longrightarrow> verifySubject sub c = Some None \<longleftrightarrow> rs_Subject s = Some sub"
  by (auto simp: verifySubject_def)

lemma vote_phase:
  assumes "phase_ok st w s" "st \<noteq> StateAcceptRequest" "rs_Preprepare s' = rs_Preprepare s"
    and "lockedHash s' = lockedHash s"
  shows "phase_ok st w s'"
  using assms by (simp add: phase_ok_def locked_on_proposal_def)

lemma not_accepting:
  assumes "checkMessage c code (Some v) = Some None" "code = msgPrepare \<or> code = msgCommit"
  shows "state c \<noteq> StateAcceptRequest"
  using checkMessage_accepts(3) [OF assms(1)] assms(2)
  by (auto simp: msgPrepare_def msgCommit_def msgPreprepare_def msgRoundChange_def)

lemma handlePrepare_ok:
  assumes inv: "core_inv dec D W c" and msg: "msg \<in> D" "Code msg = msgPrepare"
    and dec: "dec = decodeSubject be"
  shows "handled dec D W c (handlePrepare be msg src c)"
proof (cases "decodeSubject be (Msg msg)")
  case None
  then show ?thesis using handled_stay [OF inv] by (simp add: handlePrepare_def)
next
  case (Some sub)
  obtain s vs where c: "current c = Some s" "valSet c = Some vs"
    and s: "votes_ok dec D (validators vs) s" "reproposable s"
      "phase_ok (state c) (waitingForRoundChange c) s"
    using inv by (rule core_invE)
  obtain chk where chk: "checkMessage c msgPrepare (Some (sub_View sub)) = Some chk"
    using checkMessage_total c(1) by blast
  show ?thesis
  proof (cases "chk = None \<and> rs_Subject s = Some sub")
    case False
    then show ?thesis
      using Some chk c handled_stay [OF inv]
      by (auto simp: handlePrepare_def verifySubject_def split: option.split)
  next
    case True
    define s1 where "s1 = s\<lparr>Prepares := fst (ms_Add (Prepares s) msg)\<rparr>"
    have acc: "state c \<noteq> StateAcceptRequest" using not_accepting chk True by blast
    have s1: "votes_ok dec D (validators vs) s1" "reproposable s1" "rs_Subject s1 \<noteq> None"
      "phase_ok (state c) (waitingForRoundChange c) s1"
      "rs_round s1 = rs_round s" "rs_sequence s1 = rs_sequence s"
      using votes_ok_vote(1) [OF s(1) msg(1)] s(2) vote_phase [OF s(3) acc] msg(2) True dec Some
      by (auto simp: s1_def reproposable_def rs_Subject_def split: option.splits)
    have stay: "handled dec D W c (Some (c\<lparr>current := Some s1\<rparr>, None))"
      using step_ok_update [OF inv c s1(5,6,1,2,4)] by (simp add: handled_def)
    have "handled dec D W c (do { c3 \<leftarrow> do { c2 \<leftarrow> setState be StatePrepared (c\<lparr>current := Some (LockHash s1)\<rparr>);
        sendCommit be c2 }; Some (c3, None) })"
      by (intro handled_step step_then_quiet enterPhase [OF inv c] sendCommit_quiet)
        (use s1 in \<open>simp_all add: votes_ok_LockHash reproposable_LockHash phase_ok_def locked_on_LockHash\<close>)
    with stay show ?thesis
      using Some chk c True by (simp add: handlePrepare_def verifySubject_def acceptPrepare_def flip: s1_def)
  qed
qed

lemma handleCommit_ok:
  assumes inv: "core_inv dec D W c" and msg: "msg \<in> D" "Code msg = msgCommit"
    and dec: "dec = decodeSubject be"
  shows "handled dec D W c (handleCommit be msg src c)"
proof (cases "decodeSubject be (Msg msg)")
  case None
  then show ?thesis using handled_stay [OF inv] by (simp add: handleCommit_def)
next
  case (Some sub)
  obtain s vs where c: "current c = Some s" "valSet c = Some vs"
    and s: "votes_ok dec D (validators vs) s" "reproposable s"
      "phase_ok (state c) (waitingForRoundChange c) s"
    using inv by (rule core_invE)
  obtain chk where chk: "checkMessage c msgCommit (Some (sub_View sub)) = Some chk"
    using checkMessage_total c(1) by blast
  show ?thesis
  proof (cases "chk = None \<and> rs_Subject s = Some sub")
    case False
    then show ?thesis
      using Some chk c handled_stay [OF inv]
      by (auto simp: handleCommit_def verifySubject_def split: option.split)
  next
    case True
    define s1 where "s1 = s\<lparr>Commits := fst (ms_Add (Commits s) msg)\<rparr>"
    define c1 where "c1 = c\<lparr>current := Some s1\<rparr>"
    have acc: "state c \<noteq> StateAcceptRequest" using not_accepting chk True by blast
    have s1: "votes_ok dec D (validators vs) s1" "reproposable s1" "rs_Subject s1 \<noteq> None"
      "phase_ok (state c) (waitingForRoundChange c) s1"
      "rs_round s1 = rs_round s" "rs_sequence s1 = rs_sequence s"
      using votes_ok_vote(2) [OF s(1) msg(1)] s(2) vote_phase [OF s(3) acc] msg(2) True dec Some
      by (auto simp: s1_def reproposable_def rs_Subject_def split: option.splits)
    have ok1: "step_ok dec D W P c c1" for P
      using step_ok_update [OF inv c s1(5,6,1,2,4)] by (simp add: c1_def)
    then have inv1: "core_inv dec D W c1" unfolding step_ok_def by blast
    have c1: "current c1 = Some s1" "valSet c1 = Some vs" using c by (simp_all add: c1_def)
    have "handled dec D W c (do { c2 \<leftarrow> core_commit be (c1\<lparr>current := Some (LockHash s1)\<rparr>); Some (c2, None) })"
      if "int (ms_Size (Commits s1)) > 2 * vs_F vs"
      using core_commit_ok [OF inv1 c1 s1(3) that] step_ok_trans [OF ok1] by (intro handled_step) blast
    with ok1 show ?thesis
      using Some chk c c1 True
      by (simp add: handleCommit_def verifySubject_def acceptCommit_def handled_def flip: s1_def c1_def)
  qed
qed

lemma rcs_Add_inv:
  assumes inv: "core_inv dec D W c" and rcs: "c_roundChangeSet c = Some rcs"
  shows "step_ok dec D W P c (c\<lparr>c_roundChangeSet := Some (fst (rcs_Add rcs r msg))\<rparr>)"
proof -
  have "core_inv dec D W (c\<lparr>c_roundChangeSet := Some (fst (rcs_Add rcs r msg))\<rparr>)"
    using inv rcs rcs_Add_wf [of rcs r msg] unfolding core_inv_def held_def by simp metis
  moreover obtain s where "current c = Some s" using inv by (rule core_invE)
  ultimately show ?thesis by (simp add: step_ok_def currentView_def)
qed

lemma handleRoundChange_ok:
  assumes inv: "core_inv dec D W c"
    and lp: "fst (LastProposal be) = Some lp" and vl: "validators (Validators be lp) \<in> W"
  shows "handled dec D W c (handleRoundChange be msg src c)"
proof (cases "decodeSubject be (Msg msg)")
  case None
  then show ?thesis using handled_stay [OF inv] by (simp add: handleRoundChange_def)
next
  case (Some sub)
  obtain s vs rcs where c: "current c = Some s" "valSet c = Some vs" "c_roundChangeSet c = Some rcs"
    using inv by (rule core_invE)
  obtain chk where chk: "checkMessage c msgRoundChange (Some (sub_View sub)) = Some chk"
    using checkMessage_total c(1) by blast
  let ?rnd = "Round (sub_View sub)"
  obtain rcs' r where add: "rcs_Add rcs ?rnd msg = (rcs', r)" by (cases "rcs_Add rcs ?rnd msg")
  define c1 where "c1 = c\<lparr>c_roundChangeSet := Some rcs'\<rparr>"
  have ok1: "step_ok dec D W P c c1" for P
    using rcs_Add_inv [OF inv c(3), of P ?rnd msg] add by (simp add: c1_def)
  then have inv1: "core_inv dec D W c1" unfolding step_ok_def by blast
  have stay: "handled dec D W c (Some (c1, e))" for e using ok1 by (simp add: handled_def)
  have send: "handled dec D W c (do { c2 \<leftarrow> sendRoundChange be ?rnd c1; Some (c2, None) })"
    using sendRoundChange_ok [OF inv1] step_ok_trans [OF ok1] by (intro handled_step) blast
  have start: "handled dec D W c (do { c2 \<leftarrow> startNewRound be ?rnd c1; Some (c2, None) })"
    using startNewRound_ok [OF inv1 lp vl] step_ok_trans [OF ok1] by (intro handled_step) blast
  show ?thesis
    using Some chk c add stay send start handled_stay [OF inv]
    by (simp add: handleRoundChange_def currentView_def split: option.split sum.split flip: c1_def)
qed

lemma queued_update: "queued (AList.update a q bl) \<subseteq> queue_messages q \<union> queued bl"
  using set_update_subset [of a q bl] by (fastforce simp: queued_def)

lemma storeBacklog_held: "held (storeBacklog be msg src c) \<subseteq> insert msg (held c)"
proof -
  define q where "q = (case map_of (backlogs c) src of None \<Rightarrow> prque_New | Some q \<Rightarrow> q)"
  define q' where "q' = (case message_view be msg of Some view \<Rightarrow> prque_Push q msg (toPriority (Code msg) view)
    | None \<Rightarrow> q)"
  have "queue_messages q \<subseteq> queued (backlogs c)"
  proof (cases "map_of (backlogs c) src")
    case None
    then show ?thesis by (simp add: q_def queue_messages_def prque_New_def)
  next
    case (Some r)
    then have "(src, r) \<in> set (backlogs c)" by (rule map_of_SomeD)
    then show ?thesis using Some by (auto simp: q_def queued_def)
  qed
  then have "queue_messages q' \<subseteq> insert msg (queued (backlogs c))"
    using queue_messages_Push by (auto simp: q'_def split: option.split)
  then have "queued (AList.update src q' (backlogs c)) \<subseteq> insert msg (queued (backlogs c))"
    using queued_update [of src q' "backlogs c"] by blast
  moreover have "storeBacklog be msg src c =
      (if src = c_address c then c else c\<lparr>backlogs := AList.update src q' (backlogs c)\<rparr>)"
    by (simp add: storeBacklog_def Let_def flip: q_def q'_def)
  ultimately show ?thesis by (simp add: held_def) blast
qed

lemma storeBacklog_ok:
  assumes ok: "step_ok dec D W P c c1" and msg: "msg \<in> D"
  shows "step_ok dec D W P c (storeBacklog be msg src c1)"
proof -
  define c2 where "c2 = storeBacklog be msg src c1"
  have same: "current c2 = current c1" "valSet c2 = valSet c1" "state c2 = state c1"
    "c_roundChangeSet c2 = c_roundChangeSet c1" "effects c2 = effects c1"
    "waitingForRoundChange c2 = waitingForRoundChange c1"
    by (simp_all add: c2_def storeBacklog_def Let_def)
  moreover have "held c2 \<subseteq> D"
    using storeBacklog_held [of be msg src c1] ok msg unfolding c2_def step_ok_def core_inv_def by blast
  ultimately have "step_ok dec D W P c c2"
    using ok by (simp add: step_ok_def core_inv_def currentView_def)
  then show ?thesis unfolding c2_def .
qed

lemma handleCheckedMsg_ok:
  assumes inv: "core_inv dec D W c" and msg: "msg \<in> D" and dec: "dec = decodeSubject be"
    and lp: "fst (LastProposal be) = Some lp" and vl: "validators (Validators be lp) \<in> W"
  shows "handled dec D W c (handleCheckedMsg be msg src c)"
proof -
  have store: "handled dec D W c (do { (c1, e) \<leftarrow> r;
      Some (if e = Some errFutureMessage then storeBacklog be msg src c1 else c1, e) })"
    if r: "handled dec D W c r" for r
  proof -
    obtain c1 e where "r = Some (c1, e)" "step_ok dec D W (certified dec D W) c c1"
      using r unfolding handled_def by blast
    then show ?thesis using storeBacklog_ok msg by (simp add: handled_def)
  qed
  show ?thesis
    using handled_stay [OF inv] store [OF handlePreprepare_ok [OF inv msg]]
      store [OF handlePrepare_ok [OF inv msg _ dec]] store [OF handleCommit_ok [OF inv msg _ dec]]
      store [OF handleRoundChange_ok [OF inv lp vl]]
    unfolding handleCheckedMsg_def by simp
qed

text \<open>The messages an event delivers: the decoded payload, or the message the backlog gives back.\<close>

fun event_messages :: "Backend \<Rightarrow> event \<Rightarrow> message list" where
  "event_messages be (MessageEvent payload) =
     (case decodeMessage be payload of None \<Rightarrow> [] | Some m \<Rightarrow> [m])"
| "event_messages be (BacklogEvent src msg) = [msg]"
| "event_messages be _ = []"

lemma handleMsg_ok:
  assumes inv: "core_inv dec D W c" and msgs: "set (event_messages be (MessageEvent payload)) \<subseteq> D"
    and dec: "dec = decodeSubject be"
    and lp: "fst (LastProposal be) = Some lp" and vl: "validators (Validators be lp) \<in> W"
  shows "handled dec D W c (handleMsg be payload c)"
proof -
  obtain vs where vs: "valSet c = Some vs" using inv by (rule core_invE)
  obtain r where r: "FromPayload be (CheckValidatorSignature be (Some vs)) payload = Some r"
    using FromPayload_total by blast
  show ?thesis
  proof (cases r)
    case (Inl e)
    then show ?thesis using r vs handled_stay [OF inv] by (simp add: handleMsg_def)
  next
    case (Inr m)
    then have "decodeMessage be payload = Some m" using FromPayload_authentic r by blast
    then have "m \<in> D" using msgs by simp
    then show ?thesis
      using r vs Inr handled_stay [OF inv] handleCheckedMsg_ok [OF inv _ dec lp vl, of m]
      by (simp add: handleMsg_def split: option.split)
  qed
qed

lemma handleRequest_ok:
  assumes inv: "core_inv dec D W c"
  shows "handled dec D W c (handleRequest be r c)"
proof -
  obtain s vs where c: "current c = Some s" "valSet c = Some vs"
    and s: "votes_ok dec D (validators vs) s" "reproposable s"
      "phase_ok (state c) (waitingForRoundChange c) s"
    using inv by (rule core_invE)
  obtain chk where chk: "checkRequestMsg c (Some r) = Some chk"
    using checkRequestMsg_total c(1) by blast
  show ?thesis
  proof (cases chk)
    case (Some e)
    then show ?thesis using chk c handled_stay [OF inv] by (simp add: handleRequest_def)
  next
    case None
    then have p: "req_Proposal r \<noteq> None"
      using chk by (auto simp: checkRequestMsg_def split: option.splits)
    define s1 where "s1 = s\<lparr>pendingRequest := Some r\<rparr>"
    define c1 where "c1 = c\<lparr>current := Some s1\<rparr>"
    have "votes_ok dec D (validators vs) s1" "reproposable s1"
      "phase_ok (state c) (waitingForRoundChange c) s1"
      "rs_round s1 = rs_round s" "rs_sequence s1 = rs_sequence s"
      using s p by (simp_all add: s1_def votes_ok_def rs_wf_def vote_ok_def [abs_def] rs_Subject_def
          reproposable_def phase_ok_def locked_on_proposal_def cong: option.case_cong)
    then have ok1: "step_ok dec D W P c c1" for P
      using step_ok_update [OF inv c, of s1 "state c"] by (simp add: c1_def)
    then have "running c1" using core_inv_running unfolding step_ok_def by blast
    then obtain c2 where "sendPreprepare be r c1 = Some c2" "quiet c1 c2"
      using sendPreprepare_quiet [OF _ p] by blast
    then show ?thesis
      using chk c None ok1 step_ok_quiet [OF ok1]
      by (simp add: handleRequest_def handled_def flip: s1_def c1_def)
  qed
qed

lemma storeRequestMsg_quiet:
  assumes "\<exists>s. current c = Some s" "req_Proposal r \<noteq> None"
  shows "\<exists>c'. storeRequestMsg r c = Some c' \<and> quiet c c'"
  using assms by (auto simp: storeRequestMsg_def quiet_fields)

lemma timeoutCatchUp_ok:
  assumes inv: "core_inv dec D W c"
    and lp: "fst (LastProposal be) = Some lp" and vl: "validators (Validators be lp) \<in> W"
  shows "\<exists>c'. timeoutCatchUp be c = Some c' \<and> step_ok dec D W P c c'"
proof -
  obtain s where "current c = Some s" using inv by (rule core_invE)
  then show ?thesis
    using lp sendNextRoundChange_ok [OF inv] startNewRound_ok [OF inv lp vl]
    by (simp add: timeoutCatchUp_def)
qed

lemma handleTimeoutMsg_ok:
  assumes inv: "core_inv dec D W c"
    and lp: "fst (LastProposal be) = Some lp" and vl: "validators (Validators be lp) \<in> W"
  shows "\<exists>c'. handleTimeoutMsg be c = Some c' \<and> step_ok dec D W P c c'"
proof -
  obtain s vs rcs where "current c = Some s" "valSet c = Some vs" "c_roundChangeSet c = Some rcs"
    using inv by (rule core_invE)
  then show ?thesis
    using timeoutCatchUp_ok [OF inv lp vl] sendRoundChange_ok [OF inv]
    by (simp add: handleTimeoutMsg_def split: option.split)
qed


text \<open>
  A backend a node can run on: it has a last block, and decodes subjects with \<open>dec\<close>. All its other
  answers, the validator set included, are free and may change from event to event.
\<close>

definition env_ok :: "(bytes \<Rightarrow> Subject option) \<Rightarrow> Backend \<Rightarrow> bool" where
  "env_ok dec be \<longleftrightarrow> decodeSubject be = dec \<and> fst (LastProposal be) \<noteq> None"

definition env_validators :: "Backend \<Rightarrow> validator list set" where
  "env_validators be =
     (case fst (LastProposal be) of None \<Rightarrow> {} | Some lp \<Rightarrow> {validators (Validators be lp)})"

lemma gossip_quiet: "running c \<Longrightarrow> \<exists>c'. gossip p c = Some c' \<and> quiet c c'"
  by (auto simp: gossip_def running_def quiet_emit)

lemma handleRequest_future:
  "handleRequest be r c = Some (c', Some errFutureMessage) \<Longrightarrow> req_Proposal r \<noteq> None"
  by (auto simp: handleRequest_def checkRequestMsg_def split: bind_splits option.splits)

lemma handleEvent_ok:
  assumes inv: "core_inv dec D W c" and env: "env_ok dec be" "env_validators be \<subseteq> W"
    and msgs: "set (event_messages be ev) \<subseteq> D"
  shows "\<exists>c'. handleEvent be ev c = Some c' \<and> step_ok dec D W (certified dec D W) c c'"
proof -
  let ?ok = "step_ok dec D W (certified dec D W) c"
  obtain lp where dec: "dec = decodeSubject be" and lp: "fst (LastProposal be) = Some lp"
    and vl: "validators (Validators be lp) \<in> W"
    using env by (auto simp: env_ok_def env_validators_def)
  have gossip: "\<exists>c'. gossip p c1 = Some c' \<and> ?ok c'" if "?ok c1" for p c1
    using that gossip_quiet core_inv_running step_ok_quiet unfolding step_ok_def by blast
  show ?thesis
  proof (cases ev)
    case (RequestEvent p)
    obtain c1 e where c1: "handleRequest be \<lparr>req_Proposal = p\<rparr> c = Some (c1, e)" "?ok c1"
      using handleRequest_ok [OF inv] unfolding handled_def by blast
    then have "\<exists>c'. storeRequestMsg \<lparr>req_Proposal = p\<rparr> c1 = Some c' \<and> ?ok c'"
      if "e = Some errFutureMessage"
      using that handleRequest_future [of be "\<lparr>req_Proposal = p\<rparr>" c c1] step_ok_quiet [OF c1(2) quiet_fields(1)]
      by (auto simp: storeRequestMsg_def)
    with c1 RequestEvent show ?thesis by (simp add: handleEvent_def)
  next
    case (MessageEvent payload)
    obtain c1 e where "handleMsg be payload c = Some (c1, e)" "?ok c1"
      using handleMsg_ok [OF inv _ dec lp vl] msgs MessageEvent unfolding handled_def by blast
    with gossip MessageEvent show ?thesis by (simp add: handleEvent_def)
  next
    case (BacklogEvent src msg)
    have "msg \<in> D" using msgs BacklogEvent by simp
    then obtain c1 e where "handleCheckedMsg be msg src c = Some (c1, e)" "?ok c1"
      using handleCheckedMsg_ok [OF inv _ dec lp vl, of msg src] unfolding handled_def by blast
    with gossip BacklogEvent show ?thesis by (simp add: handleEvent_def split: option.split)
  next
    case TimeoutEvent
    then show ?thesis using handleTimeoutMsg_ok [OF inv lp vl] by (simp add: handleEvent_def)
  next
    case FinalCommittedEvent
    then show ?thesis
      using startNewRound_ok [OF inv lp vl] by (simp add: handleEvent_def handleFinalCommitted_def)
  qed
qed

lemma core_Start_ok:
  assumes env: "env_ok dec be"
  shows "\<exists>c. core_Start be (core_New be timeout) = Some c \<and> core_inv dec {} (env_validators be) c \<and>
    \<not> list_ex is_CommitBlock (effects c)"
proof -
  obtain lp addr where lp: "LastProposal be = (Some lp, addr)"
    using env by (cases "LastProposal be") (auto simp: env_ok_def)
  let ?c = "core_New be timeout" and ?v = "\<lparr>Round = 0, Sequence = Number lp + 1\<rparr>"
  have new: "held ?c = {}" "effects ?c = []" "current ?c = None"
    by (simp_all add: held_def core_New_def)
  obtain c where c: "enterRound be ?v (Validators be lp) addr False ?c = Some c"
    "quiet (enteredRound be ?v (Validators be lp) addr None ?c) c"
    using enterRound_spec [of None False ?c be ?v "Validators be lp" addr] by auto
  have "core_Start be ?c = Some c"
    using c(1) lp new by (simp add: core_Start_def startNewRound_def planRound_def)
  moreover have "core_inv dec {} (env_validators be) (enteredRound be ?v (Validators be lp) addr None ?c)"
    by (rule enteredRound_inv) (simp_all add: env_validators_def lp new)
  moreover have "\<not> list_ex is_CommitBlock (effects c)"
    using quietD(8) [OF c(2)] new by (auto simp: enteredRound_def)
  ultimately show ?thesis using core_inv_quiet [OF c(2)] by blast
qed

subsection \<open>Locks\<close>

text \<open>What a node is locked on: the hash and the proposal.\<close>

definition lock_of :: "core \<Rightarrow> (hash \<times> Preprepare option) option" where
  "lock_of c = map_option (\<lambda>s. (lockedHash s, rs_Preprepare s)) (current c)"

lemma lock_of_quiet: "quiet c c' \<Longrightarrow> lock_of c' = lock_of c"
  by (simp add: lock_of_def quiet_def)

lemma lock_of_movedRound:
  "IsHashLocked be s \<Longrightarrow> lock_of (movedRound be rnd s vs rcs c) = Some (lockedHash s, rs_Preprepare s)"
  by (simp add: lock_of_def movedRound_def carried_def)

lemma sendNextRoundChange_lock:
  assumes "core_inv dec D W c" "current c = Some s" "IsHashLocked be s"
    and "sendNextRoundChange be c = Some c'"
  shows "lock_of c' = lock_of c"
proof -
  obtain vs rcs where "valSet c = Some vs" "c_roundChangeSet c = Some rcs"
    using assms(1) by (rule core_invE)
  then obtain c1 where "sendNextRoundChange be c = Some c1"
    "quiet (movedRound be (rs_round s + 1) s vs rcs c) c1"
    using sendNextRoundChange_spec [OF assms(2)] by blast
  then show ?thesis
    using assms(2,4) lock_of_quiet lock_of_movedRound [OF assms(3)] by (simp add: lock_of_def)
qed

lemma handlePreprepare_lock:
  assumes inv: "core_inv dec D W c" and s: "current c = Some s" "IsHashLocked be s"
    and pp: "decodePreprepare be (Msg msg) = Some pp" "Hash (pp_Proposal pp) \<noteq> lockedHash s"
    and run: "handlePreprepare be msg src c = Some (c', e)"
  shows "lock_of c' = lock_of c"
proof -
  have old: "lock_of c' = lock_of c" if "handleOldPreprepare be pp src c = Some (c', e)"
  proof -
    obtain c1 where "sendCommitForOldBlock be (pp_View pp) (Hash (pp_Proposal pp)) c = Some c1" "quiet c c1"
      using sendCommitForOldBlock_quiet [OF core_inv_running [OF inv]] by blast
    then show ?thesis
      using that lock_of_quiet [of c c1] by (simp add: handleOldPreprepare_def Let_def split: if_splits)
  qed
  have adopt: "adoptPreprepare be pp c = sendNextRoundChange be c"
    using s pp by (simp add: adoptPreprepare_def GetLockedHash_def)
  have timer: "lock_of ((stopFuturePreprepareTimer c)\<lparr>futurePreprepareTimer := t\<rparr>) = lock_of c" for t
    by (simp add: lock_of_def stopFuturePreprepareTimer_def)
  have next_round: "lock_of c' = lock_of c"
    if "do { c1 \<leftarrow> sendNextRoundChange be c; Some (c1, x) } = Some (c', e)" for x
    using that sendNextRoundChange_lock [OF inv s] by (cases "sendNextRoundChange be c") simp_all
  obtain vs where vs: "valSet c = Some vs" using inv by (rule core_invE)
  obtain chk where chk: "checkMessage c msgPreprepare (Some (pp_View pp)) = Some chk"
    using checkMessage_total s(1) by blast
  obtain d eo where ver: "Verify be (pp_Proposal pp) = (d, eo)" by (cases "Verify be (pp_Proposal pp)")
  show ?thesis
    using run pp(1) vs chk ver old adopt timer next_round
    by (cases chk; cases eo) (simp_all add: handlePreprepare_def split: if_splits, blast+)
qed

end
