(* ===== verification/Node.thy ===== *)
theory Node
  imports Core_Safety Quorum
begin

text \<open>
  A node as the rest of the system sees it: the core behind its event loop
  (\<^verbatim>\<open>core/handler.go\<close>, \<^verbatim>\<open>Start\<close> and \<^verbatim>\<open>handleEvents\<close>). The environment delivers any request, any
  network payload, any timeout and any final commit at any time; an event of the node's own
  (\<^verbatim>\<open>backlogEvent\<close>) arrives only after the node posted it or armed the timer that posts it. The answers
  of the backend are free, and may change from event to event.
\<close>

subsection \<open>Reachable cores\<close>

fun enabled :: "core \<Rightarrow> event \<Rightarrow> bool" where
  "enabled c (BacklogEvent src m) \<longleftrightarrow>
     Post (BacklogEvent src m) \<in> set (effects c) \<or> (\<exists>t. futurePreprepareTimer c = Some (t, src, m))"
| "enabled c _ \<longleftrightarrow> True"

fun network_messages :: "Backend \<Rightarrow> event \<Rightarrow> message set" where
  "network_messages be (MessageEvent payload) = set_option (decodeMessage be payload)"
| "network_messages be _ = {}"

text \<open>
  \<open>reach dec c D W\<close>: the node can be in state \<open>c\<close> after the network delivered the messages \<open>D\<close>, with the
  validator lists \<open>W\<close> supplied by the backend on the way.
\<close>

inductive reach ::
  "(bytes \<Rightarrow> Subject option) \<Rightarrow> core \<Rightarrow> message set \<Rightarrow> validator list set \<Rightarrow> bool" for dec where
  reach_start: "reach dec c {} (env_validators be)"
    if "env_ok dec be" "core_Start be (core_New be timeout) = Some c"
| reach_event: "reach dec c' (D \<union> network_messages be ev) (W \<union> env_validators be)"
    if "reach dec c D W" "env_ok dec be" "enabled c ev" "handleEvent be ev c = Some c'"

subsection \<open>The invariant holds\<close>

lemma event_messages_known:
  assumes "core_inv dec D W c" "enabled c ev"
  shows "set (event_messages be ev) \<subseteq> D \<union> network_messages be ev"
proof (cases ev)
  case (BacklogEvent src m)
  then have "m \<in> held c" using assms(2) by (auto simp: held_def posted_def)
  then show ?thesis using assms(1) BacklogEvent by (auto simp: core_inv_def)
qed (auto split: option.splits)

lemma certified_mono: "certified dec D W e \<Longrightarrow> D \<subseteq> D' \<Longrightarrow> W \<subseteq> W' \<Longrightarrow> certified dec D' W' e"
  by (cases e) (fastforce simp: commit_quorum_def)+

lemma reach_step:
  assumes "core_inv dec D W c" "env_ok dec be" "enabled c ev"
  shows "\<exists>c'. handleEvent be ev c = Some c' \<and>
    step_ok dec (D \<union> network_messages be ev) (W \<union> env_validators be)
      (certified dec (D \<union> network_messages be ev) (W \<union> env_validators be)) c c'"
  using handleEvent_ok [OF core_inv_mono [OF assms(1)] assms(2) _ event_messages_known [OF assms(1,3)]]
  by blast

lemma reach_inv:
  "reach dec c D W \<Longrightarrow> core_inv dec D W c \<and> (\<forall>e \<in> set (effects c). is_CommitBlock e \<longrightarrow> certified dec D W e)"
proof (induction rule: reach.induct)
  case (reach_start be timeout c)
  then show ?case using core_Start_ok [OF reach_start(1), of timeout] by (auto simp: list_ex_iff)
next
  case (reach_event c D W be ev c')
  let ?D = "D \<union> network_messages be ev" and ?W = "W \<union> env_validators be"
  have ok: "step_ok dec ?D ?W (certified dec ?D ?W) c c'"
    using reach_step [OF _ reach_event(2,3)] reach_event by auto
  then obtain es where es: "effects c' = effects c @ es"
      "list_all (\<lambda>e. is_CommitBlock e \<longrightarrow> certified dec ?D ?W e) es"
    unfolding step_ok_def by blast
  have "\<forall>e \<in> set (effects c). is_CommitBlock e \<longrightarrow> certified dec ?D ?W e"
    using reach_event certified_mono [of dec D W _ ?D ?W] by blast
  then show ?case using ok es unfolding step_ok_def by (auto simp: list_all_iff)
qed

lemma commit_certified:
  assumes "reach dec c D W" "CommitBlock p seals \<in> set (effects c)"
  obtains vs view ms where "validators vs \<in> W" "commit_quorum dec D vs view (Hash p) ms"
    "seals = map (\<lambda>m. copy_seal (CommittedSeal m)) ms"
  using reach_inv [OF assms(1)] assms(2) by fastforce

text \<open>The event loop on a list of events that come from outside the node.\<close>

fun run_node :: "Backend \<Rightarrow> event list \<Rightarrow> core \<Rightarrow> core option" where
  "run_node be [] c = Some c"
| "run_node be (ev # evs) c = do { c1 \<leftarrow> handleEvent be ev c; run_node be evs c1 }"

fun from_outside :: "event \<Rightarrow> bool" where
  "from_outside (BacklogEvent src m) = False"
| "from_outside _ = True"

definition run_messages :: "Backend \<Rightarrow> event list \<Rightarrow> message list" where
  "run_messages be evs = concat (map (event_messages be) evs)"

lemma reach_run:
  "reach dec c D W \<Longrightarrow> env_ok dec be \<Longrightarrow> env_validators be \<subseteq> W \<Longrightarrow> list_all from_outside evs \<Longrightarrow>
     run_node be evs c = Some c' \<Longrightarrow> reach dec c' (D \<union> set (run_messages be evs)) W"
proof (induction evs arbitrary: c D)
  case Nil
  then show ?case by (simp add: run_messages_def)
next
  case (Cons ev evs)
  obtain c1 where c1: "handleEvent be ev c = Some c1" "run_node be evs c1 = Some c'"
    using Cons.prems(5) by (auto split: bind_splits)
  have ev: "enabled c ev" "network_messages be ev = set (event_messages be ev)"
    using Cons.prems(4) by (cases ev; auto split: option.splits)+
  have "reach dec c1 (D \<union> set (event_messages be ev)) W"
    using reach_event [OF Cons.prems(1,2) ev(1) c1(1)] Cons.prems(3) ev(2) by (simp add: Un_absorb2)
  then have "reach dec c' ((D \<union> set (event_messages be ev)) \<union> set (run_messages be evs)) W"
    using Cons.IH Cons.prems c1(2) by simp
  then show ?case by (simp add: run_messages_def Un_assoc)
qed

subsection \<open>Agreement within a view\<close>

text \<open>
  Validators outside \<open>byz\<close> vote for at most one digest in a view. The messages are those any of the
  nodes received.
\<close>

definition honest_votes ::
  "(bytes \<Rightarrow> Subject option) \<Rightarrow> message set \<Rightarrow> address set \<Rightarrow> bool" where
  "honest_votes dec D byz \<longleftrightarrow>
     (\<forall>m \<in> D. \<forall>m' \<in> D. \<forall>view h h'. Code m = msgCommit \<and> Code m' = msgCommit \<and>
        Address m = Address m' \<and> Address m \<notin> byz \<and>
        dec (Msg m) = Some \<lparr>sub_View = view, sub_Digest = h\<rparr> \<and>
        dec (Msg m') = Some \<lparr>sub_View = view, sub_Digest = h'\<rparr> \<longrightarrow> h = h')"

lemma honest_votesD:
  "honest_votes dec D byz \<Longrightarrow> m \<in> D \<Longrightarrow> m' \<in> D \<Longrightarrow> Code m = msgCommit \<Longrightarrow> Code m' = msgCommit \<Longrightarrow>
     Address m = Address m' \<Longrightarrow> Address m \<notin> byz \<Longrightarrow>
     dec (Msg m) = Some \<lparr>sub_View = view, sub_Digest = h\<rparr> \<Longrightarrow>
     dec (Msg m') = Some \<lparr>sub_View = view, sub_Digest = h'\<rparr> \<Longrightarrow> h = h'"
  unfolding honest_votes_def by blast

lemma quorum_members:
  assumes "commit_quorum dec D vs view h ms" "distinct (validators vs)" "validators vs \<noteq> []"
  shows "val.is_quorum vs (Address ` set ms)"
proof -
  have "card (Address ` set ms) = length ms"
    using assms(1) distinct_card [of "map Address ms"] by (simp add: commit_quorum_def)
  then show ?thesis
    using assms members_F_eq [of vs]
    by (auto simp: val.is_quorum_def commit_quorum_def vs_Size_def)
qed

lemma quorums_agree:
  assumes q: "commit_quorum dec D vs view h ms" "commit_quorum dec D' vs view h' ms'"
    and vs: "distinct (validators vs)" "validators vs \<noteq> []" "vs_tight vs"
    and byz: "card (byz \<inter> set (validators vs)) \<le> members_F vs"
    and honest: "honest_votes dec (D \<union> D') byz"
  shows "h = h'"
proof -
  obtain v where v: "v \<in> Address ` set ms" "v \<in> Address ` set ms'" "v \<notin> byz"
    using val.quorums_share_honest [of vs "Address ` set ms" "Address ` set ms'" byz]
      quorum_members [OF q(1) vs(1,2)] quorum_members [OF q(2) vs(1,2)] vs byz by auto
  then obtain m m' where m: "m \<in> set ms" "m' \<in> set ms'" "Address m = v" "Address m' = v" by auto
  moreover have "m \<in> D \<and> Code m = msgCommit \<and> dec (Msg m) = Some \<lparr>sub_View = view, sub_Digest = h\<rparr>"
    "m' \<in> D' \<and> Code m' = msgCommit \<and> dec (Msg m') = Some \<lparr>sub_View = view, sub_Digest = h'\<rparr>"
    using q m unfolding commit_quorum_def by blast+
  ultimately show ?thesis
    using v(3) honest_votesD [OF honest, of m m' view h h'] by simp
qed

lemma commit_quorum_cong:
  "validators vs = validators vs' \<Longrightarrow> commit_quorum dec D vs view h ms = commit_quorum dec D vs' view h ms"
  using vs_F_validators [of vs vs'] by (simp add: commit_quorum_def)

lemma quorums_agree_validators:
  assumes q: "commit_quorum dec D vs view h ms" "commit_quorum dec D' vs' view h' ms'"
    and vs: "validators vs = validators vs'" "distinct (validators vs)" "vs_Size vs mod 3 = 1"
    and byz: "3 * card (byz \<inter> set (validators vs)) < vs_Size vs" "honest_votes dec (D \<union> D') byz"
  shows "h = h'"
proof (rule quorums_agree [OF q(1) _ vs(2) _ _ _ byz(2)])
  show "commit_quorum dec D' vs view h' ms'" using q(2) commit_quorum_cong [OF vs(1)] by blast
  show "validators vs \<noteq> []" using vs(3) by (auto simp: vs_Size_def)
  show "vs_tight vs" using vs(2,3) by (simp add: vs_tight_def vs_Size_def distinct_card)
  show "card (byz \<inter> set (validators vs)) \<le> members_F vs"
    using byz(1) vs(2,3) by (simp add: members_F_def vs_Size_def distinct_card)
qed

end
