(* ===== verification/Demo_Network.thy ===== *)
theory Demo_Network
  imports Node
begin

text \<open>
  A concrete backend for four validators, with a small codec that keeps every number in one byte (and has one more
  byte for rounds beyond 64 bits), and
  one run of the node with address 4: a proposal, three COMMITs, the decision. The theorems about
  all nodes are applied to it.
\<close>

subsection \<open>The backend\<close>

definition demo_decodeSubject :: "bytes \<Rightarrow> Subject option" where
  "demo_decodeSubject b =
     (case b of
        [r, q, d] \<Rightarrow> Some \<lparr>sub_View = \<lparr>Round = uint r, Sequence = uint q\<rparr>, sub_Digest = ucast d\<rparr>
      | [r, q, d, big] \<Rightarrow>
          Some \<lparr>sub_View = \<lparr>Round = uint r + 2 ^ 64 * uint big, Sequence = uint q\<rparr>, sub_Digest = ucast d\<rparr>
      | _ \<Rightarrow> None)"

definition demo_set :: defaultSet where
  "demo_set = \<lparr>validators = [1, 2, 3, 4], policy = RoundRobin, proposer = Some 1\<rparr>"

definition demo_backend :: Backend where
  "demo_backend =
     \<lparr>keccak = (\<lambda>_. replicate 32 0), backend_Address = 4,
      Validators = (\<lambda>_. demo_set), ParentValidators = (\<lambda>_. demo_set),
      backend_Commit = (\<lambda>_ _. None), Verify = (\<lambda>_. (0, None)), Sign = (\<lambda>b. Some [1]),
      GetSignatureAddress = (\<lambda>_ sig. case sig of [s] \<Rightarrow> Some (ucast s) | _ \<Rightarrow> None),
      LastProposal = (Some \<lparr>Number = 0, Hash = 7\<rparr>, 0),
      HasPropsal = (\<lambda>_ _. False), backend_GetProposer = (\<lambda>_. 0), HasBadProposal = (\<lambda>_. False),
      encodePreprepare = (\<lambda>pp. Some [word_of_int (Round (pp_View pp)), word_of_int (Sequence (pp_View pp)),
        word_of_int (Number (pp_Proposal pp)), ucast (Hash (pp_Proposal pp))]),
      decodePreprepare = (\<lambda>b. case b of
          [r, q, n, h] \<Rightarrow> Some \<lparr>pp_View = \<lparr>Round = uint r, Sequence = uint q\<rparr>,
                                pp_Proposal = \<lparr>Number = uint n, Hash = ucast h\<rparr>\<rparr>
        | _ \<Rightarrow> None),
      encodeSubject = map_option (\<lambda>s. [word_of_int (Round (sub_View s)),
        word_of_int (Sequence (sub_View s)), ucast (sub_Digest s)]),
      decodeSubject = demo_decodeSubject,
      encodeMessage = (\<lambda>m. Some (ucast (Code m) # ucast (message.Address m) # Signature m @ Msg m)),
      decodeMessage = (\<lambda>b. case b of
          c # a # s # m \<Rightarrow> Some \<lparr>Code = ucast c, Msg = m, Address = ucast a, Signature = [s],
                               CommittedSeal = [s]\<rparr>
        | _ \<Rightarrow> None)\<rparr>"

lemma demo_env: "env_ok demo_decodeSubject demo_backend"
  by (simp add: env_ok_def demo_backend_def)

lemma demo_validators: "env_validators demo_backend = {[1, 2, 3, 4]}"
  by (simp add: env_validators_def demo_backend_def demo_set_def)

subsection \<open>A run\<close>

definition demo_start :: core where
  "demo_start = the (core_Start demo_backend (core_New demo_backend 10000))"

text \<open>The proposal of block 9 at sequence 1 by validator 1, then COMMITs of validators 1, 2 and 3.\<close>

definition demo_events :: "event list" where
  "demo_events = MessageEvent [0, 1, 1, 0, 1, 1, 9] #
     map (\<lambda>v. MessageEvent [2, v, v, 0, 1, 9]) [1, 2, 3]"

definition demo_core :: core where
  "demo_core = the (run_node demo_backend demo_events demo_start)"

lemma demo_start_eq: "core_Start demo_backend (core_New demo_backend 10000) = Some demo_start"
proof -
  have "core_Start demo_backend (core_New demo_backend 10000) \<noteq> None"
    by code_simp
  then show ?thesis by (simp add: demo_start_def)
qed

lemma demo_run: "run_node demo_backend demo_events demo_start = Some demo_core"
proof -
  have "run_node demo_backend demo_events demo_start \<noteq> None"
    by code_simp
  then show ?thesis by (simp add: demo_core_def)
qed

lemma demo_commits: "CommitBlock \<lparr>Number = 1, Hash = 9\<rparr> (map (\<lambda>v. v # replicate 64 0) [1, 2, 3])
    \<in> set (effects demo_core)"
  by code_simp

lemma demo_reach_start: "reach demo_decodeSubject demo_start {} {[1, 2, 3, 4]}"
  using reach_start [OF demo_env demo_start_eq] by (simp add: demo_validators)

lemma demo_reach:
  "reach demo_decodeSubject demo_core (set (run_messages demo_backend demo_events)) {[1, 2, 3, 4]}"
  using reach_run [OF demo_reach_start demo_env _ _ demo_run]
  by (simp add: demo_validators demo_events_def)

end
