(* ===== verification/Js_Word.thy ===== *)
theory Js_Word
  imports Prelude
begin

text \<open>
  What the JavaScript code uses of the language: numbers in bit operations are 32-bit words, an array
  read outside its length is \<^verbatim>\<open>undefined\<close> and counts as 0 in a bit operation, a write outside extends the
  array, and strings are lists of 16-bit code units. Shift distances are taken modulo 32.
\<close>

unbundle bit_operations_syntax

subsection \<open>Numbers and shifts\<close>

type_synonym word32 = "32 word"
type_synonym jschar = "16 word"
type_synonym jsstring = "jschar list"

definition shl :: "word32 \<Rightarrow> nat \<Rightarrow> word32" where
  "shl x n = push_bit (n mod 32) x"

definition shr :: "word32 \<Rightarrow> nat \<Rightarrow> word32" where
  "shr x n = drop_bit (n mod 32) x"

definition rotl :: "word32 \<Rightarrow> nat \<Rightarrow> word32" where
  "rotl x n = shl x n OR shr x (32 - n)"

lemma bit_shl: "bit (shl x n) k \<longleftrightarrow> k < 32 \<and> n mod 32 \<le> k \<and> bit x (k - n mod 32)"
  by (auto simp: shl_def bit_push_bit_iff)

lemma bit_shr: "bit (shr x n) k \<longleftrightarrow> bit x (n mod 32 + k)"
  by (simp add: shr_def bit_drop_bit_eq)

lemma bit_mask8: "bit (0xff :: word32) k \<longleftrightarrow> k < 8"
proof -
  have m: "(0xff :: word32) = mask 8" by (simp add: mask_eq_exp_minus_1)
  show ?thesis unfolding m by (auto simp: bit_mask_iff)
qed

lemma bit_mask16: "bit (0xffff :: word32) k \<longleftrightarrow> k < 16"
proof -
  have m: "(0xffff :: word32) = mask 16" by (simp add: mask_eq_exp_minus_1)
  show ?thesis unfolding m by (auto simp: bit_mask_iff)
qed

lemma word32_bit_len: "bit (x :: word32) k \<Longrightarrow> k < 32"
  using bit_imp_le_length [of x k] by simp

lemma byte_bit_len: "bit (x :: byte) k \<Longrightarrow> k < 8"
  using bit_imp_le_length [of x k] by simp

subsection \<open>Arrays\<close>

definition wget :: "word32 list \<Rightarrow> nat \<Rightarrow> word32" where
  "wget ws i = (if i < length ws then ws ! i else 0)"

definition wset :: "word32 list \<Rightarrow> nat \<Rightarrow> word32 \<Rightarrow> word32 list" where
  "wset ws i v =
     (if i < length ws then ws[i := v] else ws @ replicate (i - length ws) 0 @ [v])"

text \<open>Assignment to \<^verbatim>\<open>length\<close>.\<close>

definition resize :: "nat \<Rightarrow> word32 list \<Rightarrow> word32 list" where
  "resize n ws = take n ws @ replicate (n - length ws) 0"

lemma wget_wset [simp]: "wget (wset ws i v) j = (if j = i then v else wget ws j)"
  by (auto simp: wget_def wset_def nth_append)

lemma length_wset [simp]: "length (wset ws i v) = max (length ws) (Suc i)"
  by (simp add: wset_def max_def)

lemma wget_resize [simp]: "wget (resize n ws) j = (if j < n then wget ws j else 0)"
  by (auto simp: wget_def resize_def nth_append)

lemma length_resize [simp]: "length (resize n ws) = n"
  by (simp add: resize_def)

lemma wget_Nil [simp]: "wget [] i = 0"
  by (simp add: wget_def)

lemma wget_eqI:
  "length ws = length vs \<Longrightarrow> (\<And>i. i < length ws \<Longrightarrow> wget ws i = wget vs i) \<Longrightarrow> ws = vs"
  by (simp add: wget_def list_eq_iff_nth_eq)

text \<open>The indices of \<^verbatim>\<open>for (i = 0; i < n; i += k)\<close>.\<close>

definition js_steps :: "nat \<Rightarrow> nat \<Rightarrow> nat list" where
  "js_steps n k = map (\<lambda>j. j * k) [0..<(n + k - 1) div k]"

lemma set_js_steps: "0 < k \<Longrightarrow> set (js_steps n k) = {i. i < n \<and> k dvd i}"
proof -
  assume k: "0 < k"
  have lt: "j < (n + k - 1) div k \<longleftrightarrow> j * k < n" for j
  proof -
    have "j < (n + k - 1) div k \<longleftrightarrow> Suc j * k \<le> n + k - 1"
      using k by (simp add: less_eq_div_iff_mult_less_eq flip: Suc_le_eq)
    then show ?thesis using k by auto
  qed
  define m where "m = (n + k - 1) div k"
  have "(\<lambda>j. j * k) ` {..<m} = {i. i < n \<and> k dvd i}"
  proof (intro set_eqI iffI)
    fix i assume "i \<in> (\<lambda>j. j * k) ` {..<m}"
    then obtain j where "i = j * k" "j < m" by blast
    then show "i \<in> {i. i < n \<and> k dvd i}" using lt [of j] by (simp add: m_def)
  next
    fix i assume "i \<in> {i. i < n \<and> k dvd i}"
    then obtain j where "i = j * k" "j * k < n" by (auto simp: dvd_def mult.commute)
    then show "i \<in> (\<lambda>j. j * k) ` {..<m}" using lt [of j] by (auto simp: m_def intro!: imageI)
  qed
  then show ?thesis by (simp add: js_steps_def m_def atLeast0LessThan)
qed

subsection \<open>Bytes of an array, most significant byte of a word first\<close>

text \<open>\<^verbatim>\<open>(words[i >>> 2] >>> (24 - (i % 4) * 8)) & 0xff\<close>\<close>

definition get_byte :: "word32 list \<Rightarrow> nat \<Rightarrow> word32" where
  "get_byte ws i = shr (wget ws (i div 4)) (24 - (i mod 4) * 8) AND 0xff"

text \<open>\<^verbatim>\<open>words[i >>> 2] |= b << (24 - (i % 4) * 8)\<close>\<close>

definition or_byte :: "word32 list \<Rightarrow> nat \<Rightarrow> word32 \<Rightarrow> word32 list" where
  "or_byte ws i b = wset ws (i div 4) (wget ws (i div 4) OR shl b (24 - (i mod 4) * 8))"

definition wbyte :: "word32 list \<Rightarrow> nat \<Rightarrow> byte" where
  "wbyte ws i = ucast (get_byte ws i)"

lemma bit_wbyte: "bit (wbyte ws i) k \<longleftrightarrow> k < 8 \<and> bit (wget ws (i div 4)) (24 - (i mod 4) * 8 + k)"
proof -
  have "(24 - (i mod 4) * 8) mod 32 = 24 - (i mod 4) * 8" by simp
  then show ?thesis
    unfolding wbyte_def get_byte_def bit_ucast_iff bit_and_iff bit_shr bit_mask8 by auto
qed

lemma ucast_wbyte: "ucast (wbyte ws i) = get_byte ws i"
proof (rule bit_word_eqI)
  fix n assume "n < LENGTH(32)"
  have "bit (get_byte ws i) n \<Longrightarrow> n < 8" by (simp only: get_byte_def bit_and_iff bit_mask8)
  then show "bit (ucast (wbyte ws i) :: word32) n = bit (get_byte ws i) n"
    unfolding wbyte_def bit_ucast_iff by auto
qed

lemma wbyte_cong: "wget ws (i div 4) = wget vs (i div 4) \<Longrightarrow> wbyte ws i = wbyte vs i"
  by (simp add: wbyte_def get_byte_def)

lemma div_mod_4_eq: "(i :: nat) div 4 = j div 4 \<Longrightarrow> i mod 4 = j mod 4 \<Longrightarrow> i = j"
  by (metis mult_div_mod_eq)

lemma wbyte_or_byte:
  "wbyte (or_byte ws i (ucast (b :: byte))) j = (if j = i then wbyte ws i OR b else wbyte ws j)"
proof (rule bit_word_eqI)
  fix k assume "k < LENGTH(8)"
  then have k: "k < 8" by simp
  have lt: "i mod 4 < 4" "j mod 4 < 4" by simp_all
  show "bit (wbyte (or_byte ws i (ucast b)) j) k = bit (if j = i then wbyte ws i OR b else wbyte ws j) k"
  proof (cases "j div 4 = i div 4")
    case False
    then show ?thesis by (auto simp: bit_wbyte or_byte_def)
  next
    case True
    then have eq: "j = i \<longleftrightarrow> j mod 4 = i mod 4" using div_mod_4_eq by metis
    have "bit (shl (ucast b) (24 - i mod 4 * 8)) (24 - j mod 4 * 8 + k) \<longleftrightarrow> j mod 4 = i mod 4 \<and> bit b k"
    proof -
      have "i mod 4 \<in> {0, 1, 2, 3}" "j mod 4 \<in> {0, 1, 2, 3}" using lt by auto
      then show ?thesis using k by (auto simp: bit_shl bit_ucast_iff dest: byte_bit_len)
    qed
    with True k eq show ?thesis by (auto simp: bit_wbyte or_byte_def bit_or_iff)
  qed
qed

lemma length_or_byte [simp]: "length (or_byte ws i b) = max (length ws) (Suc (i div 4))"
  by (simp add: or_byte_def)

text \<open>Bytes determine words.\<close>

lemma words_eq_bytes:
  assumes "\<And>i. wbyte ws i = wbyte vs i"
  shows "wget ws n = wget vs n"
proof (rule bit_word_eqI)
  fix k assume "k < LENGTH(32)"
  then have k: "k < 32" by simp
  define r where "r = 3 - k div 8"
  have r: "r < 4" "24 - r * 8 + k mod 8 = k" using k unfolding r_def by presburger+
  then have i: "(4 * n + r) div 4 = n" "(4 * n + r) mod 4 = r" by simp_all
  have "bit (wget ws n) (24 - r * 8 + k mod 8) = bit (wget vs n) (24 - r * 8 + k mod 8)"
    using arg_cong [OF assms [of "4 * n + r"], of "\<lambda>b. bit b (k mod 8)"]
    unfolding bit_wbyte i by simp
  then show "bit (wget ws n) k = bit (wget vs n) k" by (simp only: r(2))
qed

end
