(* ===== verification/Word_Array.thy ===== *)
theory Word_Array
  imports Js_Word
begin

text \<open>
  The word arrays of CryptoJS and their text encodings (\<^verbatim>\<open>src/internal/jsre/deps/web3.js\<close>, modules
  \<^verbatim>\<open>core\<close>, \<^verbatim>\<open>enc-base64\<close> and \<^verbatim>\<open>enc-utf16\<close>). A word array stands for a string of bytes,
  \<open>wa_bytes\<close>; the bits behind the last significant byte are arbitrary. The operations are specified on
  those bytes, and the encodings share the contract of the locale \<open>text_encoder\<close>.
\<close>

subsection \<open>Word arrays\<close>

record WordArray =
  words :: "word32 list"
  sigBytes :: nat

definition WordArray_init :: "word32 list \<Rightarrow> nat option \<Rightarrow> WordArray" where
  "WordArray_init ws n = \<lparr>words = ws, sigBytes = (case n of Some k \<Rightarrow> k | None \<Rightarrow> length ws * 4)\<rparr>"

definition wa_clamp :: "WordArray \<Rightarrow> WordArray" where
  "wa_clamp w =
     w\<lparr>words := resize ((sigBytes w + 3) div 4)
        (wset (words w) (sigBytes w div 4)
          (wget (words w) (sigBytes w div 4) AND shl 0xffffffff (32 - (sigBytes w mod 4) * 8)))\<rparr>"

definition wa_concat :: "WordArray \<Rightarrow> WordArray \<Rightarrow> WordArray" where
  "wa_concat w v =
     (let thisSigBytes = sigBytes w;
          thatSigBytes = sigBytes v;
          thisWords = words (wa_clamp w);
          ws = (if thisSigBytes mod 4 \<noteq> 0
                then fold (\<lambda>i ws. or_byte ws (thisSigBytes + i) (get_byte (words v) i)) [0..<thatSigBytes] thisWords
                else fold (\<lambda>i ws. wset ws ((thisSigBytes + i) div 4) (wget (words v) (i div 4)))
                       (js_steps thatSigBytes 4) thisWords)
      in \<lparr>words = ws, sigBytes = thisSigBytes + thatSigBytes\<rparr>)"

text \<open>The bytes a word array stands for.\<close>

definition wa_bytes :: "WordArray \<Rightarrow> bytes" where
  "wa_bytes w = map (wbyte (words w)) [0..<sigBytes w]"

lemma length_wa_bytes [simp]: "length (wa_bytes w) = sigBytes w"
  by (simp add: wa_bytes_def)

lemma nth_wa_bytes: "i < sigBytes w \<Longrightarrow> wa_bytes w ! i = wbyte (words w) i"
  by (simp add: wa_bytes_def)

subsection \<open>Clamping and concatenation\<close>

lemma div_4_split: obtains a b where "(n :: nat) = 4 * a + b" "b < 4" "n div 4 = a" "n mod 4 = b"
  using that [of "n div 4" "n mod 4"] by simp

lemma ceil_div_4: "b < 4 \<Longrightarrow> (4 * a + b + 3) div 4 = (if b = 0 then a else Suc a)"
proof -
  assume "b < 4"
  then have "b = 0 \<or> b = 1 \<or> b = 2 \<or> b = 3" by linarith
  then show ?thesis by (elim disjE) (simp_all add: add.assoc)
qed

lemma sub_div_4: "(i - 4 * a) div 4 = i div 4 - (a :: nat)"
proof (cases "4 * a \<le> i")
  case True
  then obtain j where "i = 4 * a + j" using le_iff_add by blast
  then show ?thesis by simp
next
  case False
  then have "i div 4 < a" by (simp add: div_less_iff_less_mult mult.commute)
  with False show ?thesis by simp
qed

lemma sub_mod_4: "4 * a \<le> i \<Longrightarrow> (i - 4 * a) mod 4 = i mod (4 :: nat)"
  by (auto simp: le_iff_add)

lemma less_div_4: "(i :: nat) div 4 < (n + 3) div 4 \<longleftrightarrow> i div 4 < n div 4 \<or> (i div 4 = n div 4 \<and> n mod 4 \<noteq> 0)"
proof -
  obtain a b where n: "n = 4 * a + b" "b < 4" "n div 4 = a" "n mod 4 = b" by (rule div_4_split)
  then show ?thesis using ceil_div_4 [of b a] by auto
qed

lemma less_by_div_4: "(i :: nat) < n \<longleftrightarrow> i div 4 < n div 4 \<or> (i div 4 = n div 4 \<and> i mod 4 < n mod 4)"
proof -
  obtain a b where n: "n = 4 * a + b" "b < 4" "n div 4 = a" "n mod 4 = b" by (rule div_4_split)
  obtain c d where i: "i = 4 * c + d" "d < 4" "i div 4 = c" "i mod 4 = d" by (rule div_4_split)
  show ?thesis using n i by auto
qed

lemma sigBytes_clamp [simp]: "sigBytes (wa_clamp w) = sigBytes w"
  by (simp add: wa_clamp_def)

lemma bit_shl_ones: "bit (shl 0xffffffff m) k \<longleftrightarrow> k < 32 \<and> m mod 32 \<le> k"
proof -
  have m: "(0xffffffff :: word32) = mask 32" by (simp add: mask_eq_exp_minus_1)
  show ?thesis unfolding m bit_shl by (auto simp: bit_mask_iff)
qed

lemma wbyte_clamp: "wbyte (words (wa_clamp w)) i = (if i < sigBytes w then wbyte (words w) i else 0)"
proof (rule bit_word_eqI)
  fix k assume "k < LENGTH(8)"
  then have k: "k < 8" by simp
  define n where "n = sigBytes w"
  note div = less_div_4 [of i n] and lt = less_by_div_4 [of i n]
  have mask: "bit (shl 0xffffffff (32 - (n mod 4) * 8)) (24 - i mod 4 * 8 + k) \<longleftrightarrow> i mod 4 < n mod 4"
    if "n mod 4 \<noteq> 0"
  proof -
    have "n mod 4 \<in> {1, 2, 3}" "i mod 4 \<in> {0, 1, 2, 3}" using that by auto
    then show ?thesis using k by (auto simp: bit_shl_ones)
  qed
  have "bit (wbyte (words (wa_clamp w)) i) k \<longleftrightarrow> i div 4 < (n + 3) div 4 \<and>
      bit (if i div 4 = n div 4 then wget (words w) (n div 4) AND shl 0xffffffff (32 - (n mod 4) * 8)
           else wget (words w) (i div 4)) (24 - i mod 4 * 8 + k)"
    using k by (auto simp: bit_wbyte wa_clamp_def n_def)
  also have "\<dots> \<longleftrightarrow> i < n \<and> bit (wget (words w) (i div 4)) (24 - i mod 4 * 8 + k)"
    using div lt mask by (auto simp: bit_and_iff)
  finally show "bit (wbyte (words (wa_clamp w)) i) k = bit (if i < sigBytes w then wbyte (words w) i else 0) k"
    using k by (auto simp: bit_wbyte n_def)
qed

lemma wa_bytes_clamp [simp]: "wa_bytes (wa_clamp w) = wa_bytes w"
  by (simp add: wa_bytes_def wbyte_clamp)

text \<open>Bytes put one by one behind a clamped prefix.\<close>

lemma fold_or_byte:
  assumes "\<And>j. n \<le> j \<Longrightarrow> wbyte ws j = 0"
  shows "wbyte (fold (\<lambda>i ws. or_byte ws (n + i) (ucast (f i :: byte))) [0..<m] ws) j =
    (if n \<le> j \<and> j < n + m then f (j - n) else wbyte ws j)"
  using assms
proof (induction m)
  case (Suc m)
  then show ?case by (auto simp: wbyte_or_byte)
qed auto

lemma fold_wset:
  "wget (fold (\<lambda>i ws. wset ws (a + i) (f i)) [0..<m] ws) j =
     (if a \<le> j \<and> j < a + m then f (j - a) else wget ws j)"
  by (induction m) auto

lemma concat_words_eq:
  assumes "n mod 4 = 0"
  shows "fold (\<lambda>i ws. wset ws ((n + i) div 4) (wget vs (i div 4))) (js_steps m 4) ws =
    fold (\<lambda>i ws. wset ws (n div 4 + i) (wget vs i)) [0..<(m + 3) div 4] ws"
proof -
  have "(n + j * 4) div 4 = n div 4 + j" for j using assms by presburger
  then show ?thesis by (simp add: js_steps_def fold_map comp_def add.commute)
qed

lemma wa_bytes_concat [simp]: "wa_bytes (wa_concat w v) = wa_bytes w @ wa_bytes v"
proof (rule nth_equalityI)
  show "length (wa_bytes (wa_concat w v)) = length (wa_bytes w @ wa_bytes v)"
    by (simp add: wa_concat_def Let_def)
next
  fix i assume "i < length (wa_bytes (wa_concat w v))"
  then have i: "i < sigBytes w + sigBytes v" by (simp add: wa_concat_def Let_def)
  let ?n = "sigBytes w" and ?c = "words (wa_clamp w)"
  have "wbyte (words (wa_concat w v)) i = (if i < ?n then wbyte (words w) i else wbyte (words v) (i - ?n))"
  proof (cases "?n mod 4 = 0")
    case False
    then have "words (wa_concat w v) =
        fold (\<lambda>i ws. or_byte ws (?n + i) (ucast (wbyte (words v) i))) [0..<sigBytes v] ?c"
      by (simp add: wa_concat_def Let_def ucast_wbyte)
    then show ?thesis
      using i fold_or_byte [of ?n ?c "wbyte (words v)" "sigBytes v" i] by (simp add: wbyte_clamp)
  next
    case True
    then have eq: "words (wa_concat w v) =
        fold (\<lambda>i ws. wset ws (?n div 4 + i) (wget (words v) i)) [0..<(sigBytes v + 3) div 4] ?c"
      by (simp add: wa_concat_def Let_def concat_words_eq)
    have "wget (words (wa_concat w v)) (i div 4) =
        (if ?n \<le> i then wget (words v) ((i - ?n) div 4) else wget ?c (i div 4))"
    proof -
      obtain a where a: "?n = 4 * a" using True by (auto simp: mod_eq_0_iff_dvd)
      have "a \<le> i div 4 \<longleftrightarrow> ?n \<le> i" using a by (simp add: less_eq_div_iff_mult_less_eq mult.commute)
      moreover have "i div 4 < a + (sigBytes v + 3) div 4"
      proof -
        have "i div 4 < (4 * a + sigBytes v + 3) div 4"
          using i a less_div_4 [of i "4 * a + sigBytes v"] less_by_div_4 [of i "4 * a + sigBytes v"] by auto
        then show ?thesis by (simp add: add.assoc)
      qed
      moreover have "i div 4 - a = (i - ?n) div 4" using a sub_div_4 by simp
      ultimately show ?thesis unfolding eq fold_wset using a by simp
    qed
    moreover have "?n \<le> i \<Longrightarrow> (i - ?n) mod 4 = i mod 4" using True sub_mod_4 by (auto simp: mod_eq_0_iff_dvd elim!: dvdE)
    ultimately have "wbyte (words (wa_concat w v)) i = (if ?n \<le> i then wbyte (words v) (i - ?n) else wbyte ?c i)"
      by (simp add: wbyte_def get_byte_def)
    then show ?thesis by (simp add: wbyte_clamp not_le)
  qed
  then show "wa_bytes (wa_concat w v) ! i = (wa_bytes w @ wa_bytes v) ! i"
    using i by (simp add: nth_append nth_wa_bytes wa_concat_def Let_def)
qed

subsection \<open>The clean word array of a byte string\<close>

definition byte_at :: "bytes \<Rightarrow> nat \<Rightarrow> byte" where
  "byte_at bs i = (if i < length bs then bs ! i else 0)"

definition be_word :: "byte \<Rightarrow> byte \<Rightarrow> byte \<Rightarrow> byte \<Rightarrow> word32" where
  "be_word a b c d = push_bit 24 (ucast a) OR push_bit 16 (ucast b) OR push_bit 8 (ucast c) OR ucast d"

definition be_words :: "bytes \<Rightarrow> word32 list" where
  "be_words bs =
     map (\<lambda>i. be_word (byte_at bs (4 * i)) (byte_at bs (4 * i + 1)) (byte_at bs (4 * i + 2)) (byte_at bs (4 * i + 3)))
       [0..<(length bs + 3) div 4]"

definition wa_of_bytes :: "bytes \<Rightarrow> WordArray" where
  "wa_of_bytes bs = \<lparr>words = be_words bs, sigBytes = length bs\<rparr>"

text \<open>No bits beyond the significant bytes.\<close>

definition wa_clean :: "WordArray \<Rightarrow> bool" where
  "wa_clean w \<longleftrightarrow> wa_clamp w = w"

text \<open>
  No bits beyond the significant bytes in the word that holds the last of them. Words behind that one do
  not matter: \<^verbatim>\<open>concat\<close> does not copy them.
\<close>

definition wa_tidy :: "WordArray \<Rightarrow> bool" where
  "wa_tidy w \<longleftrightarrow> list_all (\<lambda>i. wbyte (words w) i = 0) [sigBytes w..<4 * ((sigBytes w + 3) div 4)]"

lemma length_be_words [simp]: "length (be_words bs) = (length bs + 3) div 4"
  by (simp add: be_words_def)

lemma bit_be_word:
  assumes "r < 4" "k < 8"
  shows "bit (be_word a b c d) (24 - r * 8 + k) = bit ([a, b, c, d] ! r) k"
proof -
  have "r = 0 \<or> r = 1 \<or> r = 2 \<or> r = 3" using assms(1) by auto
  then show ?thesis
    using assms(2)
    by (elim disjE) (auto simp: be_word_def bit_or_iff bit_push_bit_iff bit_ucast_iff dest: byte_bit_len)
qed

lemma wbyte_be_words [simp]: "wbyte (be_words bs) i = byte_at bs i"
proof (rule bit_word_eqI)
  fix k assume "k < LENGTH(8)"
  then have k: "k < 8" by simp
  obtain a r where i: "i = 4 * a + r" "r < 4" "i div 4 = a" "i mod 4 = r" by (rule div_4_split)
  have r: "r = 0 \<or> r = 1 \<or> r = 2 \<or> r = 3" using i(2) by auto
  show "bit (wbyte (be_words bs) i) k = bit (byte_at bs i) k"
  proof (cases "a < (length bs + 3) div 4")
    case True
    then have "wget (be_words bs) a =
        be_word (byte_at bs (4 * a)) (byte_at bs (4 * a + 1)) (byte_at bs (4 * a + 2)) (byte_at bs (4 * a + 3))"
      by (simp add: wget_def be_words_def)
    then show ?thesis
      using bit_be_word [OF i(2) k] k r unfolding bit_wbyte i(3,4) by (auto simp: i(1))
  next
    case False
    then have "length bs \<le> i" using i by linarith
    then show ?thesis using False unfolding bit_wbyte i(3,4) by (simp add: byte_at_def wget_def)
  qed
qed

lemma words_eqI:
  assumes "length ws = length vs" "\<And>i. wbyte ws i = wbyte vs i"
  shows "ws = vs"
  using assms words_eq_bytes [of ws vs] by (intro wget_eqI) auto

lemma wa_bytes_of_bytes [simp]: "wa_bytes (wa_of_bytes bs) = bs"
  by (rule nth_equalityI) (simp_all add: wa_bytes_def wa_of_bytes_def byte_at_def)

lemma sigBytes_of_bytes [simp]: "sigBytes (wa_of_bytes bs) = length bs"
  by (simp add: wa_of_bytes_def)

lemma words_of_bytes [simp]: "words (wa_of_bytes bs) = be_words bs"
  by (simp add: wa_of_bytes_def)

lemma wbyte_out: "4 * length ws \<le> i \<Longrightarrow> wbyte ws i = 0"
proof -
  assume "4 * length ws \<le> i"
  then have "\<not> i div 4 < length ws" by (simp add: not_less less_eq_div_iff_mult_less_eq mult.commute)
  then show ?thesis by (intro bit_word_eqI) (simp add: bit_wbyte wget_def)
qed

lemma byte_at_wa_bytes: "byte_at (wa_bytes w) i = (if i < sigBytes w then wbyte (words w) i else 0)"
  by (simp add: byte_at_def nth_wa_bytes)

lemma wa_clamp_of_bytes: "wa_clamp w = wa_of_bytes (wa_bytes w)"
proof -
  have "words (wa_clamp w) = be_words (wa_bytes w)"
    by (rule words_eqI) (simp add: wa_clamp_def, simp add: wbyte_clamp byte_at_wa_bytes)
  then show ?thesis using sigBytes_clamp [of w] by (simp add: wa_of_bytes_def)
qed

lemma wa_clean_iff: "wa_clean w \<longleftrightarrow> w = wa_of_bytes (wa_bytes w)"
  unfolding wa_clean_def wa_clamp_of_bytes by auto

lemma wa_clean_of_bytes [simp]: "wa_clean (wa_of_bytes bs)"
  by (simp add: wa_clean_iff)

lemma sigBytes_concat [simp]: "sigBytes (wa_concat w v) = sigBytes w + sigBytes v"
  by (simp add: wa_concat_def Let_def)

lemma length_fold_or_byte:
  "length (fold (\<lambda>i ws. or_byte ws (n + i) (f i)) [0..<m] ws) = (if m = 0 then length ws else max (length ws) (Suc ((n + m - 1) div 4)))"
proof (induction m)
  case (Suc m)
  have "(n + m - 1) div 4 \<le> (n + m) div 4" by (rule div_le_mono) simp
  then show ?case using Suc by (auto simp: max.assoc max_absorb2)
qed simp

lemma length_fold_wset:
  "length (fold (\<lambda>i ws. wset ws (a + i) (f i)) [0..<m] ws) = (if m = 0 then length ws else max (length ws) (a + m))"
  by (induction m) auto

lemma ceil_div_4_Suc: "0 < (n :: nat) \<Longrightarrow> Suc ((n - 1) div 4) = (n + 3) div 4"
  by (cases n) simp_all

lemma wa_concat_length:
  "length (words (wa_concat w v)) = (sigBytes w + sigBytes v + 3) div 4"
proof -
  define n m c where "n = sigBytes w" and "m = sigBytes v" and "c = words (wa_clamp w)"
  have c: "length c = (n + 3) div 4" by (simp add: c_def n_def wa_clamp_def)
  have mono: "(n + 3) div 4 \<le> (n + m + 3) div 4" by (rule div_le_mono) simp
  show ?thesis
  proof (cases "n mod 4 = 0")
    case True
    then obtain a where a: "n = 4 * a" by (auto simp: mod_eq_0_iff_dvd)
    then have "(n + m + 3) div 4 = a + (m + 3) div 4" by (simp add: add.assoc)
    moreover have "words (wa_concat w v) = fold (\<lambda>i ws. wset ws (a + i) (wget (words v) i)) [0..<(m + 3) div 4] c"
      using concat_words_eq [OF True, of "words v" m c] a True
      by (simp add: wa_concat_def Let_def n_def m_def c_def)
    ultimately show ?thesis
      using a c mono by (simp add: length_fold_wset n_def m_def)
  next
    case False
    then have "words (wa_concat w v) = fold (\<lambda>i ws. or_byte ws (n + i) (get_byte (words v) i)) [0..<m] c"
      by (simp add: wa_concat_def Let_def n_def m_def c_def)
    moreover have "0 < m \<Longrightarrow> Suc ((n + m - 1) div 4) = (n + m + 3) div 4" using ceil_div_4_Suc [of "n + m"] by simp
    ultimately show ?thesis
      using c mono by (simp add: length_fold_or_byte n_def [symmetric] m_def [symmetric])
  qed
qed

lemma wa_tidy_iff: "wa_tidy w \<longleftrightarrow> (\<forall>i. sigBytes w \<le> i \<longrightarrow> i < 4 * ((sigBytes w + 3) div 4) \<longrightarrow> wbyte (words w) i = 0)"
  by (auto simp: wa_tidy_def list_all_iff)

lemma wa_clean_tidy: "wa_clean w \<Longrightarrow> wa_tidy w"
  unfolding wa_tidy_iff wa_clean_def by (metis wbyte_clamp not_less)

lemma wa_tidy_of_bytes [simp]: "wa_tidy (wa_of_bytes bs)"
  by (simp add: wa_clean_tidy)

lemma wa_tidy_dvd: "4 dvd sigBytes w \<Longrightarrow> wa_tidy w"
  by (auto simp: wa_tidy_iff dvd_def)

text \<open>Appending a tidy array to any array gives a clean one.\<close>

lemma wbyte_concat_out:
  assumes "wa_tidy v" "sigBytes w + sigBytes v \<le> i"
  shows "wbyte (words (wa_concat w v)) i = 0"
proof -
  define n m c where "n = sigBytes w" and "m = sigBytes v" and "c = words (wa_clamp w)"
  have c: "wbyte c j = (if j < n then wbyte (words w) j else 0)" for j by (simp add: c_def n_def wbyte_clamp)
  have v: "wbyte (words v) j = 0" if "m \<le> j" "j < 4 * ((m + 3) div 4)" for j
    using assms(1) that by (simp add: wa_tidy_iff m_def)
  show ?thesis
  proof (cases "n mod 4 = 0")
    case False
    then have "words (wa_concat w v) = fold (\<lambda>i ws. or_byte ws (n + i) (ucast (wbyte (words v) i))) [0..<m] c"
      by (simp add: wa_concat_def Let_def n_def m_def c_def ucast_wbyte)
    then show ?thesis
      using assms(2) c fold_or_byte [of n c "wbyte (words v)" m i] by (simp add: n_def m_def)
  next
    case True
    then obtain a where a: "n = 4 * a" by (auto simp: mod_eq_0_iff_dvd)
    have eq: "words (wa_concat w v) = fold (\<lambda>i ws. wset ws (a + i) (wget (words v) i)) [0..<(m + 3) div 4] c"
      using concat_words_eq [OF True, of "words v" m c] a True
      by (simp add: wa_concat_def Let_def n_def m_def c_def)
    have "a \<le> i div 4" using assms(2) a by (simp add: n_def less_eq_div_iff_mult_less_eq)
    then have get: "wget (words (wa_concat w v)) (i div 4) =
        (if i div 4 < a + (m + 3) div 4 then wget (words v) (i div 4 - a) else wget c (i div 4))"
      unfolding eq fold_wset by simp
    have "i div 4 - a = (i - n) div 4" "(i - n) mod 4 = i mod 4"
      using a assms(2) sub_div_4 [of i a] sub_mod_4 [of a i] by (simp_all add: n_def)
    then have "wbyte (words (wa_concat w v)) i = (if i div 4 < a + (m + 3) div 4 then wbyte (words v) (i - n) else wbyte c i)"
      unfolding wbyte_def get_byte_def get by simp
    moreover have "i - n < 4 * ((m + 3) div 4)" if "i div 4 < a + (m + 3) div 4"
    proof -
      have "i < 4 * (a + (m + 3) div 4)" using that by (simp add: div_less_iff_less_mult mult.commute)
      moreover have "n \<le> i" using assms(2) by (simp add: n_def)
      ultimately show ?thesis using a by (simp add: less_diff_conv2)
    qed
    ultimately show ?thesis using assms(2) v [of "i - n"] c [of i] by (auto simp: n_def m_def)
  qed
qed

lemma wa_concat_of_bytes:
  assumes "wa_tidy v"
  shows "wa_concat w v = wa_of_bytes (wa_bytes w @ wa_bytes v)"
proof -
  have "wbyte (words (wa_concat w v)) i = byte_at (wa_bytes (wa_concat w v)) i" for i
    using wbyte_concat_out [OF assms, of w i] by (auto simp: byte_at_wa_bytes simp del: wa_bytes_concat)
  then have "words (wa_concat w v) = be_words (wa_bytes w @ wa_bytes v)"
    by (intro words_eqI) (simp_all add: wa_concat_length)
  then show ?thesis by (simp add: wa_of_bytes_def)
qed

end
