(* ===== verification/Hasher.thy ===== *)
theory Hasher
  imports Word_Array
begin

text \<open>
  \<^verbatim>\<open>BufferedBlockAlgorithm\<close> and \<^verbatim>\<open>Hasher\<close> of CryptoJS (\<^verbatim>\<open>src/internal/jsre/deps/web3.js\<close>, module
  \<^verbatim>\<open>core\<close>): input is buffered in a word array and handed to the algorithm block by block. The
  algorithm is the argument \<open>doProcessBlock\<close>, which may write to the block it reads; the locale
  \<open>block_algorithm\<close> says what it has to keep to, and in it the buffering is shown to be invisible: what
  reaches the algorithm depends on the bytes that came in and not on how they were cut into updates.
\<close>

subsection \<open>The code\<close>

type_synonym 'h block_step = "word32 list \<Rightarrow> nat \<Rightarrow> 'h \<Rightarrow> 'h \<times> word32 list"

record 'h BufferedBlockAlgorithm =
  alg_state :: 'h
  alg_data :: WordArray
  alg_nDataBytes :: nat

definition bba_reset :: "'h \<Rightarrow> 'h BufferedBlockAlgorithm" where
  "bba_reset h = \<lparr>alg_state = h, alg_data = WordArray_init [] None, alg_nDataBytes = 0\<rparr>"

definition bba_append :: "WordArray \<Rightarrow> 'h BufferedBlockAlgorithm \<Rightarrow> 'h BufferedBlockAlgorithm" where
  "bba_append data a = a\<lparr>alg_data := wa_concat (alg_data a) data, alg_nDataBytes := alg_nDataBytes a + sigBytes data\<rparr>"

definition process_blocks :: "nat \<Rightarrow> 'h block_step \<Rightarrow> nat \<Rightarrow> 'h \<times> word32 list \<Rightarrow> 'h \<times> word32 list" where
  "process_blocks blockSize doProcessBlock nWordsReady =
     fold (\<lambda>offset (h, ws). doProcessBlock ws offset h) (js_steps nWordsReady blockSize)"

definition bba_process ::
    "nat \<Rightarrow> nat \<Rightarrow> 'h block_step \<Rightarrow> bool \<Rightarrow> 'h BufferedBlockAlgorithm \<Rightarrow> WordArray \<times> 'h BufferedBlockAlgorithm"
where
  "bba_process blockSize minBufferSize doProcessBlock doFlush a =
     (let dataSigBytes = sigBytes (alg_data a);
          blockSizeBytes = blockSize * 4;
          nBlocksReady = (if doFlush then (dataSigBytes + blockSizeBytes - 1) div blockSizeBytes
                          else dataSigBytes div blockSizeBytes - minBufferSize);
          nWordsReady = nBlocksReady * blockSize;
          nBytesReady = min (nWordsReady * 4) dataSigBytes;
          (h, ws) = process_blocks blockSize doProcessBlock nWordsReady (alg_state a, words (alg_data a))
      in (WordArray_init (take nWordsReady ws) (Some nBytesReady),
          a\<lparr>alg_state := h, alg_data := \<lparr>words = drop nWordsReady ws, sigBytes = dataSigBytes - nBytesReady\<rparr>\<rparr>))"

definition hasher_update :: "nat \<Rightarrow> 'h block_step \<Rightarrow> WordArray \<Rightarrow> 'h BufferedBlockAlgorithm \<Rightarrow> 'h BufferedBlockAlgorithm" where
  "hasher_update blockSize doProcessBlock messageUpdate a =
     snd (bba_process blockSize 0 doProcessBlock False (bba_append messageUpdate a))"

definition hasher_finalize ::
    "('h BufferedBlockAlgorithm \<Rightarrow> WordArray \<times> 'h BufferedBlockAlgorithm) \<Rightarrow> WordArray option \<Rightarrow>
      'h BufferedBlockAlgorithm \<Rightarrow> WordArray \<times> 'h BufferedBlockAlgorithm" where
  "hasher_finalize doFinalize messageUpdate a =
     doFinalize (case messageUpdate of Some m \<Rightarrow> bba_append m a | None \<Rightarrow> a)"

subsection \<open>Blocks of a byte string\<close>

text \<open>What a byte string does to a state when it is absorbed in blocks of \<open>n\<close> words.\<close>

definition block_at :: "nat \<Rightarrow> bytes \<Rightarrow> nat \<Rightarrow> word32 list" where
  "block_at n B q = map (\<lambda>i. wget (be_words B) (q * n + i)) [0..<n]"

definition absorb_bytes :: "nat \<Rightarrow> (word32 list \<Rightarrow> 'h \<Rightarrow> 'h) \<Rightarrow> nat \<Rightarrow> bytes \<Rightarrow> 'h \<Rightarrow> 'h" where
  "absorb_bytes n absorb m B h = fold (\<lambda>q. absorb (block_at n B q)) [0..<m] h"

lemma absorb_bytes_Suc: "absorb_bytes n f (Suc m) B h = f (block_at n B m) (absorb_bytes n f m B h)"
  by (simp add: absorb_bytes_def)

lemma wget_be_words: "wget (be_words B) i =
    be_word (byte_at B (4 * i)) (byte_at B (4 * i + 1)) (byte_at B (4 * i + 2)) (byte_at B (4 * i + 3))"
proof (cases "i < (length B + 3) div 4")
  case True
  then show ?thesis by (simp add: wget_def be_words_def)
next
  case False
  then have "length B \<le> 4 * i" by linarith
  then show ?thesis using False by (simp add: wget_def byte_at_def be_word_def)
qed

lemma block_at_append: "(q + 1) * (4 * n) \<le> length A \<Longrightarrow> block_at n (A @ B) q = block_at n A q"
proof -
  assume le: "(q + 1) * (4 * n) \<le> length A"
  have "byte_at (A @ B) (4 * (q * n + i) + r) = byte_at A (4 * (q * n + i) + r)" if "i < n" "r < 4" for i r
  proof -
    have "4 * (q * n + i) + r < 4 * (q * n + Suc i)" using that by simp
    also have "\<dots> \<le> 4 * (q * n + n)" using that by simp
    also have "\<dots> \<le> length A" using le by (simp add: algebra_simps)
    finally show ?thesis by (simp add: byte_at_def nth_append)
  qed
  note this [of _ 0] this [of _ 1] this [of _ 2] this [of _ 3]
  then show ?thesis by (simp add: block_at_def wget_be_words)
qed

lemma block_at_drop: "block_at n (drop (k * (4 * n)) B) q = block_at n B (k + q)"
proof -
  have "byte_at (drop (k * (4 * n)) B) i = byte_at B (k * (4 * n) + i)" for i
    by (auto simp: byte_at_def)
  then show ?thesis by (simp add: block_at_def wget_be_words algebra_simps)
qed

lemma be_words_drop: "drop k (be_words B) = be_words (drop (4 * k) B)"
proof (rule words_eqI)
  show "length (drop k (be_words B)) = length (be_words (drop (4 * k) B))" by simp
  have get: "wget (drop k ws) j = wget ws (k + j)" for ws j by (simp add: wget_def less_diff_conv add.commute)
  have "wbyte (drop k (be_words B)) i = wbyte (be_words B) (4 * k + i)" for i
    by (simp add: wbyte_def get_byte_def get)
  then show "wbyte (drop k (be_words B)) i = wbyte (be_words (drop (4 * k) B)) i" for i
    by (auto simp: byte_at_def)
qed

subsection \<open>The contract of a block algorithm\<close>

locale block_algorithm =
  fixes blockSize :: nat
    and doProcessBlock :: "'h block_step"
    and absorb :: "word32 list \<Rightarrow> 'h \<Rightarrow> 'h"
  assumes blockSize_pos: "0 < blockSize"
    and process_state: "fst (doProcessBlock ws offset h) = absorb (map (\<lambda>i. wget ws (offset + i)) [0..<blockSize]) h"
    and process_rest: "drop (offset + blockSize) (snd (doProcessBlock ws offset h)) = drop (offset + blockSize) ws"
begin

lemma wget_drop: "wget (drop k ws) j = wget ws (k + j)"
  by (simp add: wget_def less_diff_conv add.commute)

lemma js_steps_blocks: "js_steps (m * blockSize) blockSize = map (\<lambda>q. q * blockSize) [0..<m]"
proof -
  have "(m * blockSize + blockSize - 1) div blockSize = m"
    using blockSize_pos by (intro div_nat_eqI) (simp_all add: algebra_simps)
  then show ?thesis by (simp add: js_steps_def)
qed

lemma process_blocks_spec:
  "process_blocks blockSize doProcessBlock (m * blockSize) (h, ws) = (h', ws') \<Longrightarrow>
     h' = fold (\<lambda>q. absorb (map (\<lambda>i. wget ws (q * blockSize + i)) [0..<blockSize])) [0..<m] h \<and>
     drop (m * blockSize) ws' = drop (m * blockSize) ws"
proof (induction m arbitrary: h' ws')
  case (Suc m)
  obtain h1 ws1 where one: "process_blocks blockSize doProcessBlock (m * blockSize) (h, ws) = (h1, ws1)"
    by (metis surj_pair)
  note IH = Suc.IH [OF one]
  have "process_blocks blockSize doProcessBlock (Suc m * blockSize) (h, ws) = doProcessBlock ws1 (m * blockSize) h1"
    using one unfolding process_blocks_def js_steps_blocks by simp
  then have step: "doProcessBlock ws1 (m * blockSize) h1 = (h', ws')" using Suc.prems by simp
  have same: "wget ws1 (m * blockSize + i) = wget ws (m * blockSize + i)" for i
    using IH by (metis wget_drop)
  have "h' = absorb (map (\<lambda>i. wget ws1 (m * blockSize + i)) [0..<blockSize]) h1"
    using process_state [of ws1 "m * blockSize" h1] step by simp
  then have hash: "h' = fold (\<lambda>q. absorb (map (\<lambda>i. wget ws (q * blockSize + i)) [0..<blockSize])) [0..<Suc m] h"
    using IH by (simp add: same)
  have "drop (Suc m * blockSize) ws' = drop (Suc m * blockSize) ws1"
    using process_rest [of "m * blockSize" ws1 h1] step by (simp add: add.commute)
  also have "\<dots> = drop blockSize (drop (m * blockSize) ws)" using IH by (metis add.commute drop_drop mult_Suc)
  finally show ?case using hash by (simp add: add.commute)
qed (use js_steps_blocks [of 0] in \<open>simp add: process_blocks_def\<close>)

lemma process_spec:
  assumes "alg_data a = wa_of_bytes R"
  shows "snd (bba_process blockSize 0 doProcessBlock False a) =
    a\<lparr>alg_state := absorb_bytes blockSize absorb (length R div (4 * blockSize)) R (alg_state a),
      alg_data := wa_of_bytes (drop (length R div (4 * blockSize) * (4 * blockSize)) R)\<rparr>"
proof -
  define m where "m = length R div (4 * blockSize)"
  obtain h ws where run: "process_blocks blockSize doProcessBlock (m * blockSize) (alg_state a, be_words R) = (h, ws)"
    by (metis surj_pair)
  note spec = process_blocks_spec [OF run]
  have h: "h = absorb_bytes blockSize absorb m R (alg_state a)"
    using spec by (simp add: absorb_bytes_def block_at_def)
  have ws: "drop (m * blockSize) ws = be_words (drop (m * (4 * blockSize)) R)"
    using spec by (simp add: be_words_drop ac_simps)
  have "m * blockSize * 4 \<le> length R" unfolding m_def by (simp add: mult.assoc mult.commute [of 4])
  then have n: "min (m * blockSize * 4) (length R) = m * (4 * blockSize)" by (simp add: min_def ac_simps)
  have m: "length R div (blockSize * 4) = m" by (simp add: m_def mult.commute)
  show ?thesis
    unfolding bba_process_def Let_def assms sigBytes_of_bytes words_of_bytes m_def [symmetric]
    using run h ws n by (simp add: m wa_of_bytes_def)
qed

text \<open>A state that has taken in the bytes \<open>B\<close> since it was reset to \<open>h0\<close>.\<close>

definition taken :: "'h \<Rightarrow> bytes \<Rightarrow> 'h BufferedBlockAlgorithm \<Rightarrow> bool" where
  "taken h0 B a \<longleftrightarrow>
     alg_state a = absorb_bytes blockSize absorb (length B div (4 * blockSize)) B h0 \<and>
     alg_data a = wa_of_bytes (drop (length B div (4 * blockSize) * (4 * blockSize)) B) \<and>
     alg_nDataBytes a = length B"

lemma taken_reset: "taken h0 [] (bba_reset h0)"
  by (simp add: taken_def bba_reset_def absorb_bytes_def WordArray_init_def wa_of_bytes_def be_words_def)

lemma absorb_bytes_append:
  assumes "k * (4 * blockSize) \<le> length A"
  shows "absorb_bytes blockSize absorb (k + m) (A @ B) h =
    absorb_bytes blockSize absorb m (drop (k * (4 * blockSize)) (A @ B)) (absorb_bytes blockSize absorb k A h)"
proof -
  have first: "fold (\<lambda>q. absorb (block_at blockSize (A @ B) q)) [0..<k] h = fold (\<lambda>q. absorb (block_at blockSize A q)) [0..<k] h"
  proof (rule fold_cong [OF refl refl])
    fix q assume "q \<in> set [0..<k]"
    then have "(q + 1) * (4 * blockSize) \<le> k * (4 * blockSize)" by (intro mult_le_mono1) simp
    then show "absorb (block_at blockSize (A @ B) q) = absorb (block_at blockSize A q)"
      using assms by (simp add: block_at_append)
  qed
  have "[0..<k + m] = [0..<k] @ map (\<lambda>q. k + q) [0..<m]" by (induction m) simp_all
  then have "absorb_bytes blockSize absorb (k + m) (A @ B) h =
      fold (\<lambda>q. absorb (block_at blockSize (A @ B) (k + q))) [0..<m] (fold (\<lambda>q. absorb (block_at blockSize (A @ B) q)) [0..<k] h)"
    by (simp add: absorb_bytes_def fold_map comp_def)
  then show ?thesis unfolding first absorb_bytes_def block_at_drop .
qed

lemma taken_update:
  assumes "taken h0 B a" "wa_tidy m"
  shows "taken h0 (B @ wa_bytes m) (hasher_update blockSize doProcessBlock m a)"
proof -
  define n where "n = 4 * blockSize"
  define M where "M = wa_bytes m"
  define k where "k = length B div n"
  define R where "R = drop (k * n) B"
  have n: "0 < n" using blockSize_pos by (simp add: n_def)
  have kn: "k * n \<le> length B" by (simp add: k_def)
  have data: "alg_data (bba_append m a) = wa_of_bytes (R @ M)"
    using assms by (simp add: taken_def bba_append_def wa_concat_of_bytes R_def M_def k_def n_def)
  have split: "length (B @ M) div n = k + length (R @ M) div n"
  proof -
    have "length (B @ M) = k * n + length (R @ M)" using kn by (simp add: R_def)
    then have "length (B @ M) div n = (length (R @ M) + k * n) div n" by (simp add: ac_simps)
    also have "\<dots> = k + length (R @ M) div n" using n by (subst div_mult_self1) simp_all
    finally show ?thesis .
  qed
  have rest: "drop (k * n) (B @ M) = R @ M" using kn by (simp add: R_def)
  have "absorb_bytes blockSize absorb (length (B @ M) div n) (B @ M) h0 =
      absorb_bytes blockSize absorb (length (R @ M) div n) (R @ M) (alg_state a)"
    unfolding split using absorb_bytes_append [of k B "length (R @ M) div n" M h0] kn rest assms(1)
    by (simp add: taken_def n_def k_def)
  moreover have "drop (length (B @ M) div n * n) (B @ M) = drop (length (R @ M) div n * n) (R @ M)"
    unfolding split add_mult_distrib drop_drop [symmetric] add.commute [of "k * n"] rest ..
  ultimately show ?thesis
    unfolding hasher_update_def process_spec [OF data] n_def [symmetric] M_def [symmetric] taken_def
    using assms(1) by (simp add: bba_append_def taken_def M_def)
qed

lemma taken_updates:
  assumes "list_all wa_tidy ms"
  shows "taken h0 (concat (map wa_bytes ms)) (fold (hasher_update blockSize doProcessBlock) ms (bba_reset h0))"
  using assms
proof (induction ms rule: rev_induct)
  case (snoc m ms)
  then show ?case using taken_update [of h0 "concat (map wa_bytes ms)" _ m] by simp
qed (simp add: taken_reset)

text \<open>The state after a block run that need not leave a clean buffer.\<close>

lemma process_state_spec:
  assumes "\<And>i. wget (words (alg_data a)) i = wget (be_words P) i"
  shows "alg_state (snd (bba_process blockSize 0 doProcessBlock False a)) =
    absorb_bytes blockSize absorb (sigBytes (alg_data a) div (4 * blockSize)) P (alg_state a)"
proof -
  define m where "m = sigBytes (alg_data a) div (blockSize * 4)"
  obtain h ws where run: "process_blocks blockSize doProcessBlock (m * blockSize) (alg_state a, words (alg_data a)) = (h, ws)"
    by (metis surj_pair)
  have "alg_state (snd (bba_process blockSize 0 doProcessBlock False a)) = h"
    using run by (simp add: bba_process_def Let_def flip: m_def)
  then show ?thesis
    using process_blocks_spec [OF run] assms
    by (simp add: absorb_bytes_def block_at_def m_def mult.commute)
qed

text \<open>A state that holds the bytes \<open>B\<close>, some of the full blocks of which may still be in the buffer.\<close>

definition holds :: "'h \<Rightarrow> bytes \<Rightarrow> 'h BufferedBlockAlgorithm \<Rightarrow> bool" where
  "holds h0 B a \<longleftrightarrow> (\<exists>k. k * (4 * blockSize) \<le> length B \<and>
     alg_state a = absorb_bytes blockSize absorb k B h0 \<and>
     alg_data a = wa_of_bytes (drop (k * (4 * blockSize)) B) \<and> alg_nDataBytes a = length B)"

lemma taken_holds: "taken h0 B a \<Longrightarrow> holds h0 B a"
  by (auto simp: taken_def holds_def intro!: exI [of _ "length B div (4 * blockSize)"])

lemma holds_append:
  assumes "holds h0 B a" "wa_tidy m"
  shows "holds h0 (B @ wa_bytes m) (bba_append m a)"
proof -
  obtain k where k: "k * (4 * blockSize) \<le> length B" "alg_state a = absorb_bytes blockSize absorb k B h0"
    "alg_data a = wa_of_bytes (drop (k * (4 * blockSize)) B)" "alg_nDataBytes a = length B"
    using assms(1) by (auto simp: holds_def)
  have "absorb_bytes blockSize absorb k (B @ wa_bytes m) h0 = absorb_bytes blockSize absorb k B h0"
    using absorb_bytes_append [OF k(1), of 0 "wa_bytes m" h0] by (simp add: absorb_bytes_def)
  then show ?thesis
    unfolding holds_def bba_append_def using k assms(2)
    by (intro exI [of _ k]) (simp add: wa_concat_of_bytes)
qed

end

end
