(* ===== verification/Cipher_Core.thy ===== *)
theory Cipher_Core
  imports Hasher
begin

text \<open>
  Module \<^verbatim>\<open>cipher-core\<close> of CryptoJS (\<^verbatim>\<open>src/internal/jsre/deps/web3.js\<close>): \<^verbatim>\<open>Cipher\<close>, \<^verbatim>\<open>StreamCipher\<close>,
  \<^verbatim>\<open>BlockCipherMode\<close>, the mode CBC and \<^verbatim>\<open>BlockCipher\<close>. A block cipher is a record of its block size and of the two
  functions that work in place on a word array. Where the source would throw a \<^verbatim>\<open>TypeError\<close> (a chaining mode that was
  given no initialisation vector) the state of the mode is \<open>None\<close>. The locale \<open>block_mode\<close> is the contract of a mode,
  \<open>cipher_pair\<close> that of an encryptor and its decryptor.
\<close>

subsection \<open>Block ciphers and modes\<close>

record BlockCipher =
  bc_blockSize :: nat
  bc_encryptBlock :: "word32 list \<Rightarrow> nat \<Rightarrow> word32 list"
  bc_decryptBlock :: "word32 list \<Rightarrow> nat \<Rightarrow> word32 list"

text \<open>\<open>m_block\<close> is what a mode remembers between blocks: \<^verbatim>\<open>_prevBlock\<close>, \<^verbatim>\<open>_counter\<close> or \<^verbatim>\<open>_keystream\<close>.\<close>

record BlockCipherMode =
  m_iv :: "word32 list option"
  m_block :: "word32 list option"

definition mode_init :: "word32 list option \<Rightarrow> BlockCipherMode" where
  "mode_init iv = \<lparr>m_iv = iv, m_block = None\<rparr>"

type_synonym mode_step = "BlockCipherMode option block_step"

definition js_slice :: "word32 list \<Rightarrow> nat \<Rightarrow> nat \<Rightarrow> word32 list" where
  "js_slice ws i j = take (j - i) (drop i ws)"

definition xor_words :: "nat \<Rightarrow> word32 list \<Rightarrow> nat \<Rightarrow> word32 list \<Rightarrow> word32 list" where
  "xor_words blockSize ws offset block =
     fold (\<lambda>i ws. wset ws (offset + i) (wget ws (offset + i) XOR wget block i)) [0..<blockSize] ws"

definition choose_block :: "BlockCipherMode \<Rightarrow> (word32 list \<times> BlockCipherMode) option" where
  "choose_block m =
     (case m_iv m of Some iv \<Rightarrow> Some (iv, m\<lparr>m_iv := None\<rparr>)
      | None \<Rightarrow> (case m_block m of Some b \<Rightarrow> Some (b, m) | None \<Rightarrow> None))"

definition xorBlock :: "nat \<Rightarrow> word32 list \<Rightarrow> nat \<Rightarrow> BlockCipherMode \<Rightarrow> (word32 list \<times> BlockCipherMode) option" where
  "xorBlock blockSize ws offset m =
     (case choose_block m of None \<Rightarrow> None | Some (block, m) \<Rightarrow> Some (xor_words blockSize ws offset block, m))"

definition cbc_encrypt :: "BlockCipher \<Rightarrow> mode_step" where
  "cbc_encrypt c ws offset st =
     (case st of None \<Rightarrow> (None, ws)
      | Some m \<Rightarrow>
          (case xorBlock (bc_blockSize c) ws offset m of None \<Rightarrow> (None, ws)
           | Some (ws, m) \<Rightarrow>
               let ws = bc_encryptBlock c ws offset
               in (Some (m\<lparr>m_block := Some (js_slice ws offset (offset + bc_blockSize c))\<rparr>), ws)))"

definition cbc_decrypt :: "BlockCipher \<Rightarrow> mode_step" where
  "cbc_decrypt c ws offset st =
     (case st of None \<Rightarrow> (None, ws)
      | Some m \<Rightarrow>
          let thisBlock = js_slice ws offset (offset + bc_blockSize c);
              ws = bc_decryptBlock c ws offset
          in (case xorBlock (bc_blockSize c) ws offset m of None \<Rightarrow> (None, ws)
              | Some (ws, m) \<Rightarrow> (Some (m\<lparr>m_block := Some thisBlock\<rparr>), ws)))"

subsection \<open>Ciphers\<close>

text \<open>
  A cipher at work is a buffered block algorithm. \<open>minBufferSize\<close> is 1 for a decrypting block cipher, which keeps the
  last block for unpadding, and 0 otherwise.
\<close>

definition cipher_process ::
    "nat \<Rightarrow> nat \<Rightarrow> 'h block_step \<Rightarrow> WordArray \<Rightarrow> 'h BufferedBlockAlgorithm \<Rightarrow> WordArray \<times> 'h BufferedBlockAlgorithm"
where
  "cipher_process blockSize minBufferSize step dataUpdate a =
     bba_process blockSize minBufferSize step False (bba_append dataUpdate a)"

definition cipher_finalize ::
    "('h BufferedBlockAlgorithm \<Rightarrow> 'r) \<Rightarrow> WordArray option \<Rightarrow> 'h BufferedBlockAlgorithm \<Rightarrow> 'r" where
  "cipher_finalize doFinalize dataUpdate a =
     doFinalize (case dataUpdate of Some d \<Rightarrow> bba_append d a | None \<Rightarrow> a)"

definition stream_doFinalize ::
    "nat \<Rightarrow> 'h block_step \<Rightarrow> 'h BufferedBlockAlgorithm \<Rightarrow> WordArray \<times> 'h BufferedBlockAlgorithm" where
  "stream_doFinalize blockSize step a = bba_process blockSize 0 step True a"

text \<open>\<^verbatim>\<open>BlockCipher._doFinalize\<close>. A padding may loop forever when it is removed, so \<open>unpad\<close> is partial.\<close>

definition block_encrypt_doFinalize ::
    "nat \<Rightarrow> (WordArray \<Rightarrow> nat \<Rightarrow> WordArray) \<Rightarrow> 'h block_step \<Rightarrow> 'h BufferedBlockAlgorithm \<Rightarrow> WordArray \<times> 'h BufferedBlockAlgorithm"
where
  "block_encrypt_doFinalize blockSize pad step a =
     bba_process blockSize 0 step True (a\<lparr>alg_data := pad (alg_data a) blockSize\<rparr>)"

definition block_decrypt_doFinalize ::
    "nat \<Rightarrow> (WordArray \<Rightarrow> WordArray option) \<Rightarrow> 'h block_step \<Rightarrow> 'h BufferedBlockAlgorithm \<Rightarrow>
      WordArray option \<times> 'h BufferedBlockAlgorithm"
where
  "block_decrypt_doFinalize blockSize unpad step a =
     (let (finalProcessedBlocks, a) = bba_process blockSize 1 step True a
      in (unpad finalProcessedBlocks, a))"

subsection \<open>Blocks\<close>

definition block_of :: "nat \<Rightarrow> word32 list \<Rightarrow> nat \<Rightarrow> word32 list" where
  "block_of n ws offset = map (\<lambda>i. wget ws (offset + i)) [0..<n]"

definition blocks_of :: "nat \<Rightarrow> nat \<Rightarrow> word32 list \<Rightarrow> word32 list list" where
  "blocks_of n m ws = map (\<lambda>q. block_of n ws (q * n)) [0..<m]"

fun mode_run :: "('s \<Rightarrow> 'b \<Rightarrow> 's \<times> 'c) \<Rightarrow> 's \<Rightarrow> 'b list \<Rightarrow> 's \<times> 'c list" where
  "mode_run f s [] = (s, [])"
| "mode_run f s (b # bs) = (let (s, c) = f s b; (s, cs) = mode_run f s bs in (s, c # cs))"

lemma mode_run_append:
  "mode_run f s (bs @ bs') =
     (let (s1, cs) = mode_run f s bs; (s2, cs') = mode_run f s1 bs' in (s2, cs @ cs'))"
  by (induction bs arbitrary: s) (simp_all add: split_beta Let_def)

lemma length_mode_run [simp]: "length (snd (mode_run f s bs)) = length bs"
  by (induction bs arbitrary: s) (simp_all add: split_beta Let_def)

lemma length_block_of [simp]: "length (block_of n ws offset) = n"
  by (simp add: block_of_def)

lemma length_blocks_of [simp]: "length (blocks_of n m ws) = m"
  by (simp add: blocks_of_def)

lemma blocks_of_Suc: "blocks_of n (Suc m) ws = blocks_of n m ws @ [block_of n ws (m * n)]"
  by (simp add: blocks_of_def)

lemma js_steps_mult: "0 < n \<Longrightarrow> js_steps (m * n) n = map (\<lambda>q. q * n) [0..<m]"
proof -
  assume "0 < n"
  then have "(m * n + n - 1) div n = m" by (intro div_nat_eqI) (simp_all add: algebra_simps)
  then show ?thesis by (simp add: js_steps_def)
qed

lemma wget_append: "wget (xs @ ys) i = (if i < length xs then xs ! i else wget ys (i - length xs))"
  by (auto simp: wget_def nth_append)

lemma wget_blocks: "j < m * n \<Longrightarrow> wget (concat (blocks_of n m ws)) j = wget ws j"
proof (induction m)
  case (Suc m)
  have len: "length (concat (blocks_of n m ws)) = m * n" for m by (induction m) (simp_all add: blocks_of_Suc, simp add: blocks_of_def)
  show ?case
  proof (cases "j < m * n")
    case True
    then have "wget (concat (blocks_of n (Suc m) ws)) j = wget (concat (blocks_of n m ws)) j"
      by (simp add: blocks_of_Suc wget_append len) (simp add: wget_def len)
    then show ?thesis using Suc.IH [OF True] by simp
  next
    case False
    then have "j - m * n < n" using Suc.prems by auto
    then show ?thesis using False by (simp add: blocks_of_Suc wget_append len) (simp add: wget_def block_of_def)
  qed
qed simp

lemma blocks_of_concat:
  "\<forall>c \<in> set cs. length c = n \<Longrightarrow> blocks_of n (length cs) (concat cs @ ys) = cs"
proof (induction cs arbitrary: ys rule: rev_induct)
  case (snoc c cs)
  have len: "length (concat cs) = length cs * n" using snoc.prems by (induction cs) auto
  have "block_of n (concat (cs @ [c]) @ ys) (length cs * n) = c"
    using snoc.prems len by (intro nth_equalityI) (simp_all add: block_of_def wget_append nth_append)
  then show ?case using snoc.prems snoc.IH [of "c @ ys"] by (simp add: blocks_of_Suc)
qed (simp add: blocks_of_def)

lemma concat_empty:
  "wa_concat (WordArray_init [] None) v = \<lparr>words = map (wget (words v)) [0..<(sigBytes v + 3) div 4], sigBytes = sigBytes v\<rparr>"
proof -
  have "words (wa_concat (WordArray_init [] None) v) = map (wget (words v)) [0..<(sigBytes v + 3) div 4]"
  proof (rule wget_eqI)
    show "length (words (wa_concat (WordArray_init [] None) v)) = length (map (wget (words v)) [0..<(sigBytes v + 3) div 4])"
      unfolding wa_concat_length by (simp add: WordArray_init_def)
    fix i assume "i < length (words (wa_concat (WordArray_init [] None) v))"
    then have i: "i < (sigBytes v + 3) div 4" unfolding wa_concat_length by (simp add: WordArray_init_def)
    have "words (wa_concat (WordArray_init [] None) v) =
        fold (\<lambda>i ws. wset ws (0 div 4 + i) (wget (words v) i)) [0..<(sigBytes v + 3) div 4] (words (wa_clamp (WordArray_init [] None)))"
      by (simp add: wa_concat_def Let_def WordArray_init_def flip: concat_words_eq [of 0, simplified])
    then show "wget (words (wa_concat (WordArray_init [] None) v)) i = wget (map (wget (words v)) [0..<(sigBytes v + 3) div 4]) i"
      using i fold_wset [of 0 "wget (words v)" "(sigBytes v + 3) div 4"] by (simp add: wget_def [of "map _ _"])
  qed
  moreover have "sigBytes (wa_concat (WordArray_init [] None) v) = sigBytes v" by (simp add: WordArray_init_def)
  ultimately show ?thesis by (cases "wa_concat (WordArray_init [] None) v") simp
qed

subsection \<open>The contract of a mode\<close>

locale block_mode =
  fixes n :: nat
    and step :: "'s block_step"
    and f :: "'s \<Rightarrow> word32 list \<Rightarrow> 's \<times> word32 list"
    and good :: "'s \<Rightarrow> bool"
  assumes pos: "0 < n"
    and out: "good s \<Longrightarrow> offset \<le> length ws \<Longrightarrow>
      snd (step ws offset s) = take offset ws @ snd (f s (block_of n ws offset)) @ drop (offset + n) ws"
    and state: "good s \<Longrightarrow> offset + n \<le> length ws \<Longrightarrow> fst (step ws offset s) = fst (f s (block_of n ws offset))"
    and stays: "good s \<Longrightarrow> offset \<le> length ws \<Longrightarrow> good (fst (step ws offset s))"
    and keeps: "good s \<Longrightarrow> length b = n \<Longrightarrow> good (fst (f s b))" "good s \<Longrightarrow> length b = n \<Longrightarrow> length (snd (f s b)) = n"
begin

lemma run_keeps:
  assumes "good s" "\<forall>b \<in> set bs. length b = n"
  shows "good (fst (mode_run f s bs)) \<and> (\<forall>c \<in> set (snd (mode_run f s bs)). length c = n)"
  using assms
proof (induction bs arbitrary: s)
  case (Cons b bs)
  then show ?case using Cons.IH [of "fst (f s b)"] by (auto simp: split_beta Let_def keeps)
qed simp

lemma blocks_length: "\<forall>b \<in> set (blocks_of n m ws). length b = n"
  by (auto simp: blocks_of_def)

lemma concat_length: "\<forall>c \<in> set cs. length c = n \<Longrightarrow> length (concat cs) = length cs * n"
  by (induction cs) auto

lemma process_blocks:
  assumes "good s" "(m - 1) * n \<le> length ws"
  shows "snd (Hasher.process_blocks n step (m * n) (s, ws)) = concat (snd (mode_run f s (blocks_of n m ws))) @ drop (m * n) ws
    \<and> (m * n \<le> length ws \<longrightarrow> fst (Hasher.process_blocks n step (m * n) (s, ws)) = fst (mode_run f s (blocks_of n m ws)))"
  using assms(2)
proof (induction m)
  case 0
  then show ?case using js_steps_mult [OF pos, of 0] by (simp add: process_blocks_def blocks_of_def)
next
  case (Suc m)
  obtain s1 ws1 where p: "Hasher.process_blocks n step (m * n) (s, ws) = (s1, ws1)" by (metis surj_pair)
  obtain s2 cs where r: "mode_run f s (blocks_of n m ws) = (s2, cs)" by (metis surj_pair)
  have le: "m * n \<le> length ws" using Suc.prems by simp
  have "(m - 1) * n \<le> m * n" by simp
  then have "(m - 1) * n \<le> length ws" using le by (rule le_trans)
  then have IH: "ws1 = concat cs @ drop (m * n) ws" "s1 = s2" using Suc.IH le p r by auto
  have keep: "good s2" "length (concat cs) = m * n"
    using run_keeps [OF assms(1) blocks_length, of m ws] concat_length [of cs] length_mode_run [of f s "blocks_of n m ws"] r
    by auto
  have "block_of n ws1 (m * n) = block_of n ws (m * n)"
    using keep(2) le by (simp add: block_of_def IH(1) wget_def nth_append)
  moreover have step: "Hasher.process_blocks n step (Suc m * n) (s, ws) = step ws1 (m * n) s1"
    using p pos by (simp only: process_blocks_def js_steps_mult) simp
  moreover have "m * n \<le> length ws1" "Suc m * n \<le> length ws \<longrightarrow> m * n + n \<le> length ws1" using keep(2) le by (auto simp: IH(1))
  ultimately show ?case
    using out [of s2 "m * n" ws1] state [of s2 "m * n" ws1] keep IH r
    by (simp add: blocks_of_Suc mode_run_append split_beta Let_def add.commute)
qed

lemma process_good:
  assumes "good s" "(m - 1) * n \<le> length ws"
  shows "good (fst (Hasher.process_blocks n step (m * n) (s, ws)))"
proof (cases m)
  case 0
  then show ?thesis using js_steps_mult [OF pos, of 0] assms(1) by (simp add: process_blocks_def)
next
  case (Suc k)
  obtain s1 ws1 where p: "Hasher.process_blocks n step (k * n) (s, ws) = (s1, ws1)" by (metis surj_pair)
  have "(k - 1) * n \<le> k * n" by simp
  moreover have le: "k * n \<le> length ws" using assms(2) Suc by simp
  ultimately have "(k - 1) * n \<le> length ws" by (rule le_trans)
  from process_blocks [OF assms(1) this] le p
  have "s1 = fst (mode_run f s (blocks_of n k ws))" "ws1 = concat (snd (mode_run f s (blocks_of n k ws))) @ drop (k * n) ws"
    by simp_all
  moreover have "length (concat (snd (mode_run f s (blocks_of n k ws)))) = k * n"
    using run_keeps [OF assms(1) blocks_length, of k ws] concat_length [of "snd (mode_run f s (blocks_of n k ws))"] by simp
  ultimately have "good s1" "k * n \<le> length ws1" using run_keeps [OF assms(1) blocks_length, of k ws] by simp_all
  moreover have "Hasher.process_blocks n step (Suc k * n) (s, ws) = step ws1 (k * n) s1"
    using p pos by (simp only: process_blocks_def js_steps_mult) simp
  ultimately show ?thesis using stays Suc by simp
qed

text \<open>Number of blocks of a message, and the words that come out when the buffer is flushed.\<close>

definition nblocks :: "nat \<Rightarrow> nat" where
  "nblocks bytes = (bytes + n * 4 - 1) div (n * 4)"

lemma nblocks_bounds: "bytes \<le> nblocks bytes * (n * 4)" "(nblocks bytes - 1) * (n * 4) < bytes \<or> bytes = 0"
proof -
  define k where "k = n * 4"
  have k: "0 < k" using pos by (simp add: k_def)
  have "bytes \<le> (bytes + k - 1) div k * k"
    using k div_mult_mod_eq [of "bytes + k - 1" k] mod_less_divisor [OF k, of "bytes + k - 1"] by linarith
  then show "bytes \<le> nblocks bytes * (n * 4)" by (simp add: nblocks_def k_def)
  have "((bytes + k - 1) div k - 1) * k < bytes \<or> bytes = 0"
  proof (cases "bytes = 0")
    case False
    have "(bytes + k - 1) div k * k \<le> bytes + k - 1" by (rule div_times_less_eq_dividend)
    then have "(bytes + k - 1) div k * k - k < bytes" using False k by linarith
    then show ?thesis by (simp add: diff_mult_distrib)
  qed simp
  then show "(nblocks bytes - 1) * (n * 4) < bytes \<or> bytes = 0" by (simp add: nblocks_def k_def)
qed

lemma nblocks_0 [simp]: "nblocks 0 = 0"
  using pos by (simp add: nblocks_def)

lemma nblocks_words: "(nblocks bytes - 1) * n \<le> (bytes + 3) div 4"
proof (cases "bytes = 0")
  case False
  then have "(nblocks bytes - 1) * n * 4 < bytes" using nblocks_bounds(2) [of bytes] by (simp add: mult.assoc)
  then show ?thesis by linarith
qed simp

lemma flush:
  assumes "good (alg_state a)" "(sigBytes (alg_data a) + 3) div 4 \<le> length (words (alg_data a)) \<or>
      (nblocks (sigBytes (alg_data a)) - 1) * n \<le> length (words (alg_data a))"
  shows "fst (bba_process n minBuf step True a) =
    \<lparr>words = concat (snd (mode_run f (alg_state a) (blocks_of n (nblocks (sigBytes (alg_data a))) (words (alg_data a))))),
     sigBytes = sigBytes (alg_data a)\<rparr>"
proof -
  let ?b = "sigBytes (alg_data a)" and ?ws = "words (alg_data a)"
  define cs where "cs = snd (mode_run f (alg_state a) (blocks_of n (nblocks ?b) ?ws))"
  have le: "(nblocks ?b - 1) * n \<le> length ?ws" using assms(2) nblocks_words [of ?b] le_trans by blast
  have out: "snd (Hasher.process_blocks n step (nblocks ?b * n) (alg_state a, ?ws)) = concat cs @ drop (nblocks ?b * n) ?ws"
    using process_blocks [OF assms(1) le] by (simp add: cs_def)
  have "length (concat cs) = nblocks ?b * n"
    using run_keeps [OF assms(1) blocks_length] concat_length [of cs] by (simp add: cs_def)
  moreover have "min (nblocks ?b * n * 4) ?b = ?b" using nblocks_bounds(1) [of ?b] by (simp add: mult.assoc)
  ultimately show ?thesis
    using out by (simp add: bba_process_def Let_def split_beta WordArray_init_def nblocks_def cs_def)
qed

lemma flush_good:
  assumes "good (alg_state a)" "(nblocks (sigBytes (alg_data a)) - 1) * n \<le> length (words (alg_data a))"
  shows "good (alg_state (snd (bba_process n minBuf step True a)))"
  using process_good [OF assms] by (simp add: bba_process_def Let_def split_beta nblocks_def)

end

subsection \<open>An encryptor and its decryptor\<close>

text \<open>
  With \<open>partial\<close> the decryptor treats the words of a block one by one, so that a last block may be cut short.
\<close>

locale cipher_pair =
  enc: block_mode n estep ef good + dec: block_mode n dstep df good
  for n :: nat and estep :: "'s block_step" and ef :: "'s \<Rightarrow> word32 list \<Rightarrow> 's \<times> word32 list"
    and dstep :: "'s block_step" and df :: "'s \<Rightarrow> word32 list \<Rightarrow> 's \<times> word32 list" and good :: "'s \<Rightarrow> bool" +
  fixes partial :: bool
  assumes inverse: "good s \<Longrightarrow> length b = n \<Longrightarrow> df s (snd (ef s b)) = (fst (ef s b), b)"
    and wordwise: "partial \<Longrightarrow> good s \<Longrightarrow> length b = n \<Longrightarrow> length b' = n \<Longrightarrow> take k b = take k b' \<Longrightarrow>
      take k (snd (df s b)) = take k (snd (df s b'))"
begin

lemma run_inverse:
  assumes "good s" "\<forall>b \<in> set bs. length b = n"
  shows "mode_run df s (snd (mode_run ef s bs)) = (fst (mode_run ef s bs), bs)"
  using assms
proof (induction bs arbitrary: s)
  case (Cons b bs)
  then show ?case using Cons.IH [of "fst (ef s b)"] by (simp add: split_beta Let_def inverse enc.keeps)
qed simp

text \<open>
  Decrypting an encrypted buffer gives its bytes back, if the buffer fills its blocks or the last one may be cut.
\<close>

lemma words_round_trip:
  fixes d :: WordArray
  defines "m \<equiv> enc.nblocks (sigBytes d)" and "k \<equiv> (sigBytes d + 3) div 4"
  assumes good: "good s" and fits: "partial \<or> n * 4 dvd sigBytes d"
    and C: "C = concat (snd (mode_run ef s (blocks_of n m (words d))))"
    and j: "j < k"
  shows "wget (concat (snd (mode_run df s (blocks_of n m (map (wget C) [0..<k]))))) j = wget (words d) j"
proof -
  obtain m' where m: "m = Suc m'" using j by (cases m) (use enc.nblocks_bounds(1) [of "sigBytes d"] in \<open>auto simp: m_def k_def\<close>)
  have low: "m' * n \<le> k" using enc.nblocks_words [of "sigBytes d"] m by (simp add: m_def k_def)
  have high: "k \<le> m * n" using enc.nblocks_bounds(1) [of "sigBytes d"] by (simp add: m_def k_def mult.assoc)
  define bs where "bs = blocks_of n m' (words d)"
  define b where "b = block_of n (words d) (m' * n)"
  obtain s1 cs where r: "mode_run ef s bs = (s1, cs)" by (metis surj_pair)
  define c where "c = snd (ef s1 b)"
  have keep: "good s1" "\<forall>c \<in> set cs. length c = n" "length cs = m'"
    using enc.run_keeps [OF good enc.blocks_length, of m' "words d"] arg_cong [OF r, of "\<lambda>x. length (snd x)"] r by (simp_all add: bs_def)
  have b: "length b = n" "length c = n" using enc.keeps(2) [OF keep(1)] by (simp_all add: b_def c_def)
  have C: "C = concat cs @ c"
    using r by (simp add: C m blocks_of_Suc mode_run_append split_beta Let_def c_def b_def bs_def)
  have len: "length (concat cs) = m' * n" using enc.concat_length [OF keep(2)] keep(3) by simp
  define t where "t = k - m' * n"
  have t: "t \<le> n" "k = m' * n + t" using low high by (simp_all add: t_def m)
  have D: "map (wget C) [0..<k] = concat cs @ take t c"
    using t b(2) by (intro nth_equalityI) (auto simp: C wget_append len nth_append wget_def)
  define c' where "c' = block_of n (concat cs @ take t c) (m' * n)"
  have c': "length c' = n" "take t c' = take t c"
    using t(1) b(2) by (simp_all add: c'_def) (intro nth_equalityI, simp_all add: block_of_def wget_append len, simp add: wget_def)
  have bl: "blocks_of n m (concat cs @ take t c) = cs @ [c']"
    using blocks_of_concat [OF keep(2)] keep(3) by (simp add: m blocks_of_Suc c'_def)
  have "mode_run df s cs = (s1, bs)" using run_inverse [OF good enc.blocks_length, of m' "words d"] r by (simp add: bs_def)
  then have P: "concat (snd (mode_run df s (cs @ [c']))) = concat bs @ snd (df s1 c')"
    by (simp add: mode_run_append split_beta Let_def)
  have "take t (snd (df s1 c')) = take t b"
  proof -
    have dc: "df s1 c = (fst (ef s1 b), b)" using inverse [OF keep(1) b(1)] by (simp add: c_def)
    show ?thesis
    proof (cases "n * 4 dvd sigBytes d")
      case True
      then obtain q where "sigBytes d = n * 4 * q" by (auto simp: dvd_def)
      then have "k = q * n" "m = q" using enc.pos enc.nblocks_def [of "sigBytes d"]
        by (simp_all add: k_def m_def div_nat_eqI mult.commute)
      then have "t = n" using t(2) m by auto
      then have "c' = c" using c' b(2) by simp
      then show ?thesis using dc by simp
    next
      case False
      then show ?thesis using wordwise [OF _ keep(1) c'(1) b(2) c'(2)] fits dc by simp
    qed
  qed
  moreover have "length (snd (df s1 c')) = n" using dec.keeps(2) [OF keep(1) c'(1)] .
  moreover have lb: "length (concat bs) = m' * n" using enc.concat_length [OF enc.blocks_length, of m' "words d"] by (simp add: bs_def)
  ultimately have "wget (concat bs @ snd (df s1 c')) j = wget (concat bs @ b) j"
    using j t b(1) by (simp add: wget_append) (metis (no_types, lifting) less_diff_conv2 linorder_not_less nth_take order_less_le_trans wget_def add.commute)
  moreover have "concat bs @ b = concat (blocks_of n m (words d))" by (simp add: m blocks_of_Suc bs_def b_def)
  ultimately show ?thesis unfolding D bl P using wget_blocks [of j m n "words d"] j high by simp
qed

lemma round_trip:
  assumes good: "good (alg_state a)" and fits: "partial \<or> n * 4 dvd sigBytes (alg_data a)"
    and buffer: "(enc.nblocks (sigBytes (alg_data a)) - 1) * n \<le> length (words (alg_data a))"
    and a': "alg_state a' = alg_state a"
      "alg_data a' = wa_concat (WordArray_init [] None) (fst (bba_process n i estep True a))"
  shows "wa_bytes (fst (bba_process n j dstep True a')) = wa_bytes (alg_data a)"
proof -
  let ?d = "alg_data a"
  define C where "C = concat (snd (mode_run ef (alg_state a) (blocks_of n (enc.nblocks (sigBytes ?d)) (words ?d))))"
  have ct: "fst (bba_process n i estep True a) = \<lparr>words = C, sigBytes = sigBytes ?d\<rparr>"
    using enc.flush [OF good disjI2 [OF buffer]] by (simp add: C_def)
  have d': "alg_data a' = \<lparr>words = map (wget C) [0..<(sigBytes ?d + 3) div 4], sigBytes = sigBytes ?d\<rparr>"
    unfolding a'(2) ct concat_empty by simp
  have pt: "fst (bba_process n j dstep True a') =
      \<lparr>words = concat (snd (mode_run df (alg_state a) (blocks_of n (enc.nblocks (sigBytes ?d)) (map (wget C) [0..<(sigBytes ?d + 3) div 4])))),
       sigBytes = sigBytes ?d\<rparr>"
    using dec.flush [of a' j] good by (simp add: a'(1) d')
  have "i div 4 < (b + 3) div 4" if "i < b" for i b :: nat using that by presburger
  then have "wbyte (words (fst (bba_process n j dstep True a'))) i = wbyte (words ?d) i" if "i < sigBytes ?d" for i
    unfolding pt using words_round_trip [OF good fits C_def, of "i div 4"] that by (intro wbyte_cong) simp
  then show ?thesis unfolding wa_bytes_def pt by simp
qed

end

end
