(* ===== verification/Merkle_Damgard.thy ===== *)
theory Merkle_Damgard
  imports Hasher
begin

text \<open>
  The padding that \<^verbatim>\<open>MD5\<close>, \<^verbatim>\<open>SHA1\<close>, \<^verbatim>\<open>SHA256\<close>, \<^verbatim>\<open>SHA512\<close> and \<^verbatim>\<open>RIPEMD160\<close> of CryptoJS write into their last
  words (\<^verbatim>\<open>src/internal/jsre/deps/web3.js\<close>), compared with the padding of the standards: a byte
  0x80, zeros, and the number of bits of the message. The locale \<open>md_hasher\<close> carries the comparison
  over to whole hash runs.
\<close>

subsection \<open>What the code writes\<close>

text \<open>\<^verbatim>\<open>n >>> k\<close> of a number.\<close>

definition ushr :: "nat \<Rightarrow> nat \<Rightarrow> nat" where
  "ushr n k = (n mod 2 ^ 32) div 2 ^ k"

text \<open>\<^verbatim>\<open>dataWords[nBitsLeft >>> 5] |= 0x80 << (24 - nBitsLeft % 32)\<close>\<close>

definition pad_bit :: "word32 list \<Rightarrow> nat \<Rightarrow> word32 list" where
  "pad_bit ws nBitsLeft =
     wset ws (ushr nBitsLeft 5) (wget ws (ushr nBitsLeft 5) OR shl 0x80 (24 - nBitsLeft mod 32))"

text \<open>
  \<^verbatim>\<open>((x << 8) | (x >>> 24)) & 0x00ff00ff | ((x << 24) | (x >>> 8)) & 0xff00ff00\<close>
\<close>

definition bswap :: "word32 \<Rightarrow> word32" where
  "bswap x = ((shl x 8 OR shr x 24) AND 0x00ff00ff) OR ((shl x 24 OR shr x 8) AND 0xff00ff00)"

text \<open>The loops of \<^verbatim>\<open>MD5\<close> and \<^verbatim>\<open>RIPEMD160\<close> that turn the words of a block, and of the hash, around.\<close>

definition swap_block :: "nat \<Rightarrow> word32 list \<Rightarrow> word32 list" where
  "swap_block offset M = fold (\<lambda>i M. wset M (offset + i) (bswap (wget M (offset + i)))) [0..<16] M"

subsection \<open>What the standards say\<close>

definition be64 :: "nat \<Rightarrow> bytes" where
  "be64 n = map (\<lambda>i. of_nat (n div 256 ^ (7 - i))) [0..<8]"

definition le64 :: "nat \<Rightarrow> bytes" where
  "le64 n = map (\<lambda>i. of_nat (n div 256 ^ i)) [0..<8]"

text \<open>
  A message of \<open>n\<close> bytes is filled up so that \<open>r\<close> bytes remain in the last block of \<open>b\<close> bytes; the last
  eight of them hold the length, the others are zero.
\<close>

definition md_zeros :: "nat \<Rightarrow> nat \<Rightarrow> nat \<Rightarrow> nat" where
  "md_zeros b r n = (2 * b - r - 1 - n mod b) mod b + (r - 8)"

definition md_pad :: "nat \<Rightarrow> nat \<Rightarrow> (nat \<Rightarrow> bytes) \<Rightarrow> bytes \<Rightarrow> bytes" where
  "md_pad b r len B = B @ 0x80 # replicate (md_zeros b r (length B)) 0 @ len (8 * length B)"

definition md_hash :: "nat \<Rightarrow> nat \<Rightarrow> (nat \<Rightarrow> bytes) \<Rightarrow> (word32 list \<Rightarrow> 'h \<Rightarrow> 'h) \<Rightarrow> 'h \<Rightarrow> bytes \<Rightarrow> 'h" where
  "md_hash n r len absorb h0 B =
     (let P = md_pad (4 * n) r len B in absorb_bytes n absorb (length P div (4 * n)) P h0)"

subsection \<open>Bytes of a word\<close>

definition word_bytes :: "word32 \<Rightarrow> bytes" where
  "word_bytes w = map (\<lambda>i. ucast (drop_bit (24 - 8 * i) w)) [0..<4]"

lemma length_word_bytes [simp]: "length (word_bytes w) = 4"
  by (simp add: word_bytes_def)

lemma wbyte_word_bytes: "wbyte ws i = word_bytes (wget ws (i div 4)) ! (i mod 4)"
proof (rule bit_word_eqI)
  fix k assume "k < LENGTH(8)"
  then show "bit (wbyte ws i) k = bit (word_bytes (wget ws (i div 4)) ! (i mod 4)) k"
    unfolding bit_wbyte word_bytes_def by (simp add: bit_ucast_iff bit_drop_bit_eq mult.commute)
qed

lemma list4_eqI: "length xs = 4 \<Longrightarrow> length ys = 4 \<Longrightarrow> (\<And>i. i < 4 \<Longrightarrow> xs ! i = ys ! i) \<Longrightarrow> xs = ys"
  by (rule nth_equalityI) simp_all

lemma upt_4: "[0..<4] = [0, 1, 2, 3]" and upt_8: "[0..<8] = [0, 1, 2, 3, 4, 5, 6, 7]"
  by code_simp+

lemma word_bytes_of_nat: "word_bytes (of_nat n) = map (\<lambda>i. of_nat (n div 256 ^ (3 - i))) [0..<4]"
proof (rule list4_eqI)
  fix i :: nat assume i: "i < 4"
  have "ucast (drop_bit (24 - 8 * i) (of_nat n :: word32)) = (of_nat (n div 256 ^ (3 - i)) :: byte)"
  proof (rule bit_word_eqI)
    fix k assume "k < LENGTH(8)"
    then have k: "k < 8" by simp
    have p: "(256 :: nat) ^ (3 - i) = 2 ^ (24 - 8 * i)"
    proof -
      have "(256 :: nat) ^ (3 - i) = (2 ^ 8) ^ (3 - i)" by simp
      also have "\<dots> = 2 ^ (8 * (3 - i))" by (simp only: power_mult)
      also have "8 * (3 - i) = 24 - 8 * i" by simp
      finally show ?thesis .
    qed
    show "bit (ucast (drop_bit (24 - 8 * i) (of_nat n :: word32)) :: byte) k =
        bit (of_nat (n div 256 ^ (3 - i)) :: byte) k"
      unfolding p using i k
      by (auto simp: bit_ucast_iff bit_drop_bit_eq bit_of_nat_iff simp flip: drop_bit_eq_div)
  qed
  then show "word_bytes (of_nat n) ! i = map (\<lambda>i. of_nat (n div 256 ^ (3 - i))) [0..<4] ! i"
    using i by (simp add: word_bytes_def)
qed (simp_all)

lemma be64_words: "be64 n = word_bytes (of_nat (n div 2 ^ 32)) @ word_bytes (of_nat n)"
  unfolding be64_def word_bytes_of_nat by (simp add: upt_4 upt_8 flip: div_mult2_eq)

lemma bit_bswap_masks: "bit (0x00ff00ff :: word32) k \<longleftrightarrow> k < 8 \<or> 16 \<le> k \<and> k < 24"
  "bit (0xff00ff00 :: word32) k \<longleftrightarrow> 8 \<le> k \<and> k < 16 \<or> 24 \<le> k \<and> k < 32"
proof -
  have m: "(0x00ff00ff :: word32) = mask 8 OR push_bit 16 (mask 8)"
    "(0xff00ff00 :: word32) = push_bit 8 (mask 8) OR push_bit 24 (mask 8)"
    by (simp_all add: mask_eq_exp_minus_1)
  show "bit (0x00ff00ff :: word32) k \<longleftrightarrow> k < 8 \<or> 16 \<le> k \<and> k < 24"
    unfolding m by (auto simp: bit_or_iff bit_push_bit_iff bit_mask_iff)
  show "bit (0xff00ff00 :: word32) k \<longleftrightarrow> 8 \<le> k \<and> k < 16 \<or> 24 \<le> k \<and> k < 32"
    unfolding m by (auto simp: bit_or_iff bit_push_bit_iff bit_mask_iff)
qed

lemma bit_bswap: "r < 4 \<Longrightarrow> k < 8 \<Longrightarrow> bit (bswap x) (8 * r + k) = bit x (24 - 8 * r + k)"
proof -
  assume "r < 4" and k: "k < 8"
  then have "r = 0 \<or> r = 1 \<or> r = 2 \<or> r = 3" by auto
  then show ?thesis
    using k unfolding bswap_def bit_or_iff bit_and_iff bit_bswap_masks bit_shl bit_shr
    by (elim disjE) (auto dest: word32_bit_len)
qed

lemma word_bytes_bswap: "word_bytes (bswap x) = rev (word_bytes x)"
proof (rule list4_eqI)
  fix i :: nat assume i: "i < 4"
  have "ucast (drop_bit (24 - 8 * i) (bswap x)) = (ucast (drop_bit (8 * i) x) :: byte)"
  proof (rule bit_word_eqI)
    fix k assume "k < LENGTH(8)"
    then have k: "k < 8" by simp
    have "24 - 8 * i = 8 * (3 - i)" "24 - 8 * (3 - i) = 8 * i" "3 - i < 4" using i by auto
    then show "bit (ucast (drop_bit (24 - 8 * i) (bswap x)) :: byte) k = bit (ucast (drop_bit (8 * i) x) :: byte) k"
      using k bit_bswap [of "3 - i" k x] by (simp add: bit_ucast_iff bit_drop_bit_eq)
  qed
  moreover have "24 - 8 * (3 - i) = 8 * i" "3 - i < 4" using i by auto
  ultimately show "word_bytes (bswap x) ! i = rev (word_bytes x) ! i"
    using i by (simp add: word_bytes_def rev_nth)
qed simp_all

lemma le64_words: "le64 n = word_bytes (bswap (of_nat n)) @ word_bytes (bswap (of_nat (n div 2 ^ 32)))"
  unfolding le64_def word_bytes_bswap word_bytes_of_nat
  by (simp add: upt_4 upt_8 flip: div_mult2_eq)

lemma wget_swap_block:
  "wget (swap_block offset M) j = (if offset \<le> j \<and> j < offset + 16 then bswap (wget M j) else wget M j)"
proof -
  have "wget (fold (\<lambda>i M. wset M (offset + i) (bswap (wget M (offset + i)))) [0..<n] M) j =
      (if offset \<le> j \<and> j < offset + n then bswap (wget M j) else wget M j)" for n
    by (induction n) auto
  then show ?thesis by (simp add: swap_block_def)
qed

lemma drop_wset: "i < k \<Longrightarrow> drop k (wset ws i v) = drop k ws"
  by (simp add: wset_def)

lemma drop_swap_block: "drop (offset + 16) (swap_block offset M) = drop (offset + 16) M"
proof -
  have "n \<le> 16 \<Longrightarrow> drop (offset + 16) (fold (\<lambda>i M. wset M (offset + i) (bswap (wget M (offset + i)))) [0..<n] M) =
      drop (offset + 16) M" for n
    by (induction n) (simp_all add: drop_wset)
  then show ?thesis by (simp add: swap_block_def)
qed

subsection \<open>The padded words\<close>

lemma pad_bit_byte:
  assumes "8 * r < 2 ^ 32"
  shows "pad_bit ws (8 * r) = or_byte ws r (ucast (0x80 :: byte))"
proof -
  have "ushr (8 * r) 5 = r div 4"
  proof -
    have "8 * r div 32 = r div 4" using div_mult_mult1 [of 8 r 4] by simp
    then show ?thesis using assms by (simp add: ushr_def)
  qed
  moreover have "8 * r mod 32 = r mod 4 * 8" using mult_mod_right [of 8 r 4] by (simp add: mult.commute)
  ultimately show ?thesis by (simp add: pad_bit_def or_byte_def)
qed

lemma nth_word_bytes_wset:
  "wbyte (wset ws j x) i = (if i div 4 = j then word_bytes x ! (i mod 4) else wbyte ws i)"
  by (simp add: wbyte_word_bytes)

lemma md_words:
  assumes "length R < 4 * j" "8 * length R < 2 ^ 32"
  shows "wset (wset (pad_bit (be_words R) (8 * length R)) j x) (Suc j) y =
    be_words (R @ 0x80 # replicate (4 * j - length R - 1) 0 @ word_bytes x @ word_bytes y)" (is "?W = be_words ?P")
proof (rule words_eqI)
  have "(length R + 3) div 4 \<le> j" "length R div 4 < j" using assms(1) by linarith+
  moreover have "length ?P = 4 * (j + 2)" using assms(1) by simp
  ultimately show "length ?W = length (be_words ?P)"
    by (simp only: length_wset length_be_words pad_bit_byte [OF assms(2)] length_or_byte) simp
  fix i :: nat
  obtain a r where i: "i = 4 * a + r" "r < 4" "i div 4 = a" "i mod 4 = r" by (rule div_4_split)
  have base: "wbyte (pad_bit (be_words R) (8 * length R)) i = byte_at (R @ [0x80]) i"
    unfolding pad_bit_byte [OF assms(2)] wbyte_or_byte by (auto simp: byte_at_def nth_append)
  have "byte_at ?P i = (if a < j then byte_at (R @ [0x80]) i else if a = j then word_bytes x ! r
      else if a = Suc j then word_bytes y ! r else 0)"
    using i assms(1) by (auto simp: byte_at_def nth_append nth_Cons' nth_replicate)
  then show "wbyte ?W i = wbyte (be_words ?P) i"
    unfolding nth_word_bytes_wset base wbyte_be_words i(3,4) using assms(1) i
    by (auto simp: byte_at_def nth_append)
qed

subsection \<open>The contract of a hash function of this kind\<close>

lemma md_zeros_eq:
  assumes "8 \<le> r" "r \<le> b" "0 < b"
  shows "(n + r) div b * b + b - 8 - n - 1 = md_zeros b r n" "n < (n + r) div b * b + b - 8"
proof -
  define k t where "k = n div b" and "t = n mod b"
  have n: "n = k * b + t" "t < b" using assms(3) by (simp_all add: k_def t_def)
  have div: "(n + r) div b = k + (t + r) div b" unfolding n(1) using assms(3) by (simp add: add.assoc)
  show "(n + r) div b * b + b - 8 - n - 1 = md_zeros b r n" and "n < (n + r) div b * b + b - 8"
  proof (atomize (full), cases "t + r < b")
    case True
    have "(2 * b - r - 1 - t) mod b = b - r - 1 - t"
    proof -
      have "2 * b - r - 1 - t = (b - r - 1 - t) + b" using True by simp
      then have "(2 * b - r - 1 - t) mod b = (b - r - 1 - t) mod b" by (simp only: mod_add_self2)
      then show ?thesis using assms(3) True by (simp only: mod_less)
    qed
    moreover have "(t + r) div b = 0" using True by simp
    ultimately show "(n + r) div b * b + b - 8 - n - 1 = md_zeros b r n \<and> n < (n + r) div b * b + b - 8"
      using True assms n unfolding div md_zeros_def t_def [symmetric] by (auto simp: add_mult_distrib)
  next
    case False
    then have "(t + r) div b = 1" using assms n(2) by (intro div_nat_eqI) auto
    moreover have "(2 * b - r - 1 - t) mod b = 2 * b - r - 1 - t" using False assms by (intro mod_less) auto
    ultimately show "(n + r) div b * b + b - 8 - n - 1 = md_zeros b r n \<and> n < (n + r) div b * b + b - 8"
      using False assms n unfolding div md_zeros_def t_def [symmetric] by (auto simp: add_mult_distrib)
  qed
qed

locale md_hasher = block_algorithm blockSize doProcessBlock absorb
  for blockSize :: nat and doProcessBlock :: "'h block_step" and absorb :: "word32 list \<Rightarrow> 'h \<Rightarrow> 'h" +
  fixes reserved shift :: nat
  assumes reserved: "8 \<le> reserved" "reserved \<le> 4 * blockSize"
    and blockSize_ge: "2 \<le> blockSize"
    and shift: "2 ^ shift = 32 * blockSize"
begin

text \<open>The word in which the code puts the first half of the length.\<close>

definition length_at :: "nat \<Rightarrow> nat" where
  "length_at nBitsLeft = ushr (nBitsLeft + 8 * reserved) shift * blockSize + (blockSize - 2)"

lemma length_at_bytes:
  assumes "8 * (n + reserved) < 2 ^ 32"
  shows "4 * length_at (8 * n) = (n + reserved) div (4 * blockSize) * (4 * blockSize) + 4 * blockSize - 8"
proof -
  have "ushr (8 * n + 8 * reserved) shift = 8 * (n + reserved) div (8 * (4 * blockSize))"
    using assms shift by (simp add: ushr_def)
  also have "\<dots> = (n + reserved) div (4 * blockSize)" by (rule div_mult_mult1) simp
  finally show ?thesis using blockSize_ge by (simp add: length_at_def)
qed

lemma finish:
  assumes h: "holds h0 B a" and small: "8 * (length B + reserved) < 2 ^ 32"
    and nBits: "nBits = sigBytes (alg_data a) * 8"
    and words: "\<And>i. wget ws i =
      wget (wset (wset (pad_bit (words (alg_data a)) nBits) (length_at nBits) x) (Suc (length_at nBits)) y) i"
    and sig: "s div (4 * blockSize) = Suc (length_at nBits) div blockSize + 1"
    and len: "word_bytes x @ word_bytes y = len (8 * length B)"
  shows "alg_state (snd (bba_process blockSize 0 doProcessBlock False (a\<lparr>alg_data := \<lparr>words = ws, sigBytes = s\<rparr>\<rparr>))) =
    md_hash blockSize reserved len absorb h0 B"
proof -
  define b where "b = 4 * blockSize"
  have b: "0 < b" "reserved \<le> b" using reserved blockSize_ge by (auto simp: b_def)
  obtain k where k: "k * b \<le> length B" "alg_state a = absorb_bytes blockSize absorb k B h0"
      "alg_data a = wa_of_bytes (drop (k * b) B)"
    using h by (auto simp: holds_def b_def)
  define R where "R = drop (k * b) B"
  have B: "length B = length R + k * b" using k(1) by (simp add: R_def)
  define tail where "tail = 0x80 # replicate (md_zeros b reserved (length B)) 0 @ len (8 * length B)"
  have small': "8 * (length R + reserved) < 2 ^ 32" using small B by simp
  have bits: "nBits = 8 * length R" by (simp add: nBits k(3) R_def)
  note at = length_at_bytes [OF small', folded bits b_def]
  note z = md_zeros_eq [OF reserved(1) b(2,1), of "length R"]
  have zeros: "4 * length_at nBits - length R - 1 = md_zeros b reserved (length B)" "length R < 4 * length_at nBits"
    unfolding at using z B b by (simp_all add: md_zeros_def)
  have lenP: "length (R @ tail) = ((length R + reserved) div b + 1) * b"
  proof -
    have l8: "length (len (8 * length B)) = 8" by (simp flip: len)
    have "length (R @ tail) = length R + 1 + (4 * length_at nBits - length R - 1) + 8"
      unfolding zeros(1) by (simp add: tail_def l8)
    also have "\<dots> = 4 * length_at nBits + 8" using zeros(2) by simp
    finally show ?thesis unfolding at using b(2) reserved(1) by simp
  qed
  have get: "wget ws i = wget (be_words (R @ tail)) i" for i
  proof -
    have "8 * length R < 2 ^ 32" using small' by simp
    from md_words [OF zeros(2) this, of x y] show ?thesis
      unfolding words k(3) words_of_bytes R_def [symmetric] bits [symmetric] zeros(1) len tail_def by simp
  qed
  have count: "s div b = (length R + reserved) div b + 1"
  proof -
    have "4 * Suc (length_at nBits) = (length R + reserved) div b * b + (b - 4)"
      using at b(2) reserved(1) by simp
    then have "Suc (length_at nBits) = (length R + reserved) div b * blockSize + (blockSize - 1)"
      unfolding b_def using blockSize_ge by (simp add: algebra_simps)
    then have "Suc (length_at nBits) div blockSize = (length R + reserved) div b"
      using blockSize_ge by (intro div_nat_eqI) (simp_all add: mult.commute [of blockSize])
    then show ?thesis using sig by (simp add: b_def)
  qed
  have "length (B @ tail) div b = k + s div b"
  proof -
    have "length (B @ tail) = (k + s div b) * b" unfolding count using lenP B by (simp add: algebra_simps)
    then show ?thesis using b(1) by simp
  qed
  moreover have "drop (k * b) (B @ tail) = R @ tail" using k(1) by (simp add: R_def)
  ultimately have "md_hash blockSize reserved len absorb h0 B =
      absorb_bytes blockSize absorb (s div b) (R @ tail) (alg_state a)"
    using absorb_bytes_append [of k B "s div b" tail h0] k(1,2)
    by (simp add: md_hash_def md_pad_def Let_def b_def tail_def)
  then show ?thesis
    using process_state_spec [of "a\<lparr>alg_data := \<lparr>words = ws, sigBytes = s\<rparr>\<rparr>" "R @ tail"] get
    by (simp add: b_def)
qed

text \<open>The number of blocks in the padded buffer, for the two ways the code sets \<^verbatim>\<open>sigBytes\<close>.\<close>

lemma count_blocks:
  assumes "s = 4 * (length_at nBits + 2) \<or> s = 4 * (length_at nBits + 3)"
  shows "s div (4 * blockSize) = Suc (length_at nBits) div blockSize + 1"
proof -
  define q where "q = ushr (nBits + 8 * reserved) shift"
  have at: "length_at nBits + 2 = (q + 1) * blockSize"
    using blockSize_ge by (simp add: length_at_def q_def)
  then have "length_at nBits + 3 = (q + 1) * blockSize + 1" by simp
  then have "(length_at nBits + 3) div blockSize = q + 1" using blockSize_ge
    by (intro div_nat_eqI) (simp_all add: algebra_simps)
  moreover have "(length_at nBits + 2) div blockSize = q + 1" unfolding at using blockSize_ge by simp
  moreover have "Suc (length_at nBits) div blockSize = q"
    using at blockSize_ge by (intro div_nat_eqI) (simp_all add: algebra_simps)
  moreover have "s div 4 = length_at nBits + 2 \<or> s div 4 = length_at nBits + 3" using assms by auto
  ultimately show ?thesis unfolding div_mult2_eq [of s] by metis
qed

lemma padded_length:
  assumes "holds h0 B a" "8 * (length B + reserved) < 2 ^ 32" "nBits = sigBytes (alg_data a) * 8"
  shows "length (wset (pad_bit (words (alg_data a)) nBits) (length_at nBits) x) = Suc (length_at nBits)"
    "length (wset (wset (pad_bit (words (alg_data a)) nBits) (length_at nBits) x) (Suc (length_at nBits)) y) =
      length_at nBits + 2"
proof -
  obtain R where R: "alg_data a = wa_of_bytes R" "length R \<le> length B"
    using assms(1) by (auto simp: holds_def)
  have small: "8 * (length R + reserved) < 2 ^ 32" using R(2) assms(2) by simp
  have bits: "nBits = 8 * length R" using assms(3) R(1) by simp
  have "length R < 4 * length_at nBits"
    unfolding bits length_at_bytes [OF small]
    using md_zeros_eq(2) [OF reserved, of "length R"] blockSize_ge by simp
  then have "(length R + 3) div 4 \<le> length_at nBits" "length R div 4 < length_at nBits" by linarith+
  moreover have "8 * length R < 2 ^ 32" using small by simp
  ultimately show "length (wset (pad_bit (words (alg_data a)) nBits) (length_at nBits) x) = Suc (length_at nBits)"
    using pad_bit_byte [of "length R" "be_words R"] R(1) by (simp add: bits)
  then show "length (wset (wset (pad_bit (words (alg_data a)) nBits) (length_at nBits) x) (Suc (length_at nBits)) y) =
      length_at nBits + 2"
    unfolding length_wset [of "wset _ _ _"] by simp
qed

end

text \<open>A whole hash function: what its \<^verbatim>\<open>_doFinalize\<close> returns for the bytes that were taken in.\<close>

locale hash_function = md_hasher blockSize doProcessBlock absorb reserved shift
  for blockSize :: nat and doProcessBlock :: "'h block_step" and absorb :: "word32 list \<Rightarrow> 'h \<Rightarrow> 'h"
    and reserved shift :: nat +
  fixes h0 :: 'h
    and len :: "nat \<Rightarrow> bytes"
    and out :: "'h \<Rightarrow> WordArray"
    and doFinalize :: "'h BufferedBlockAlgorithm \<Rightarrow> WordArray \<times> 'h BufferedBlockAlgorithm"
  assumes finalize_spec: "holds h0 B a \<Longrightarrow> 8 * (length B + reserved) < 2 ^ 32 \<Longrightarrow>
    fst (doFinalize a) = out (md_hash blockSize reserved len absorb h0 B)"
begin

text \<open>The result depends on the bytes and not on the way they were cut into updates.\<close>

lemma streaming:
  assumes "list_all wa_tidy ms" "wa_tidy m"
    and "B = concat (map wa_bytes ms) @ wa_bytes m" "8 * (length B + reserved) < 2 ^ 32"
  shows "fst (hasher_finalize doFinalize (Some m) (fold (hasher_update blockSize doProcessBlock) ms (bba_reset h0))) =
    out (md_hash blockSize reserved len absorb h0 B)"
  unfolding hasher_finalize_def option.case
  using holds_append [OF taken_holds [OF taken_updates [OF assms(1), of h0]] assms(2)] assms(3,4)
  by (intro finalize_spec) simp_all

lemma one_shot:
  assumes "wa_tidy m" "8 * (sigBytes m + reserved) < 2 ^ 32"
  shows "fst (hasher_finalize doFinalize (Some m) (bba_reset h0)) =
    out (md_hash blockSize reserved len absorb h0 (wa_bytes m))"
  using streaming [of "[]" m "wa_bytes m"] assms by simp

end

end
