(* ===== verification/Cipher_Modes.thy ===== *)
theory Cipher_Modes
  imports Cipher_Core Merkle_Damgard
begin

text \<open>
  The modes \<^verbatim>\<open>mode-cfb\<close>, \<^verbatim>\<open>mode-ctr-gladman\<close>, \<^verbatim>\<open>mode-ctr\<close>, \<^verbatim>\<open>mode-ecb\<close> and \<^verbatim>\<open>mode-ofb\<close> of CryptoJS
  (\<^verbatim>\<open>src/internal/jsre/deps/web3.js\<close>) and the proof that every mode, CBC included, is undone by its decryptor. The
  locale \<open>block_cipher\<close> says what a mode needs of the cipher under it.
\<close>

subsection \<open>CFB\<close>

definition cfb_generateKeystreamAndEncrypt ::
    "BlockCipher \<Rightarrow> word32 list \<Rightarrow> nat \<Rightarrow> BlockCipherMode \<Rightarrow> (word32 list \<times> BlockCipherMode) option" where
  "cfb_generateKeystreamAndEncrypt c ws offset m =
     (case choose_block m of None \<Rightarrow> None
      | Some (keystream, m) \<Rightarrow> Some (xor_words (bc_blockSize c) ws offset (bc_encryptBlock c keystream 0), m))"

definition cfb_encrypt :: "BlockCipher \<Rightarrow> mode_step" where
  "cfb_encrypt c ws offset st =
     (case st of None \<Rightarrow> (None, ws)
      | Some m \<Rightarrow>
          (case cfb_generateKeystreamAndEncrypt c ws offset m of None \<Rightarrow> (None, ws)
           | Some (ws, m) \<Rightarrow> (Some (m\<lparr>m_block := Some (js_slice ws offset (offset + bc_blockSize c))\<rparr>), ws)))"

definition cfb_decrypt :: "BlockCipher \<Rightarrow> mode_step" where
  "cfb_decrypt c ws offset st =
     (case st of None \<Rightarrow> (None, ws)
      | Some m \<Rightarrow>
          let thisBlock = js_slice ws offset (offset + bc_blockSize c)
          in (case cfb_generateKeystreamAndEncrypt c ws offset m of None \<Rightarrow> (None, ws)
              | Some (ws, m) \<Rightarrow> (Some (m\<lparr>m_block := Some thisBlock\<rparr>), ws)))"

subsection \<open>CTR\<close>

text \<open>The decryptors of CTR, of its variant and of OFB are the encryptors themselves.\<close>

definition ctr_crypt :: "BlockCipher \<Rightarrow> mode_step" where
  "ctr_crypt c ws offset st =
     (case st of None \<Rightarrow> (None, ws)
      | Some m \<Rightarrow>
          (case choose_block m of None \<Rightarrow> (None, ws)
           | Some (counter, m) \<Rightarrow>
               let keystream = bc_encryptBlock c counter 0;
                   counter = wset counter (bc_blockSize c - 1) (wget counter (bc_blockSize c - 1) + 1)
               in (Some (m\<lparr>m_block := Some counter\<rparr>), xor_words (bc_blockSize c) ws offset keystream)))"

definition incWord :: "word32 \<Rightarrow> word32" where
  "incWord word =
     (if shr word 24 AND 0xff = 0xff
      then let b1 = shr word 16 AND 0xff; b2 = shr word 8 AND 0xff; b3 = word AND 0xff;
               (b1, b2, b3) =
                 (if b1 = 0xff then if b2 = 0xff then if b3 = 0xff then (0, 0, 0) else (0, 0, b3 + 1)
                                    else (0, b2 + 1, b3)
                  else (b1 + 1, b2, b3))
           in shl b1 16 + shl b2 8 + b3
      else word + shl 1 24)"

definition incCounter :: "word32 list \<Rightarrow> word32 list" where
  "incCounter counter =
     (let counter = wset counter 0 (incWord (wget counter 0))
      in if wget counter 0 = 0 then wset counter 1 (incWord (wget counter 1)) else counter)"

definition ctrGladman_crypt :: "BlockCipher \<Rightarrow> mode_step" where
  "ctrGladman_crypt c ws offset st =
     (case st of None \<Rightarrow> (None, ws)
      | Some m \<Rightarrow>
          (case choose_block m of None \<Rightarrow> (None, ws)
           | Some (counter, m) \<Rightarrow>
               let counter = incCounter counter;
                   keystream = bc_encryptBlock c counter 0
               in (Some (m\<lparr>m_block := Some counter\<rparr>), xor_words (bc_blockSize c) ws offset keystream)))"

subsection \<open>ECB and OFB\<close>

definition ecb_encrypt :: "BlockCipher \<Rightarrow> mode_step" where
  "ecb_encrypt c ws offset st = (case st of None \<Rightarrow> (None, ws) | Some m \<Rightarrow> (Some m, bc_encryptBlock c ws offset))"

definition ecb_decrypt :: "BlockCipher \<Rightarrow> mode_step" where
  "ecb_decrypt c ws offset st = (case st of None \<Rightarrow> (None, ws) | Some m \<Rightarrow> (Some m, bc_decryptBlock c ws offset))"

definition ofb_crypt :: "BlockCipher \<Rightarrow> mode_step" where
  "ofb_crypt c ws offset st =
     (case st of None \<Rightarrow> (None, ws)
      | Some m \<Rightarrow>
          (case choose_block m of None \<Rightarrow> (None, ws)
           | Some (keystream, m) \<Rightarrow>
               let keystream = bc_encryptBlock c keystream 0
               in (Some (m\<lparr>m_block := Some keystream\<rparr>), xor_words (bc_blockSize c) ws offset keystream)))"

subsection \<open>The counter of CTRGladman\<close>

text \<open>It counts with the bytes of its first two words in little-endian order.\<close>

lemma of_nat_and_ff: "(of_nat m :: word32) AND 0xff = of_nat (m mod 256)"
proof -
  have "(0xff :: word32) = mask 8" by (simp add: mask_eq_exp_minus_1)
  then have "(of_nat m :: word32) AND 0xff = take_bit 8 (of_nat m)" by (simp add: take_bit_eq_mask)
  then show ?thesis by (simp add: take_bit_of_nat) (simp add: take_bit_eq_mod)
qed

lemma shr_of_nat: "m < 2 ^ 32 \<Longrightarrow> k < 32 \<Longrightarrow> shr (of_nat m) k = of_nat (m div 2 ^ k)"
proof -
  assume m: "m < 2 ^ 32" and k: "k < 32"
  have "unat (of_nat m :: word32) = m" using m by (simp add: unat_of_nat)
  moreover have "m div 2 ^ k < 2 ^ 32" using m by (rule le_less_trans [OF div_le_dividend])
  moreover have "unat (drop_bit k (of_nat m :: word32)) = unat (of_nat m :: word32) div 2 ^ k"
    unfolding unat_drop_bit_eq by (rule drop_bit_eq_div)
  ultimately have "unat (drop_bit k (of_nat m :: word32)) = unat (of_nat (m div 2 ^ k) :: word32)"
    by (simp only: unat_of_nat) simp
  then show ?thesis using k by (simp only: shr_def word_unat_eq_iff) simp
qed

lemma div_digit: "r < k \<Longrightarrow> (k * q + r) div k = (q :: nat)"
  by (rule div_nat_eqI) simp_all

definition word_of :: "nat \<Rightarrow> nat \<Rightarrow> nat \<Rightarrow> nat \<Rightarrow> nat" where
  "word_of a b c d = a * 2 ^ 24 + b * 2 ^ 16 + c * 2 ^ 8 + d"

lemma word_of_bytes:
  assumes "a < 256" "b < 256" "c < 256" "d < 256"
  shows "word_of a b c d < 2 ^ 32" "word_of a b c d div 2 ^ 24 = a" "word_of a b c d div 2 ^ 16 mod 256 = b"
    "word_of a b c d div 2 ^ 8 mod 256 = c" "word_of a b c d mod 256 = d"
proof -
  show "word_of a b c d < 2 ^ 32" using assms by (simp add: word_of_def)
  have 3: "word_of a b c d = 2 ^ 24 * a + (b * 2 ^ 16 + c * 2 ^ 8 + d)" "b * 2 ^ 16 + c * 2 ^ 8 + d < 2 ^ 24"
    using assms by (simp_all add: word_of_def)
  then show "word_of a b c d div 2 ^ 24 = a" by (simp only: div_digit)
  have 2: "word_of a b c d = 2 ^ 16 * (a * 256 + b) + (c * 2 ^ 8 + d)" "c * 2 ^ 8 + d < 2 ^ 16"
    using assms by (simp_all add: word_of_def)
  then have "word_of a b c d div 2 ^ 16 = a * 256 + b" by (simp only: div_digit)
  then show "word_of a b c d div 2 ^ 16 mod 256 = b" using assms by simp
  have "word_of a b c d = 2 ^ 8 * (a * 2 ^ 16 + b * 256 + c) + d" by (simp add: word_of_def)
  then have 1: "word_of a b c d div 2 ^ 8 = a * 2 ^ 16 + b * 256 + c" using assms(4) by (simp only: div_digit) (simp add: div_digit)
  have "a * 2 ^ 16 + b * 256 + c = c + 256 * (a * 256 + b)" by simp
  then show "word_of a b c d div 2 ^ 8 mod 256 = c" using assms unfolding 1 by (metis mod_less mod_mult_self2)
  have "word_of a b c d = d + 256 * (a * 2 ^ 16 + b * 256 + c)" by (simp add: word_of_def)
  then show "word_of a b c d mod 256 = d" using assms by (metis mod_less mod_mult_self2)
qed

lemma word_of_cases:
  obtains a b c d where "a < 256" "b < 256" "c < 256" "d < 256" "w = (of_nat (word_of a b c d) :: word32)"
proof
  let ?m = "unat w"
  have "?m < 2 ^ 32" using unsigned_less [of w, where ?'a = nat] by simp
  then show "?m div 2 ^ 24 < 256" by (simp add: div_less_iff_less_mult)
  show "?m div 2 ^ 16 mod 256 < 256" "?m div 2 ^ 8 mod 256 < 256" "?m mod 256 < 256" by simp_all
  have "?m = ?m div 2 ^ 24 * 2 ^ 24 + ?m div 2 ^ 16 mod 256 * 2 ^ 16 + ?m div 2 ^ 8 mod 256 * 2 ^ 8 + ?m mod 256"
  proof -
    have 1: "?m = ?m div 2 ^ 8 * 2 ^ 8 + ?m mod 256" by simp
    have 2: "?m div 2 ^ 8 = ?m div 2 ^ 16 * 256 + ?m div 2 ^ 8 mod 256"
      using div_mult_mod_eq [of "?m div 2 ^ 8" 256] by (simp flip: div_mult2_eq)
    have 3: "?m div 2 ^ 16 = ?m div 2 ^ 24 * 256 + ?m div 2 ^ 16 mod 256"
      using div_mult_mod_eq [of "?m div 2 ^ 16" 256] by (simp flip: div_mult2_eq)
    have "m = t * 2 ^ 24 + u * 2 ^ 16 + s * 2 ^ 8 + r" if "m = p * 2 ^ 8 + r" "p = q * 256 + s" "q = t * 256 + u"
      for m p q r s t u :: nat using that by simp
    from this [OF 1 2 3] show ?thesis .
  qed
  then show "w = of_nat (word_of (?m div 2 ^ 24) (?m div 2 ^ 16 mod 256) (?m div 2 ^ 8 mod 256) (?m mod 256))"
    by (simp only: word_of_def) simp
qed

lemma word_bytes_word_of:
  assumes "a < 256" "b < 256" "c < 256" "d < 256"
  shows "word_bytes (of_nat (word_of a b c d)) = map of_nat [a, b, c, d]"
proof -
  have mod: "(of_nat (m mod 256) :: byte) = of_nat m" for m
    by (simp add: word_of_nat_eq_iff take_bit_eq_mod)
  show ?thesis
    unfolding word_bytes_of_nat using word_of_bytes [OF assms] mod [of "word_of a b c d div 2 ^ 16"]
      mod [of "word_of a b c d div 2 ^ 8"] mod [of "word_of a b c d"] by (simp add: upt_4)
qed

lemma word_bytes_inject: "word_bytes x = word_bytes y \<longleftrightarrow> x = y"
proof
  assume eq: "word_bytes x = word_bytes y"
  have "wbyte [x] i = wbyte [y] i" for i
    by (cases "i div 4 = 0") (simp_all add: wbyte_word_bytes wget_def eq)
  then show "x = y" using words_eqI [of "[x]" "[y]"] by simp
qed simp

lemma bswap_word_of:
  assumes "a < 256" "b < 256" "c < 256" "d < 256"
  shows "bswap (of_nat (word_of a b c d)) = of_nat (word_of d c b a)"
  using assms by (simp add: word_bytes_bswap word_bytes_word_of flip: word_bytes_inject)

lemma shl_of_nat: "k < 32 \<Longrightarrow> shl (of_nat m) k = of_nat (m * 2 ^ k)"
  by (simp add: shl_def push_bit_eq_mult)

text \<open>The counter counts: \<open>incWord\<close> is the successor on the little-endian reading of the word.\<close>

lemma bswap_incWord: "bswap (incWord w) = bswap w + 1"
proof -
  obtain a b c d where l: "a < 256" "b < 256" "c < 256" "d < 256" and w: "w = of_nat (word_of a b c d)" by (rule word_of_cases)
  note dg = word_of_bytes [OF l]
  have dw: "shr w 24 AND 0xff = of_nat a" "shr w 16 AND 0xff = of_nat b" "shr w 8 AND 0xff = of_nat c" "w AND 0xff = of_nat d"
    unfolding w using l by (simp_all only: shr_of_nat [OF dg(1)] of_nat_and_ff dg mod_less numeral_less_iff semiring_norm)
  have eq: "(of_nat x :: word32) = 0xff \<longleftrightarrow> x = 255" if "x < 256" for x
    using that by (auto dest: arg_cong [where f = unat] simp: unat_of_nat)
  have inc: "incWord w = of_nat (if a \<noteq> 255 then word_of (a + 1) b c d else if b \<noteq> 255 then word_of 0 (b + 1) c d
      else if c \<noteq> 255 then word_of 0 0 (c + 1) d else if d \<noteq> 255 then word_of 0 0 0 (d + 1) else 0)"
  proof -
    have "incWord w = (if a = 255 then if b = 255 then if c = 255 then if d = 255 then 0 else of_nat (d + 1)
        else of_nat ((c + 1) * 2 ^ 8 + d) else of_nat ((b + 1) * 2 ^ 16 + c * 2 ^ 8 + d) else of_nat (word_of a b c d + 2 ^ 24))"
      unfolding incWord_def dw Let_def using l by (simp only: eq) (simp add: shl_def push_bit_eq_mult w algebra_simps)
    then show ?thesis by (simp add: word_of_def)
  qed
  show ?thesis
    unfolding inc unfolding w using l
    by (simp add: bswap_word_of) (auto simp: word_of_def bswap_def shl_def shr_def)
qed

lemma bswap_zero [simp]: "bswap 0 = 0"
  by (simp add: bswap_def shl_def shr_def)

lemma bswap_eq_0 [simp]: "bswap w = 0 \<longleftrightarrow> w = 0"
  using word_bytes_bswap [of w] word_bytes_bswap [of 0] by (metis bswap_zero rev_rev_ident word_bytes_inject)

definition gladman_count :: "word32 list \<Rightarrow> nat" where
  "gladman_count counter = unat (bswap (wget counter 0)) + 2 ^ 32 * unat (bswap (wget counter 1))"

lemma gladman_count_inc: "gladman_count (incCounter counter) = (gladman_count counter + 1) mod 2 ^ 64"
proof -
  let ?x = "bswap (wget counter 0)" and ?y = "bswap (wget counter 1)"
  have zero: "incWord w = 0 \<longleftrightarrow> bswap w + 1 = 0" for w by (metis bswap_eq_0 bswap_incWord)
  have y: "unat ?y < 2 ^ 32" "unat ?x < 2 ^ 32"
    using unsigned_less [of ?y, where ?'a = nat] unsigned_less [of ?x, where ?'a = nat] by simp_all
  show ?thesis
  proof (cases "?x + 1 = 0")
    case True
    then have "(unat ?x + 1) mod 2 ^ 32 = 0" using unat_word_ariths(1) [of ?x 1] by simp
    then have "2 ^ 32 dvd unat ?x + 1" by (simp only: dvd_eq_mod_eq_0)
    then have "2 ^ 32 \<le> unat ?x + 1" by (rule dvd_imp_le) simp
    then have x: "unat ?x = 2 ^ 32 - 1" using y(2) by simp
    have "gladman_count (incCounter counter) = 2 ^ 32 * unat (?y + 1)"
      using True by (simp add: gladman_count_def incCounter_def Let_def zero bswap_incWord)
    also have "\<dots> = 2 ^ 32 * ((unat ?y + 1) mod 2 ^ 32)" using unat_word_ariths(1) [of ?y 1] by simp
    also have "\<dots> = (2 ^ 32 * (unat ?y + 1)) mod (2 ^ 32 * 2 ^ 32)" by (simp only: mult_mod_right)
    also have "2 ^ 32 * (unat ?y + 1) = gladman_count counter + 1" by (simp add: gladman_count_def x)
    also have "(2 :: nat) ^ 32 * 2 ^ 32 = 2 ^ 64" by simp
    finally show ?thesis .
  next
    case False
    then have "unat (?x + 1) = unat ?x + 1" using unatSuc [of ?x] by (simp add: add.commute)
    moreover have "unat (?x + 1) < 2 ^ 32" using unsigned_less [of "?x + 1", where ?'a = nat] by simp
    ultimately show ?thesis using y False
      by (simp add: gladman_count_def incCounter_def Let_def zero bswap_incWord)
  qed
qed

subsection \<open>What a mode needs of the cipher\<close>

locale block_cipher =
  fixes c :: BlockCipher
    and E D :: "word32 list \<Rightarrow> word32 list"
  assumes size: "0 < bc_blockSize c"
    and encrypts: "offset \<le> length ws \<Longrightarrow> bc_encryptBlock c ws offset =
      take offset ws @ E (block_of (bc_blockSize c) ws offset) @ drop (offset + bc_blockSize c) ws"
    and decrypts: "offset \<le> length ws \<Longrightarrow> bc_decryptBlock c ws offset =
      take offset ws @ D (block_of (bc_blockSize c) ws offset) @ drop (offset + bc_blockSize c) ws"
    and lengths: "length b = bc_blockSize c \<Longrightarrow> length (E b) = bc_blockSize c"
      "length b = bc_blockSize c \<Longrightarrow> length (D b) = bc_blockSize c"
    and inverse: "length b = bc_blockSize c \<Longrightarrow> D (E b) = b"

text \<open>What the modes do to one block.\<close>

definition xor_block :: "nat \<Rightarrow> word32 list \<Rightarrow> word32 list \<Rightarrow> word32 list" where
  "xor_block n b p = map (\<lambda>i. wget b i XOR wget p i) [0..<n]"

definition chain ::
    "(word32 list \<Rightarrow> word32 list \<Rightarrow> word32 list \<times> word32 list) \<Rightarrow> BlockCipherMode option \<Rightarrow> word32 list \<Rightarrow>
      BlockCipherMode option \<times> word32 list" where
  "chain g st b =
     (case Option.bind st choose_block of None \<Rightarrow> (None, b)
      | Some (p, m) \<Rightarrow> let (q, c) = g p b in (Some (m\<lparr>m_block := Some q\<rparr>), c))"

definition chained :: "BlockCipherMode option \<Rightarrow> bool" where
  "chained st \<longleftrightarrow> Option.bind st choose_block \<noteq> None"

definition cbc_enc :: "nat \<Rightarrow> (word32 list \<Rightarrow> word32 list) \<Rightarrow> word32 list \<Rightarrow> word32 list \<Rightarrow> word32 list \<times> word32 list" where
  "cbc_enc n E p b = (let c = E (xor_block n b p) in (c, c))"

definition cbc_dec :: "nat \<Rightarrow> (word32 list \<Rightarrow> word32 list) \<Rightarrow> word32 list \<Rightarrow> word32 list \<Rightarrow> word32 list \<times> word32 list" where
  "cbc_dec n D p b = (b, xor_block n (D b) p)"

definition pad_key :: "nat \<Rightarrow> (word32 list \<Rightarrow> word32 list) \<Rightarrow> word32 list \<Rightarrow> word32 list" where
  "pad_key n E p = E (block_of n p 0)"

definition cfb_enc :: "nat \<Rightarrow> (word32 list \<Rightarrow> word32 list) \<Rightarrow> word32 list \<Rightarrow> word32 list \<Rightarrow> word32 list \<times> word32 list" where
  "cfb_enc n E p b = (let c = xor_block n b (pad_key n E p) in (c, c))"

definition cfb_dec :: "nat \<Rightarrow> (word32 list \<Rightarrow> word32 list) \<Rightarrow> word32 list \<Rightarrow> word32 list \<Rightarrow> word32 list \<times> word32 list" where
  "cfb_dec n E p b = (b, xor_block n b (pad_key n E p))"

definition keyed_stream ::
    "nat \<Rightarrow> (word32 list \<Rightarrow> word32 list \<times> word32 list) \<Rightarrow> word32 list \<Rightarrow> word32 list \<Rightarrow> word32 list \<times> word32 list" where
  "keyed_stream n next p b = (let (q, key) = next p in (q, xor_block n b key))"

definition ctr_next :: "nat \<Rightarrow> (word32 list \<Rightarrow> word32 list) \<Rightarrow> word32 list \<Rightarrow> word32 list \<times> word32 list" where
  "ctr_next n E p = (wset p (n - 1) (wget p (n - 1) + 1), pad_key n E p)"

definition gladman_next :: "nat \<Rightarrow> (word32 list \<Rightarrow> word32 list) \<Rightarrow> word32 list \<Rightarrow> word32 list \<times> word32 list" where
  "gladman_next n E p = (incCounter p, pad_key n E (incCounter p))"

definition ofb_next :: "nat \<Rightarrow> (word32 list \<Rightarrow> word32 list) \<Rightarrow> word32 list \<Rightarrow> word32 list \<times> word32 list" where
  "ofb_next n E p = (let q = pad_key n E p @ drop n p in (q, q))"

subsection \<open>The modes keep the contract\<close>

lemma wget_xor_words:
  "wget (xor_words n ws offset p) i = (if offset \<le> i \<and> i < offset + n then wget ws i XOR wget p (i - offset) else wget ws i)"
  unfolding xor_words_def by (induction n) auto

lemma xor_words_eq:
  assumes "offset \<le> length ws"
  shows "xor_words n ws offset p = take offset ws @ xor_block n (block_of n ws offset) p @ drop (offset + n) ws"
proof (rule wget_eqI)
  have "length (xor_words n ws offset p) = max (length ws) (offset + n)"
    using assms unfolding xor_words_def by (induction n) auto
  then show "length (xor_words n ws offset p) =
      length (take offset ws @ xor_block n (block_of n ws offset) p @ drop (offset + n) ws)"
    using assms by (auto simp: xor_block_def)
  fix i
  have drop: "wget (drop k ws) j = wget ws (k + j)" for k j by (simp add: wget_def less_diff_conv add.commute)
  show "wget (xor_words n ws offset p) i =
      wget (take offset ws @ xor_block n (block_of n ws offset) p @ drop (offset + n) ws) i"
    using assms unfolding wget_xor_words by (auto simp: wget_append drop xor_block_def block_of_def) (simp_all add: wget_def)
qed

lemma length_xor_block [simp]: "length (xor_block n b p) = n"
  by (simp add: xor_block_def)

lemma block_of_mid: "length xs = offset \<Longrightarrow> length b = n \<Longrightarrow> block_of n (xs @ b @ ys) offset = b"
  by (intro nth_equalityI) (simp_all add: block_of_def wget_append)

lemma block_of_self: "length b = n \<Longrightarrow> block_of n b 0 = b"
  using block_of_mid [of "[]" 0 b n "[]"] by simp

lemma slice_mid: "length xs = offset \<Longrightarrow> length b = n \<Longrightarrow> js_slice (xs @ b @ ys) offset (offset + n) = b"
  by (simp add: js_slice_def)

lemma slice_block: "offset + n \<le> length ws \<Longrightarrow> js_slice ws offset (offset + n) = block_of n ws offset"
  by (intro nth_equalityI) (simp_all add: js_slice_def block_of_def wget_def)

lemma xor_block_twice: "length b = n \<Longrightarrow> xor_block n (xor_block n b p) p = b"
  by (intro nth_equalityI) (simp_all add: xor_block_def wget_def ac_simps)

lemma take_xor_block:
  "length b = n \<Longrightarrow> length b' = n \<Longrightarrow> take k b = take k b' \<Longrightarrow> take k (xor_block n b p) = take k (xor_block n b' p)"
  by (intro nth_equalityI) (simp_all add: xor_block_def wget_def, metis nth_take)

lemma chained_iff: "chained st \<longleftrightarrow> (\<exists>m p m'. st = Some m \<and> choose_block m = Some (p, m'))"
  by (cases st) (auto simp: chained_def)

lemma chained_next [simp]: "chained (Some (m\<lparr>m_block := Some q\<rparr>))"
  by (simp add: chained_def choose_block_def split: option.split)

lemma chain_mode:
  assumes "0 < n"
    and "\<And>m p m' ws offset. choose_block m = Some (p, m') \<Longrightarrow> offset \<le> length ws \<Longrightarrow>
      snd (step ws offset (Some m)) = take offset ws @ snd (g p (block_of n ws offset)) @ drop (offset + n) ws"
    and "\<And>m p m' ws offset. choose_block m = Some (p, m') \<Longrightarrow> offset + n \<le> length ws \<Longrightarrow>
      fst (step ws offset (Some m)) = Some (m'\<lparr>m_block := Some (fst (g p (block_of n ws offset)))\<rparr>)"
    and "\<And>m p m' ws offset. choose_block m = Some (p, m') \<Longrightarrow> chained (fst (step ws offset (Some m)))"
    and "\<And>p b. length b = n \<Longrightarrow> length (snd (g p b)) = n"
  shows "block_mode n step (chain g) chained"
proof
  fix st offset and b ws :: "word32 list"
  assume "chained st"
  then obtain m p m' where m: "st = Some m" "choose_block m = Some (p, m')" by (auto simp: chained_iff)
  show "offset \<le> length ws \<Longrightarrow> snd (step ws offset st) = take offset ws @ snd (chain g st (block_of n ws offset)) @ drop (offset + n) ws"
    using assms(2) [OF m(2)] by (simp add: m chain_def split_beta)
  show "offset + n \<le> length ws \<Longrightarrow> fst (step ws offset st) = fst (chain g st (block_of n ws offset))"
    using assms(3) [OF m(2)] by (simp add: m chain_def split_beta)
  show "chained (fst (step ws offset st))" using assms(4) [OF m(2)] by (simp add: m)
  show "chained (fst (chain g st b))" by (simp add: m chain_def split_beta)
  show "length b = n \<Longrightarrow> length (snd (chain g st b)) = n" using assms(5) by (simp add: m chain_def split_beta)
qed (rule assms(1))

lemma chain_pair:
  assumes "block_mode n es (chain ge) chained" "block_mode n ds (chain gd) chained"
    and "\<And>p b. length b = n \<Longrightarrow> gd p (snd (ge p b)) = (fst (ge p b), b)"
    and "\<And>p b b' k. partial \<Longrightarrow> length b = n \<Longrightarrow> length b' = n \<Longrightarrow> take k b = take k b' \<Longrightarrow> take k (snd (gd p b)) = take k (snd (gd p b'))"
  shows "cipher_pair n es (chain ge) ds (chain gd) chained partial"
proof (rule cipher_pair.intro [OF assms(1,2)], unfold_locales)
  fix st k and b b' :: "word32 list"
  assume st: "chained st" and b: "length b = n"
  then obtain m p m' where m: "st = Some m" "choose_block m = Some (p, m')" by (auto simp: chained_iff)
  show "chain gd st (snd (chain ge st b)) = (fst (chain ge st b), b)" using assms(3) [OF b] by (simp add: m chain_def split_beta)
  show "take k (snd (chain gd st b)) = take k (snd (chain gd st b'))" if partial "length b' = n" "take k b = take k b'"
    using assms(4) [OF that(1) b that(2,3)] by (simp add: m chain_def split_beta)
qed

context block_cipher
begin

lemma cbc_modes:
  "block_mode (bc_blockSize c) (cbc_encrypt c) (chain (cbc_enc (bc_blockSize c) E)) chained"
  "block_mode (bc_blockSize c) (cbc_decrypt c) (chain (cbc_dec (bc_blockSize c) D)) chained"
proof -
  note defs = cbc_encrypt_def cbc_decrypt_def cbc_enc_def cbc_dec_def xorBlock_def xor_words_eq encrypts decrypts
    block_of_mid slice_mid slice_block lengths Let_def
  show "block_mode (bc_blockSize c) (cbc_encrypt c) (chain (cbc_enc (bc_blockSize c) E)) chained"
    by (rule chain_mode [OF size]) (simp_all add: defs)
  show "block_mode (bc_blockSize c) (cbc_decrypt c) (chain (cbc_dec (bc_blockSize c) D)) chained"
    by (rule chain_mode [OF size]) (simp_all add: defs)
qed

lemma cbc_pair:
  "cipher_pair (bc_blockSize c) (cbc_encrypt c) (chain (cbc_enc (bc_blockSize c) E)) (cbc_decrypt c)
    (chain (cbc_dec (bc_blockSize c) D)) chained False"
  by (rule chain_pair [OF cbc_modes]) (simp_all add: cbc_enc_def cbc_dec_def Let_def inverse xor_block_twice)

text \<open>A key block, encrypted in place.\<close>

lemma encrypt_key: "bc_encryptBlock c p 0 = pad_key (bc_blockSize c) E p @ drop (bc_blockSize c) p"
  using encrypts [of 0 p] by (simp add: pad_key_def)

lemma xor_key_block:
  "length key = n \<Longrightarrow> xor_block n b (key @ rest) = xor_block n b key"
  by (simp add: xor_block_def wget_append) (simp add: wget_def)

lemma length_pad_key [simp]: "length (pad_key (bc_blockSize c) E p) = bc_blockSize c"
  by (simp add: pad_key_def lengths)

lemma cfb_modes:
  "block_mode (bc_blockSize c) (cfb_encrypt c) (chain (cfb_enc (bc_blockSize c) E)) chained"
  "block_mode (bc_blockSize c) (cfb_decrypt c) (chain (cfb_dec (bc_blockSize c) E)) chained"
proof -
  note defs = cfb_encrypt_def cfb_decrypt_def cfb_enc_def cfb_dec_def cfb_generateKeystreamAndEncrypt_def xor_words_eq encrypt_key
    xor_key_block block_of_mid slice_mid slice_block Let_def
  show "block_mode (bc_blockSize c) (cfb_encrypt c) (chain (cfb_enc (bc_blockSize c) E)) chained"
    by (rule chain_mode [OF size]) (simp_all add: defs)
  show "block_mode (bc_blockSize c) (cfb_decrypt c) (chain (cfb_dec (bc_blockSize c) E)) chained"
    by (rule chain_mode [OF size]) (simp_all add: defs)
qed

lemma cfb_pair:
  "cipher_pair (bc_blockSize c) (cfb_encrypt c) (chain (cfb_enc (bc_blockSize c) E)) (cfb_decrypt c)
    (chain (cfb_dec (bc_blockSize c) E)) chained True"
  by (rule chain_pair [OF cfb_modes])
    (simp_all add: cfb_enc_def cfb_dec_def Let_def xor_block_twice, erule (2) take_xor_block)

text \<open>A mode that only adds a key stream is its own inverse.\<close>

lemma stream_pair:
  assumes "block_mode n step (chain (keyed_stream n next)) chained"
  shows "cipher_pair n step (chain (keyed_stream n next)) step (chain (keyed_stream n next)) chained True"
  by (rule chain_pair [OF assms assms])
    (simp_all add: keyed_stream_def split_beta xor_block_twice, erule (2) take_xor_block)

lemma ctr_pair:
  "cipher_pair (bc_blockSize c) (ctr_crypt c) (chain (keyed_stream (bc_blockSize c) (ctr_next (bc_blockSize c) E)))
    (ctr_crypt c) (chain (keyed_stream (bc_blockSize c) (ctr_next (bc_blockSize c) E))) chained True"
  by (rule stream_pair, rule chain_mode [OF size])
    (simp_all add: ctr_crypt_def keyed_stream_def ctr_next_def xor_words_eq encrypt_key xor_key_block Let_def)

lemma ctrGladman_pair:
  "cipher_pair (bc_blockSize c) (ctrGladman_crypt c) (chain (keyed_stream (bc_blockSize c) (gladman_next (bc_blockSize c) E)))
    (ctrGladman_crypt c) (chain (keyed_stream (bc_blockSize c) (gladman_next (bc_blockSize c) E))) chained True"
  by (rule stream_pair, rule chain_mode [OF size])
    (simp_all add: ctrGladman_crypt_def keyed_stream_def gladman_next_def xor_words_eq encrypt_key xor_key_block Let_def)

lemma ofb_pair:
  "cipher_pair (bc_blockSize c) (ofb_crypt c) (chain (keyed_stream (bc_blockSize c) (ofb_next (bc_blockSize c) E)))
    (ofb_crypt c) (chain (keyed_stream (bc_blockSize c) (ofb_next (bc_blockSize c) E))) chained True"
  by (rule stream_pair, rule chain_mode [OF size])
    (simp_all add: ofb_crypt_def keyed_stream_def ofb_next_def xor_words_eq encrypt_key xor_key_block Let_def)

lemma ecb_pair:
  "cipher_pair (bc_blockSize c) (ecb_encrypt c) (\<lambda>st b. (st, E b)) (ecb_decrypt c) (\<lambda>st b. (st, D b)) (\<lambda>st. st \<noteq> None) False"
  by unfold_locales (auto simp: ecb_encrypt_def ecb_decrypt_def encrypts decrypts size lengths inverse)

end

text \<open>So over any block cipher every mode is an encryptor with its decryptor.\<close>

sublocale block_cipher \<subseteq> cbc: cipher_pair "bc_blockSize c" "cbc_encrypt c" "chain (cbc_enc (bc_blockSize c) E)"
  "cbc_decrypt c" "chain (cbc_dec (bc_blockSize c) D)" chained False
  by (rule cbc_pair)

sublocale block_cipher \<subseteq> cfb: cipher_pair "bc_blockSize c" "cfb_encrypt c" "chain (cfb_enc (bc_blockSize c) E)"
  "cfb_decrypt c" "chain (cfb_dec (bc_blockSize c) E)" chained True
  by (rule cfb_pair)

sublocale block_cipher \<subseteq> ctr: cipher_pair "bc_blockSize c"
  "ctr_crypt c" "chain (keyed_stream (bc_blockSize c) (ctr_next (bc_blockSize c) E))"
  "ctr_crypt c" "chain (keyed_stream (bc_blockSize c) (ctr_next (bc_blockSize c) E))" chained True
  by (rule ctr_pair)

sublocale block_cipher \<subseteq> gladman: cipher_pair "bc_blockSize c"
  "ctrGladman_crypt c" "chain (keyed_stream (bc_blockSize c) (gladman_next (bc_blockSize c) E))"
  "ctrGladman_crypt c" "chain (keyed_stream (bc_blockSize c) (gladman_next (bc_blockSize c) E))" chained True
  by (rule ctrGladman_pair)

sublocale block_cipher \<subseteq> ofb: cipher_pair "bc_blockSize c"
  "ofb_crypt c" "chain (keyed_stream (bc_blockSize c) (ofb_next (bc_blockSize c) E))"
  "ofb_crypt c" "chain (keyed_stream (bc_blockSize c) (ofb_next (bc_blockSize c) E))" chained True
  by (rule ofb_pair)

sublocale block_cipher \<subseteq> ecb: cipher_pair "bc_blockSize c" "ecb_encrypt c" "\<lambda>st b. (st, E b)" "ecb_decrypt c" "\<lambda>st b. (st, D b)"
  "\<lambda>st. st \<noteq> None" False
  by (rule ecb_pair)

end
