(* ===== verification/Paddings.thy ===== *)
theory Paddings
  imports Cipher_Core Merkle_Damgard
begin

text \<open>
  The paddings of CryptoJS (\<^verbatim>\<open>src/internal/jsre/deps/web3.js\<close>): \<^verbatim>\<open>Pkcs7\<close> of \<^verbatim>\<open>cipher-core\<close> and the modules
  \<^verbatim>\<open>pad-ansix923\<close>, \<^verbatim>\<open>pad-iso10126\<close>, \<^verbatim>\<open>pad-iso97971\<close>, \<^verbatim>\<open>pad-nopadding\<close> and \<^verbatim>\<open>pad-zeropadding\<close>. The source lets
  \<^verbatim>\<open>sigBytes\<close> become negative when it removes more bytes than there are; every loop over such an array does nothing, and
  here the count is 0. Removing zero padding may run forever, which is the value \<open>None\<close>. The locale \<open>padding\<close> is what
  a block cipher relies on.
\<close>

subsection \<open>The code\<close>

definition padding_bytes :: "nat \<Rightarrow> nat \<Rightarrow> nat" where
  "padding_bytes blockSizeBytes n = blockSizeBytes - n mod blockSizeBytes"

definition pkcs7_pad :: "WordArray \<Rightarrow> nat \<Rightarrow> WordArray" where
  "pkcs7_pad data blockSize =
     (let nPaddingBytes = padding_bytes (blockSize * 4) (sigBytes data);
          p = of_nat nPaddingBytes;
          paddingWord = shl p 24 OR shl p 16 OR shl p 8 OR p;
          paddingWords = map (\<lambda>i. paddingWord) (js_steps nPaddingBytes 4)
      in wa_concat data (WordArray_init paddingWords (Some nPaddingBytes)))"

text \<open>\<^verbatim>\<open>data.words[(data.sigBytes - 1) >>> 2] & 0xff\<close>; the index of an empty array is far out of range.\<close>

definition last_byte :: "WordArray \<Rightarrow> nat" where
  "last_byte data = (if sigBytes data = 0 then 0 else unat (wget (words data) ((sigBytes data - 1) div 4) AND 0xff))"

definition pkcs7_unpad :: "WordArray \<Rightarrow> WordArray option" where
  "pkcs7_unpad data = Some (data\<lparr>sigBytes := sigBytes data - last_byte data\<rparr>)"

definition ansiX923_pad :: "WordArray \<Rightarrow> nat \<Rightarrow> WordArray" where
  "ansiX923_pad data blockSize =
     (let nPaddingBytes = padding_bytes (blockSize * 4) (sigBytes data);
          lastBytePos = sigBytes data + nPaddingBytes - 1;
          ws = words (wa_clamp data)
      in \<lparr>words = wset ws (lastBytePos div 4)
                    (wget ws (lastBytePos div 4) OR shl (of_nat nPaddingBytes) (24 - (lastBytePos mod 4) * 8)),
          sigBytes = sigBytes data + nPaddingBytes\<rparr>)"

definition ansiX923_unpad :: "WordArray \<Rightarrow> WordArray option" where
  "ansiX923_unpad data = Some (data\<lparr>sigBytes := sigBytes data - last_byte data\<rparr>)"

text \<open>\<open>rnd i\<close> is the \<open>i\<close>-th word the generator gives.\<close>

definition WordArray_random :: "(nat \<Rightarrow> word32) \<Rightarrow> nat \<Rightarrow> WordArray" where
  "WordArray_random rnd nBytes = WordArray_init (map (\<lambda>i. rnd (i div 4)) (js_steps nBytes 4)) (Some nBytes)"

definition iso10126_pad :: "(nat \<Rightarrow> word32) \<Rightarrow> WordArray \<Rightarrow> nat \<Rightarrow> WordArray" where
  "iso10126_pad rnd data blockSize =
     (let nPaddingBytes = padding_bytes (blockSize * 4) (sigBytes data)
      in wa_concat (wa_concat data (WordArray_random rnd (nPaddingBytes - 1)))
           (WordArray_init [shl (of_nat nPaddingBytes) 24] (Some 1)))"

definition iso10126_unpad :: "WordArray \<Rightarrow> WordArray option" where
  "iso10126_unpad data = Some (data\<lparr>sigBytes := sigBytes data - last_byte data\<rparr>)"

definition zero_pad :: "WordArray \<Rightarrow> nat \<Rightarrow> WordArray" where
  "zero_pad data blockSize =
     (let blockSizeBytes = blockSize * 4;
          r = sigBytes data mod blockSizeBytes
      in (wa_clamp data)\<lparr>sigBytes := sigBytes data + (blockSizeBytes - (if r = 0 then blockSizeBytes else r))\<rparr>)"

text \<open>
  \<^verbatim>\<open>(words[i >>> 2] >>> (24 - (i % 4) * 8)) & 0xff\<close> for a position that may be negative: \<^verbatim>\<open>%\<close> takes the sign of \<open>i\<close>,
  and \<^verbatim>\<open>>>>\<close> takes its left operand modulo \<open>2 ^ 32\<close> and its right one modulo 32.
\<close>

definition byte_before :: "word32 list \<Rightarrow> int \<Rightarrow> word32" where
  "byte_before ws i =
     shr (wget ws (nat (i mod 2 ^ 32 div 4))) (nat ((24 - (if 0 \<le> i then i mod 4 else - (- i mod 4)) * 8) mod 32)) AND 0xff"

partial_function (option) zero_scan :: "word32 list \<Rightarrow> int \<Rightarrow> int option" where
  "zero_scan ws i = (if byte_before ws i = 0 then zero_scan ws (i - 1) else Some i)"

definition zero_unpad :: "WordArray \<Rightarrow> WordArray option" where
  "zero_unpad data = map_option (\<lambda>i. data\<lparr>sigBytes := nat (i + 1)\<rparr>) (zero_scan (words data) (int (sigBytes data) - 1))"

definition iso97971_pad :: "WordArray \<Rightarrow> nat \<Rightarrow> WordArray" where
  "iso97971_pad data blockSize = zero_pad (wa_concat data (WordArray_init [0x80000000] (Some 1))) blockSize"

definition iso97971_unpad :: "WordArray \<Rightarrow> WordArray option" where
  "iso97971_unpad data = map_option (\<lambda>data. data\<lparr>sigBytes := sigBytes data - 1\<rparr>) (zero_unpad data)"

definition noPadding_pad :: "WordArray \<Rightarrow> nat \<Rightarrow> WordArray" where
  "noPadding_pad data blockSize = data"

definition noPadding_unpad :: "WordArray \<Rightarrow> WordArray option" where
  "noPadding_unpad data = Some data"

subsection \<open>The contract of a padding\<close>

text \<open>\<open>ok n B\<close> says of which messages \<open>B\<close> the padding to blocks of \<open>n\<close> words can be removed again.\<close>

locale padding =
  fixes pad :: "WordArray \<Rightarrow> nat \<Rightarrow> WordArray"
    and unpad :: "WordArray \<Rightarrow> WordArray option"
    and ok :: "nat \<Rightarrow> bytes \<Rightarrow> bool"
  assumes fills: "0 < n \<Longrightarrow> n < 64 \<Longrightarrow> ok n (wa_bytes d) \<Longrightarrow> n * 4 dvd sigBytes (pad d n)"
    and room: "0 < n \<Longrightarrow> n < 64 \<Longrightarrow> ok n (wa_bytes d) \<Longrightarrow> length (words d) = (sigBytes d + 3) div 4 \<Longrightarrow>
      (sigBytes (pad d n) div (n * 4) - 1) * n \<le> length (words (pad d n))"
    and unpads: "0 < n \<Longrightarrow> n < 64 \<Longrightarrow> ok n (wa_bytes d) \<Longrightarrow> wa_bytes w = wa_bytes (pad d n) \<Longrightarrow>
      \<exists>v. unpad w = Some v \<and> wa_bytes v = wa_bytes d"

subsection \<open>Proofs\<close>

lemma wa_bytes_shrink: "k \<le> sigBytes w \<Longrightarrow> wa_bytes (w\<lparr>sigBytes := k\<rparr>) = take k (wa_bytes w)"
  by (simp add: wa_bytes_def take_map)

lemma padding_bytes:
  assumes "0 < k"
  shows "0 < padding_bytes k n" "padding_bytes k n \<le> k" "k dvd n + padding_bytes k n"
proof -
  have m: "n mod k < k" using assms by simp
  then show "0 < padding_bytes k n" "padding_bytes k n \<le> k" by (simp_all add: padding_bytes_def)
  have "n + padding_bytes k n = n div k * k + k" unfolding padding_bytes_def using m div_mult_mod_eq [of n k] by linarith
  then show "k dvd n + padding_bytes k n" by simp
qed

lemma last_byte_eq:
  assumes "4 dvd sigBytes w" "0 < sigBytes w"
  shows "last_byte w = unat (wbyte (words w) (sigBytes w - 1))"
proof -
  obtain q where q: "sigBytes w = 4 * q" using assms(1) by (auto simp: dvd_def)
  then have "(sigBytes w - 1) mod 4 = 3" using assms(2) by (cases q) simp_all
  then have "wbyte (words w) (sigBytes w - 1) = ucast (wget (words w) ((sigBytes w - 1) div 4) AND 0xff)"
    by (simp add: wbyte_def get_byte_def shr_def)
  moreover have "unat (ucast (x AND 0xff) :: byte) = unat (x AND 0xff)" for x :: word32
  proof -
    have "(0xff :: word32) = mask 8" by (simp add: mask_eq_exp_minus_1)
    then have "x AND 0xff = take_bit 8 x" by (simp add: take_bit_eq_mask)
    then show ?thesis by (simp add: unsigned_ucast_eq unsigned_take_bit_eq)
  qed
  ultimately show ?thesis using assms(2) by (simp add: last_byte_def)
qed

lemma unpad_last:
  assumes "wa_bytes w = B @ P @ [of_nat (Suc (length P))]" "4 dvd sigBytes w" "length P < 255"
  shows "wa_bytes (w\<lparr>sigBytes := sigBytes w - last_byte w\<rparr>) = B"
proof -
  have len: "sigBytes w = length B + Suc (length P)" using arg_cong [OF assms(1), of length] by simp
  have "wbyte (words w) (sigBytes w - 1) = of_nat (Suc (length P))"
    using assms(1) nth_wa_bytes [of "sigBytes w - 1" w] by (simp add: len nth_append)
  moreover have "unat (of_nat (Suc (length P)) :: byte) = Suc (length P)" using assms(3) by (simp only: unat_of_nat) simp
  ultimately have "last_byte w = Suc (length P)" using last_byte_eq [OF assms(2)] len by (simp del: of_nat_Suc)
  then show ?thesis using assms(1) by (simp add: wa_bytes_shrink len)
qed

lemma of_nat_byte: "p < 256 \<Longrightarrow> (of_nat p :: word32) = ucast (of_nat p :: byte)"
  by (simp add: word_unat_eq_iff unsigned_ucast_eq unat_of_nat take_bit_nat_eq_self)

lemma wbyte_repeated:
  assumes "i < 4 * q"
  shows "wbyte (replicate q (be_word b b b b)) i = b"
proof (rule bit_word_eqI)
  fix k assume "k < LENGTH(8)"
  then have k: "k < 8" by simp
  have "i div 4 < q" using assms by (simp add: div_less_iff_less_mult mult.commute)
  moreover have "r < 4 \<Longrightarrow> [b, b, b, b] ! r = b" for r by (auto simp: less_Suc_eq numeral_eq_Suc)
  then have "[b, b, b, b] ! (i mod 4) = b" by simp
  ultimately show "bit (wbyte (replicate q (be_word b b b b)) i) k = bit b k"
    using k bit_be_word [of "i mod 4" k b b b b] by (simp add: bit_wbyte wget_def)
qed

lemma pkcs7_pad_bytes:
  assumes "0 < n" "n < 64"
  defines "p \<equiv> padding_bytes (n * 4)"
  shows "wa_bytes (pkcs7_pad d n) = wa_bytes d @ replicate (p (sigBytes d)) (of_nat (p (sigBytes d)))"
    "length (words (pkcs7_pad d n)) = (sigBytes d + p (sigBytes d) + 3) div 4"
proof -
  define m where "m = p (sigBytes d)"
  define b where "b = (of_nat m :: byte)"
  have m: "m < 256" using padding_bytes(2) [of "n * 4" "sigBytes d"] assms by (simp add: m_def)
  have word: "shl (of_nat m) 24 OR shl (of_nat m) 16 OR shl (of_nat m) 8 OR of_nat m = be_word b b b b"
    using of_nat_byte [OF m] by (simp add: be_word_def b_def shl_def)
  have pw: "map (\<lambda>i. be_word b b b b) (js_steps m 4) = replicate ((m + 3) div 4) (be_word b b b b)"
    by (simp add: js_steps_def map_replicate_const)
  have "wa_bytes (WordArray_init (replicate ((m + 3) div 4) (be_word b b b b)) (Some m)) = replicate m b"
    by (intro nth_equalityI) (simp_all add: wa_bytes_def WordArray_init_def wbyte_repeated)
  then show "wa_bytes (pkcs7_pad d n) = wa_bytes d @ replicate (p (sigBytes d)) (of_nat (p (sigBytes d)))"
    unfolding pkcs7_pad_def Let_def p_def [symmetric] m_def [symmetric] word pw by (simp add: b_def)
  show "length (words (pkcs7_pad d n)) = (sigBytes d + p (sigBytes d) + 3) div 4"
    unfolding pkcs7_pad_def Let_def p_def [symmetric] by (simp add: wa_concat_length WordArray_init_def)
qed

lemma sigBytes_bytes: "wa_bytes w = B \<Longrightarrow> sigBytes w = length B"
  by (metis length_wa_bytes)

lemma room_full:
  "0 < n \<Longrightarrow> n * 4 dvd s \<Longrightarrow> length ws = (s + 3) div 4 \<Longrightarrow> (s div (n * 4) - 1) * n \<le> length ws"
proof -
  assume n: "0 < n" and "n * 4 dvd s" and l: "length ws = (s + 3) div 4"
  then obtain k where s: "s = n * 4 * k" by (auto simp: dvd_def)
  have "(s + 3) div 4 = n * k" using div_mult_self4 [of 4 3 "n * k"] unfolding s by (simp add: ac_simps)
  then show ?thesis using n unfolding l by (simp add: s diff_mult_distrib mult.commute)
qed

lemma tail_unpad:
  assumes "0 < n" "n < 64" "wa_bytes w = B @ P @ [of_nat (padding_bytes (n * 4) (length B))]"
    "length P = padding_bytes (n * 4) (length B) - 1"
  shows "wa_bytes (w\<lparr>sigBytes := sigBytes w - last_byte w\<rparr>) = B"
proof -
  note p = padding_bytes [of "n * 4" "length B"]
  have suc: "Suc (length P) = padding_bytes (n * 4) (length B)" using assms(1,4) p(1) by simp
  have "sigBytes w = length B + padding_bytes (n * 4) (length B)" using sigBytes_bytes [OF assms(3)] suc by simp
  then have "n * 4 dvd sigBytes w" using p(3) assms(1) by simp
  then have "4 dvd sigBytes w" using dvd_trans [of 4 "n * 4" "sigBytes w"] by simp
  then show ?thesis using unpad_last [of w B P] assms(2-3) p(2) suc assms(1) by simp
qed

lemma ansiX923_pad_bytes:
  assumes "0 < n" "n < 64"
  defines "p \<equiv> padding_bytes (n * 4)"
  shows "wa_bytes (ansiX923_pad d n) = wa_bytes d @ replicate (p (sigBytes d) - 1) 0 @ [of_nat (p (sigBytes d))]"
    "length (words (ansiX923_pad d n)) = (sigBytes d + p (sigBytes d) + 3) div 4"
proof -
  define m where "m = p (sigBytes d)"
  define last where "last = sigBytes d + m - 1"
  have m: "0 < m" "m < 256" using padding_bytes(1,2) [of "n * 4" "sigBytes d"] assms by (simp_all add: m_def)
  have pad: "ansiX923_pad d n = \<lparr>words = or_byte (words (wa_clamp d)) last (ucast (of_nat m :: byte)), sigBytes = sigBytes d + m\<rparr>"
    using of_nat_byte [OF m(2)] by (simp add: ansiX923_pad_def Let_def or_byte_def last_def m_def p_def)
  have b: "wbyte (words (ansiX923_pad d n)) i = (if i = last then of_nat m else if i < sigBytes d then wbyte (words d) i else 0)" for i
  proof -
    have "\<not> last < sigBytes d" using m(1) by (simp add: last_def)
    then show ?thesis by (simp add: pad wbyte_or_byte wbyte_clamp)
  qed
  show "wa_bytes (ansiX923_pad d n) = wa_bytes d @ replicate (p (sigBytes d) - 1) 0 @ [of_nat (p (sigBytes d))]"
  proof -
    have sig: "sigBytes (ansiX923_pad d n) = sigBytes d + m" by (simp add: pad)
    show ?thesis using m(1) by (intro nth_equalityI)
      (auto simp: sig nth_wa_bytes b nth_append nth_Cons' last_def simp flip: m_def)
  qed
  have "length (words (wa_clamp d)) = (sigBytes d + 3) div 4" by (simp add: wa_clamp_of_bytes)
  moreover have "Suc (last div 4) = (sigBytes d + m + 3) div 4"
    using ceil_div_4_Suc [of "sigBytes d + m"] m(1) by (simp add: last_def)
  moreover have "(sigBytes d + 3) div 4 \<le> (sigBytes d + m + 3) div 4" by (rule div_le_mono) simp
  ultimately show "length (words (ansiX923_pad d n)) = (sigBytes d + p (sigBytes d) + 3) div 4"
    by (simp add: pad flip: m_def)
qed

lemma iso10126_pad_bytes:
  assumes "0 < n" "n < 64"
  defines "p \<equiv> padding_bytes (n * 4)"
  shows "wa_bytes (iso10126_pad rnd d n) =
      wa_bytes d @ wa_bytes (WordArray_random rnd (p (sigBytes d) - 1)) @ [of_nat (p (sigBytes d))]"
    "length (words (iso10126_pad rnd d n)) = (sigBytes d + p (sigBytes d) + 3) div 4"
proof -
  define m where "m = p (sigBytes d)"
  have m: "0 < m" "m < 256" using padding_bytes(1,2) [of "n * 4" "sigBytes d"] assms by (simp_all add: m_def)
  have "bit (wbyte [shl (of_nat m) 24] 0) k = bit (of_nat m :: byte) k" if "k < LENGTH(8)" for k
    using that by (simp add: bit_wbyte wget_def bit_shl bit_of_nat_iff)
  then have "wbyte [shl (of_nat m) 24] 0 = of_nat m" by (rule bit_word_eqI)
  then have "wa_bytes (WordArray_init [shl (of_nat m) 24] (Some 1)) = [of_nat m]"
    by (simp add: wa_bytes_def WordArray_init_def)
  then show "wa_bytes (iso10126_pad rnd d n) =
      wa_bytes d @ wa_bytes (WordArray_random rnd (p (sigBytes d) - 1)) @ [of_nat (p (sigBytes d))]"
    by (simp add: iso10126_pad_def Let_def m_def p_def)
  show "length (words (iso10126_pad rnd d n)) = (sigBytes d + p (sigBytes d) + 3) div 4"
    using m(1) by (simp add: iso10126_pad_def Let_def wa_concat_length WordArray_random_def WordArray_init_def m_def p_def)
qed

lemma tail_padding:
  assumes "\<And>n d. 0 < n \<Longrightarrow> n < 64 \<Longrightarrow>
      \<exists>P. wa_bytes (pad d n) = wa_bytes d @ P @ [of_nat (padding_bytes (n * 4) (sigBytes d))] \<and>
        length P = padding_bytes (n * 4) (sigBytes d) - 1 \<and> length (words (pad d n)) = (sigBytes (pad d n) + 3) div 4"
    and "\<And>w. unpad w = Some (w\<lparr>sigBytes := sigBytes w - last_byte w\<rparr>)"
  shows "padding pad unpad (\<lambda>n B. True)"
proof
  fix n :: nat and d w :: WordArray
  assume n: "0 < n" "n < 64"
  obtain P where P: "wa_bytes (pad d n) = wa_bytes d @ P @ [of_nat (padding_bytes (n * 4) (length (wa_bytes d)))]"
      "length P = padding_bytes (n * 4) (length (wa_bytes d)) - 1" "length (words (pad d n)) = (sigBytes (pad d n) + 3) div 4"
    using assms(1) [OF n, of d] by auto
  have "sigBytes (pad d n) = sigBytes d + padding_bytes (n * 4) (sigBytes d)"
    using sigBytes_bytes [OF P(1)] P(2) padding_bytes(1) [of "n * 4" "sigBytes d"] n by simp
  then show fill: "n * 4 dvd sigBytes (pad d n)" using padding_bytes(3) [of "n * 4" "sigBytes d"] n by simp
  show "(sigBytes (pad d n) div (n * 4) - 1) * n \<le> length (words (pad d n))"
    by (rule room_full [OF n(1) fill P(3)])
  show "wa_bytes w = wa_bytes (pad d n) \<Longrightarrow> \<exists>v. unpad w = Some v \<and> wa_bytes v = wa_bytes d"
    using tail_unpad [OF n _ P(2)] P(1) by (simp add: assms(2))
qed

interpretation pkcs7: padding pkcs7_pad pkcs7_unpad "\<lambda>n B. True"
proof (rule tail_padding)
  fix n and d :: WordArray assume n: "0 < n" "n < (64 :: nat)"
  let ?p = "padding_bytes (n * 4) (sigBytes d)"
  have "replicate ?p (of_nat ?p :: byte) = replicate (?p - 1) (of_nat ?p) @ [of_nat ?p]"
    using padding_bytes(1) [of "n * 4" "sigBytes d"] n by (cases ?p) (simp_all add: replicate_append_same)
  then show "\<exists>P. wa_bytes (pkcs7_pad d n) = wa_bytes d @ P @ [of_nat ?p] \<and> length P = ?p - 1 \<and>
      length (words (pkcs7_pad d n)) = (sigBytes (pkcs7_pad d n) + 3) div 4"
    using pkcs7_pad_bytes [OF n, of d] sigBytes_bytes [OF pkcs7_pad_bytes(1) [OF n, of d]] padding_bytes(1) [of "n * 4" "sigBytes d"] n
    by (intro exI [of _ "replicate (?p - 1) (of_nat ?p)"]) simp
qed (simp add: pkcs7_unpad_def)

interpretation ansiX923: padding ansiX923_pad ansiX923_unpad "\<lambda>n B. True"
proof (rule tail_padding)
  fix n d assume n: "0 < n" "n < (64 :: nat)"
  show "\<exists>P. wa_bytes (ansiX923_pad d n) = wa_bytes d @ P @ [of_nat (padding_bytes (n * 4) (sigBytes d))] \<and>
      length P = padding_bytes (n * 4) (sigBytes d) - 1 \<and>
      length (words (ansiX923_pad d n)) = (sigBytes (ansiX923_pad d n) + 3) div 4"
    using ansiX923_pad_bytes [OF n, of d]
    by (intro exI [of _ "replicate (padding_bytes (n * 4) (sigBytes d) - 1) 0"]) (simp, simp add: ansiX923_pad_def Let_def)
qed (simp add: ansiX923_unpad_def)

interpretation iso10126: padding "iso10126_pad rnd" iso10126_unpad "\<lambda>n B. True"
  for rnd
proof (rule tail_padding)
  fix n d assume n: "0 < n" "n < (64 :: nat)"
  show "\<exists>P. wa_bytes (iso10126_pad rnd d n) = wa_bytes d @ P @ [of_nat (padding_bytes (n * 4) (sigBytes d))] \<and>
      length P = padding_bytes (n * 4) (sigBytes d) - 1 \<and>
      length (words (iso10126_pad rnd d n)) = (sigBytes (iso10126_pad rnd d n) + 3) div 4"
    using iso10126_pad_bytes [OF n, of rnd d] sigBytes_bytes [OF iso10126_pad_bytes(1) [OF n, of rnd d]] padding_bytes(1) [of "n * 4" "sigBytes d"] n
    by (intro exI [of _ "wa_bytes (WordArray_random rnd (padding_bytes (n * 4) (sigBytes d) - 1))"])
      (simp add: WordArray_random_def WordArray_init_def)
qed (simp add: iso10126_unpad_def)

interpretation noPadding: padding noPadding_pad noPadding_unpad "\<lambda>n B. n * 4 dvd length B"
proof
  fix n :: nat and d w :: WordArray
  assume "0 < n" "n < 64" "n * 4 dvd length (wa_bytes d)"
  then show "(sigBytes (noPadding_pad d n) div (n * 4) - 1) * n \<le> length (words (noPadding_pad d n))"
    if "length (words d) = (sigBytes d + 3) div 4" using that room_full [of n "sigBytes d" "words d"] by (simp add: noPadding_pad_def)
qed (simp_all add: noPadding_pad_def noPadding_unpad_def)

subsection \<open>Zeros\<close>

lemma byte_before_nat: "i < 2 ^ 32 \<Longrightarrow> byte_before ws (int i) = ucast (wbyte ws i)"
proof -
  assume i: "i < 2 ^ 32"
  have "(24 - int i mod 4 * 8) mod 32 = int (24 - i mod 4 * 8)"
  proof -
    have "i mod 4 < 4" by simp
    then have "(24 - int (i mod 4) * 8) mod 32 = int (24 - i mod 4 * 8)" by simp
    then show ?thesis by (simp add: zmod_int)
  qed
  then have "nat ((24 - int i mod 4 * 8) mod 32) = 24 - i mod 4 * 8" by (simp only: nat_int)
  moreover have "nat (int i mod 2 ^ 32 div 4) = i div 4" using i by (simp add: zdiv_int)
  ultimately show ?thesis unfolding byte_before_def ucast_wbyte get_byte_def by (simp only: of_nat_0_le_iff if_True)
qed

lemma zero_scan_run:
  assumes "wbyte ws i \<noteq> 0" "\<And>j. i < j \<Longrightarrow> j \<le> i + z \<Longrightarrow> wbyte ws j = 0" "i + z < 2 ^ 32"
  shows "zero_scan ws (int (i + z)) = Some (int i)"
  using assms(2,3)
proof (induction z)
  case 0
  have "unat (wbyte ws i) < 2 ^ 8" using unsigned_less [of "wbyte ws i", where ?'a = nat] by simp
  then have "unat (ucast (wbyte ws i) :: word32) = unat (wbyte ws i)" by (simp add: unsigned_ucast_eq take_bit_nat_eq_self)
  then have "ucast (wbyte ws i) \<noteq> (0 :: word32)" using assms(1) by (metis unsigned_0 unsigned_eq_0_iff)
  then show ?case using byte_before_nat [of i ws] 0 by (subst zero_scan.simps) simp
next
  case (Suc z)
  have "byte_before ws (int (i + Suc z)) = 0" using byte_before_nat [of "i + Suc z" ws] Suc.prems by simp
  then show ?case using Suc by (subst zero_scan.simps) (simp add: algebra_simps)
qed

lemma zero_unpad_bytes:
  assumes "wa_bytes w = B @ replicate z 0" "B \<noteq> []" "last B \<noteq> 0" "length B + z < 2 ^ 32"
  shows "zero_unpad w = Some (w\<lparr>sigBytes := length B\<rparr>)"
proof -
  obtain i where i: "length B = Suc i" using assms(2) by (cases B) simp_all
  have sig: "sigBytes w = length B + z" using sigBytes_bytes [OF assms(1)] by simp
  have nth: "wbyte (words w) j = (B @ replicate z 0) ! j" if "j < length B + z" for j
    using nth_wa_bytes [of j w] that assms(1) sig by simp
  have "zero_scan (words w) (int (i + z)) = Some (int i)"
  proof (rule zero_scan_run)
    show "wbyte (words w) i \<noteq> 0" using nth [of i] assms(2,3) i by (simp add: nth_append last_conv_nth)
    show "wbyte (words w) j = 0" if "i < j" "j \<le> i + z" for j using nth [of j] that i by (simp add: nth_append)
  qed (use assms(4) i in simp)
  then show ?thesis using sig i by (simp add: zero_unpad_def algebra_simps)
qed

lemma zero_pad_bytes:
  assumes "0 < n"
  obtains z where "wa_bytes (zero_pad d n) = wa_bytes d @ replicate z 0" "z < n * 4" "n * 4 dvd sigBytes d + z"
    "length (words (zero_pad d n)) = (sigBytes d + 3) div 4"
proof
  let ?k = "n * 4" and ?r = "sigBytes d mod (n * 4)"
  let ?z = "?k - (if ?r = 0 then ?k else ?r)"
  have "wbyte (words (wa_clamp d)) i = (if i < sigBytes d then wbyte (words d) i else 0)" for i by (rule wbyte_clamp)
  then show "wa_bytes (zero_pad d n) = wa_bytes d @ replicate ?z 0"
    by (intro nth_equalityI) (auto simp: zero_pad_def Let_def nth_wa_bytes nth_append)
  have r: "?r < ?k" using assms by simp
  show "?z < ?k" using assms by auto
  have "sigBytes d = sigBytes d div ?k * ?k + ?r" by (rule div_mult_mod_eq [symmetric])
  then have "sigBytes d + ?z = (if ?r = 0 then sigBytes d div ?k * ?k else sigBytes d div ?k * ?k + ?k)" using r by auto
  then show "?k dvd sigBytes d + ?z" by (simp split: if_splits)
  show "length (words (zero_pad d n)) = (sigBytes d + 3) div 4" by (simp add: zero_pad_def Let_def wa_clamp_of_bytes)
qed

lemma zero_room:
  assumes "0 < (n :: nat)" "z < n * 4" "n * 4 dvd s + z"
  shows "((s + z) div (n * 4) - 1) * n \<le> (s + 3) div 4"
proof -
  obtain q where q: "s + z = n * 4 * q" using assms(3) by (auto simp: dvd_def)
  then have "(s + z) div (n * 4) = q" using assms(1) by simp
  moreover have "(q - 1) * n * 4 \<le> s" using q assms(2) by (cases q) (simp_all add: algebra_simps)
  ultimately show ?thesis by simp
qed

interpretation zero: padding zero_pad zero_unpad "\<lambda>n B. B \<noteq> [] \<and> last B \<noteq> 0 \<and> length B < 2 ^ 31"
proof
  fix n :: nat and d w :: WordArray
  assume n: "0 < n" "n < 64" and B: "wa_bytes d \<noteq> [] \<and> last (wa_bytes d) \<noteq> 0 \<and> length (wa_bytes d) < 2 ^ 31"
  obtain z where z: "wa_bytes (zero_pad d n) = wa_bytes d @ replicate z 0" "z < n * 4" "n * 4 dvd sigBytes d + z"
    "length (words (zero_pad d n)) = (sigBytes d + 3) div 4" using zero_pad_bytes [OF n(1)] .
  have sig: "sigBytes (zero_pad d n) = sigBytes d + z" using sigBytes_bytes [OF z(1)] by simp
  show "n * 4 dvd sigBytes (zero_pad d n)" using z(3) sig by simp
  show "(sigBytes (zero_pad d n) div (n * 4) - 1) * n \<le> length (words (zero_pad d n))"
    unfolding sig z(4) by (rule zero_room [OF n(1) z(2,3)])
  assume w: "wa_bytes w = wa_bytes (zero_pad d n)"
  have "length (wa_bytes d) + z < 2 ^ 32" using B z(2) n(2) by simp
  then show "\<exists>v. zero_unpad w = Some v \<and> wa_bytes v = wa_bytes d"
    using zero_unpad_bytes [of w "wa_bytes d" z] B w z(1) sigBytes_bytes [OF w] sig by (simp add: wa_bytes_shrink)
qed

interpretation iso97971: padding iso97971_pad iso97971_unpad "\<lambda>n B. length B < 2 ^ 31 - 1"
proof
  fix n :: nat and d w :: WordArray
  assume n: "0 < n" "n < 64" and B: "length (wa_bytes d) < 2 ^ 31 - 1"
  define d' where "d' = wa_concat d (WordArray_init [0x80000000] (Some 1))"
  have "wbyte [0x80000000] 0 = 0x80" by (simp add: wbyte_def get_byte_def wget_def shr_def)
  then have "wa_bytes (WordArray_init [0x80000000] (Some 1)) = [0x80]" by (simp add: wa_bytes_def WordArray_init_def)
  then have d': "wa_bytes d' = wa_bytes d @ [0x80]" by (simp add: d'_def)
  have pad: "iso97971_pad d n = zero_pad d' n" by (simp add: iso97971_pad_def d'_def)
  obtain z where z: "wa_bytes (zero_pad d' n) = wa_bytes d' @ replicate z 0" "z < n * 4" "n * 4 dvd sigBytes d' + z"
    "length (words (zero_pad d' n)) = (sigBytes d' + 3) div 4" using zero_pad_bytes [OF n(1)] .
  have sig: "sigBytes (zero_pad d' n) = sigBytes d' + z" using sigBytes_bytes [OF z(1)] by simp
  show "n * 4 dvd sigBytes (iso97971_pad d n)" using z(3) sig by (simp add: pad)
  show "(sigBytes (iso97971_pad d n) div (n * 4) - 1) * n \<le> length (words (iso97971_pad d n))"
    unfolding pad sig z(4) by (rule zero_room [OF n(1) z(2,3)])
  assume w: "wa_bytes w = wa_bytes (iso97971_pad d n)"
  have "length (wa_bytes d') + z < 2 ^ 32" using B z(2) n(2) unfolding d' by simp
  then have "zero_unpad w = Some (w\<lparr>sigBytes := length (wa_bytes d')\<rparr>)"
    using zero_unpad_bytes [of w "wa_bytes d'" z] w z(1) unfolding pad d' by simp
  then show "\<exists>v. iso97971_unpad w = Some v \<and> wa_bytes v = wa_bytes d"
    using w z(1) d' sigBytes_bytes [OF w] sig sigBytes_bytes [OF d'] by (simp add: iso97971_unpad_def pad wa_bytes_shrink)
qed

text \<open>Nothing but zeros: the loop that looks for a byte to keep never ends.\<close>

lemma zero_scan_zeros: "\<forall>w \<in> set ws. w = 0 \<Longrightarrow> zero_scan ws i = None"
proof (rule ccontr)
  assume zeros: "\<forall>w \<in> set ws. w = 0" and "zero_scan ws i \<noteq> None"
  then obtain r where "zero_scan ws i = Some r" by auto
  then have "byte_before ws r \<noteq> 0"
    by (rule zero_scan.raw_induct [rotated]) (auto split: if_splits)
  moreover have "wget ws k = 0" for k using zeros by (simp add: wget_def)
  ultimately show False by (simp add: byte_before_def shr_def)
qed

end
