(* ===== verification/Block_Ciphers.thy ===== *)
theory Block_Ciphers
  imports Cipher_Modes Paddings
begin

text \<open>
  \<^verbatim>\<open>BlockCipher\<close> of \<^verbatim>\<open>cipher-core\<close> (\<^verbatim>\<open>src/internal/jsre/deps/web3.js\<close>) with its configuration: a mode and a padding.
  \<open>block_encrypt\<close> and \<open>block_decrypt\<close> are \<^verbatim>\<open>createEncryptor(key, cfg).finalize(message)\<close> and its counterpart, for a cipher
  whose key has been set up. They are \<open>None\<close> where the source throws a \<^verbatim>\<open>TypeError\<close> or does not return.
\<close>

datatype Mode = CBC | CFB | CTR | CTRGladman | ECB | OFB

datatype Padding = Pkcs7 | AnsiX923 | Iso10126 | Iso97971 | ZeroPadding | NoPadding

primrec createEncryptor :: "Mode \<Rightarrow> BlockCipher \<Rightarrow> mode_step" where
  "createEncryptor CBC = cbc_encrypt"
| "createEncryptor CFB = cfb_encrypt"
| "createEncryptor CTR = ctr_crypt"
| "createEncryptor CTRGladman = ctrGladman_crypt"
| "createEncryptor ECB = ecb_encrypt"
| "createEncryptor OFB = ofb_crypt"

primrec createDecryptor :: "Mode \<Rightarrow> BlockCipher \<Rightarrow> mode_step" where
  "createDecryptor CBC = cbc_decrypt"
| "createDecryptor CFB = cfb_decrypt"
| "createDecryptor CTR = ctr_crypt"
| "createDecryptor CTRGladman = ctrGladman_crypt"
| "createDecryptor ECB = ecb_decrypt"
| "createDecryptor OFB = ofb_crypt"

primrec pad_of :: "(nat \<Rightarrow> word32) \<Rightarrow> Padding \<Rightarrow> WordArray \<Rightarrow> nat \<Rightarrow> WordArray" where
  "pad_of rnd Pkcs7 = pkcs7_pad"
| "pad_of rnd AnsiX923 = ansiX923_pad"
| "pad_of rnd Iso10126 = iso10126_pad rnd"
| "pad_of rnd Iso97971 = iso97971_pad"
| "pad_of rnd ZeroPadding = zero_pad"
| "pad_of rnd NoPadding = noPadding_pad"

primrec unpad_of :: "Padding \<Rightarrow> WordArray \<Rightarrow> WordArray option" where
  "unpad_of Pkcs7 = pkcs7_unpad"
| "unpad_of AnsiX923 = ansiX923_unpad"
| "unpad_of Iso10126 = iso10126_unpad"
| "unpad_of Iso97971 = iso97971_unpad"
| "unpad_of ZeroPadding = zero_unpad"
| "unpad_of NoPadding = noPadding_unpad"

definition block_encrypt ::
    "(nat \<Rightarrow> word32) \<Rightarrow> BlockCipher \<Rightarrow> Mode \<Rightarrow> Padding \<Rightarrow> WordArray option \<Rightarrow> WordArray \<Rightarrow> WordArray option" where
  "block_encrypt rnd c mode pd iv message =
     (let n = bc_blockSize c;
          (ciphertext, a) =
            cipher_finalize (block_encrypt_doFinalize n (pad_of rnd pd) (createEncryptor mode c)) (Some message)
              (bba_reset (Some (mode_init (map_option words iv))))
      in if alg_state a = None then None else Some ciphertext)"

definition block_decrypt ::
    "BlockCipher \<Rightarrow> Mode \<Rightarrow> Padding \<Rightarrow> WordArray option \<Rightarrow> WordArray \<Rightarrow> WordArray option" where
  "block_decrypt c mode pd iv ciphertext =
     (let n = bc_blockSize c;
          (plaintext, a) =
            cipher_finalize (block_decrypt_doFinalize n (unpad_of pd) (createDecryptor mode c)) (Some ciphertext)
              (bba_reset (Some (mode_init (map_option words iv))))
      in if alg_state a = None then None else plaintext)"

subsection \<open>Messages that come back\<close>

text \<open>The messages a padding can be removed from; a mode that adds a key stream needs none.\<close>

primrec streams :: "Mode \<Rightarrow> bool" where
  "streams CBC = False"
| "streams CFB = True"
| "streams CTR = True"
| "streams CTRGladman = True"
| "streams ECB = False"
| "streams OFB = True"

primrec paddable :: "Mode \<Rightarrow> Padding \<Rightarrow> nat \<Rightarrow> bytes \<Rightarrow> bool" where
  "paddable mode Pkcs7 n B = True"
| "paddable mode AnsiX923 n B = True"
| "paddable mode Iso10126 n B = True"
| "paddable mode Iso97971 n B = (length B < 2 ^ 31 - 1)"
| "paddable mode ZeroPadding n B = (B \<noteq> [] \<and> last B \<noteq> 0 \<and> length B < 2 ^ 31)"
| "paddable mode NoPadding n B = (streams mode \<or> n * 4 dvd length B)"

context cipher_pair
begin

lemma encrypted:
  assumes d: "d = pad (wa_concat (WordArray_init [] None) m) n"
    and good: "good s" and room: "(enc.nblocks (sigBytes d) - 1) * n \<le> length (words d)"
    and fits: "partial \<or> n * 4 dvd sigBytes d"
    and r: "(ct, a) = cipher_finalize (block_encrypt_doFinalize n pad estep) (Some m) (bba_reset s)"
    and r': "(w, a') = bba_process n 1 dstep True (bba_append ct (bba_reset s))"
  shows "good (alg_state a)" "wa_bytes w = wa_bytes d" "good (alg_state a')"
proof -
  let ?a = "(bba_append m (bba_reset s))\<lparr>alg_data := d\<rparr>"
  have run: "(ct, a) = bba_process n 0 estep True ?a"
    using r by (simp add: cipher_finalize_def block_encrypt_doFinalize_def d bba_append_def bba_reset_def)
  have a: "alg_state ?a = s" "alg_data ?a = d" by (simp_all add: bba_append_def bba_reset_def)
  show "good (alg_state a)" using enc.flush_good [of ?a 0] run good room a by (metis snd_conv)
  let ?b = "bba_append ct (bba_reset s)"
  have b: "alg_state ?b = s" "alg_data ?b = wa_concat (WordArray_init [] None) ct" by (simp_all add: bba_append_def bba_reset_def)
  show "wa_bytes w = wa_bytes d"
    using round_trip [of ?a ?b 0 1] good fits room a b run r' by (metis fst_conv)
  have "length (words (alg_data ?b)) = (sigBytes (alg_data ?b) + 3) div 4" unfolding b concat_empty by simp
  then have "(dec.nblocks (sigBytes (alg_data ?b)) - 1) * n \<le> length (words (alg_data ?b))"
    using dec.nblocks_words by simp
  then show "good (alg_state a')" using dec.flush_good [of ?b 1] good b(1) r' by (metis snd_conv)
qed

end

lemma paddable_fun:
  "paddable CBC Pkcs7 = (\<lambda>n B. True)" "paddable CBC AnsiX923 = (\<lambda>n B. True)" "paddable CBC Iso10126 = (\<lambda>n B. True)"
  "paddable CBC Iso97971 = (\<lambda>n B. length B < 2 ^ 31 - 1)"
  "paddable CBC ZeroPadding = (\<lambda>n B. B \<noteq> [] \<and> last B \<noteq> 0 \<and> length B < 2 ^ 31)"
  "paddable CBC NoPadding = (\<lambda>n B. n * 4 dvd length B)"
  by (intro ext, simp)+

lemma padding_of: "padding (pad_of rnd pd) (unpad_of pd) (paddable CBC pd)"
proof (cases pd)
  case Pkcs7
  then show ?thesis using pkcs7.padding_axioms by (simp add: paddable_fun)
next
  case AnsiX923
  then show ?thesis using ansiX923.padding_axioms by (simp add: paddable_fun)
next
  case Iso10126
  then show ?thesis using iso10126.padding_axioms by (simp add: paddable_fun)
next
  case Iso97971
  then show ?thesis using iso97971.padding_axioms by (simp add: paddable_fun)
next
  case ZeroPadding
  then show ?thesis using zero.padding_axioms by (simp add: paddable_fun)
next
  case NoPadding
  then show ?thesis using noPadding.padding_axioms by (simp add: paddable_fun)
qed

context block_cipher
begin

lemma mode_pair:
  assumes "mode = ECB \<or> iv \<noteq> None"
  obtains ef df good where
    "cipher_pair (bc_blockSize c) (createEncryptor mode c) ef (createDecryptor mode c) df good (streams mode)"
    "good (Some (mode_init iv))" "\<not> good None"
proof (cases "mode = ECB")
  case True
  show ?thesis by (rule that [OF _ _, of _ _ "\<lambda>st. st \<noteq> None"]) (use True ecb_pair in auto)
next
  case False
  have "chained (Some (mode_init iv))" "\<not> chained None"
    using assms False by (auto simp: chained_def mode_init_def choose_block_def)
  then show ?thesis
    using that cbc_pair cfb_pair ctr_pair ctrGladman_pair ofb_pair False by (cases mode) simp_all
qed

text \<open>What was encrypted comes back, with every mode and every padding.\<close>

lemma block_round_trip:
  assumes n: "bc_blockSize c < 64" and iv: "mode = ECB \<or> iv \<noteq> None"
    and m: "paddable mode pd (bc_blockSize c) (wa_bytes m)"
  shows "\<exists>ct pt. block_encrypt rnd c mode pd iv m = Some ct \<and> block_decrypt c mode pd iv ct = Some pt \<and>
    wa_bytes pt = wa_bytes m"
proof -
  let ?n = "bc_blockSize c" and ?s = "Some (mode_init (map_option words iv))"
  obtain ef df good where pair: "cipher_pair ?n (createEncryptor mode c) ef (createDecryptor mode c) df good (streams mode)"
      and good: "good ?s" "\<not> good None"
    using mode_pair [of mode "map_option words iv"] iv by auto
  note enc = cipher_pair.axioms(1) [OF pair]
  define d0 where "d0 = wa_concat (WordArray_init [] None) m"
  define d where "d = pad_of rnd pd d0 ?n"
  have d0: "length (words d0) = (sigBytes d0 + 3) div 4" "wa_bytes d0 = wa_bytes m"
    by (simp add: d0_def concat_empty, simp add: d0_def) (simp add: WordArray_init_def wa_bytes_def)
  have "(block_mode.nblocks ?n (sigBytes d) - 1) * ?n \<le> length (words d) \<and> (streams mode \<or> ?n * 4 dvd sigBytes d) \<and>
      (\<forall>w. wa_bytes w = wa_bytes d \<longrightarrow> (\<exists>v. unpad_of pd w = Some v \<and> wa_bytes v = wa_bytes d0))"
  proof (cases "paddable CBC pd ?n (wa_bytes d0)")
    case True
    note facts = padding.fills [OF padding_of size n True] padding.room [OF padding_of size n True d0(1)]
      padding.unpads [OF padding_of size n True]
    have "block_mode.nblocks ?n (sigBytes d) = sigBytes d div (?n * 4)"
      unfolding block_mode.nblocks_def [OF enc] d_def using facts(1) size by (auto simp: dvd_def intro!: div_nat_eqI)
    then show ?thesis using facts by (auto simp: d_def)
  next
    case False
    then have "pd = NoPadding" "streams mode" using m d0(2) by (cases pd; simp)+
    then show ?thesis using block_mode.nblocks_words [OF enc, of "sigBytes d0"] d0(1)
      by (simp add: d_def noPadding_pad_def noPadding_unpad_def)
  qed
  then have room: "(block_mode.nblocks ?n (sigBytes d) - 1) * ?n \<le> length (words d)" and fits: "streams mode \<or> ?n * 4 dvd sigBytes d"
    and un: "wa_bytes w = wa_bytes d \<Longrightarrow> \<exists>v. unpad_of pd w = Some v \<and> wa_bytes v = wa_bytes d0" for w by blast+
  obtain ct a where r: "(ct, a) = cipher_finalize (block_encrypt_doFinalize ?n (pad_of rnd pd) (createEncryptor mode c)) (Some m) (bba_reset ?s)"
    by (metis surj_pair)
  obtain w a' where r': "(w, a') = bba_process ?n 1 (createDecryptor mode c) True (bba_append ct (bba_reset ?s))" by (metis surj_pair)
  note res = cipher_pair.encrypted [OF pair d_def [unfolded d0_def] good(1) room fits r r']
  obtain v where v: "unpad_of pd w = Some v" "wa_bytes v = wa_bytes d0" using un [OF res(2)] by blast
  have st: "alg_state a \<noteq> None" "alg_state a' \<noteq> None" using res(1,3) good(2) by metis+
  have "block_encrypt rnd c mode pd iv m = Some ct"
    using st(1) by (auto simp: block_encrypt_def Let_def simp flip: r)
  moreover have "block_decrypt c mode pd iv ct = Some v"
    using st(2) v(1) by (auto simp: block_decrypt_def Let_def cipher_finalize_def block_decrypt_doFinalize_def simp flip: r' [unfolded One_nat_def])
  ultimately show ?thesis using v(2) d0(2) by auto
qed

end

end
