(* ===== verification/Aes.thy ===== *)
theory Aes
  imports Block_Ciphers
begin

text \<open>
  Module \<^verbatim>\<open>aes\<close> of CryptoJS (\<^verbatim>\<open>src/internal/jsre/deps/web3.js\<close>). The lookup tables are computed by a walk through
  \<open>GF(2^8)\<close> when the module is loaded; a cipher works with them and with two key schedules, one for each direction.
  Indices into the tables are words below 256.
\<close>

subsection \<open>The tables\<close>

record AES_tables =
  SBOX :: "word32 list"
  INV_SBOX :: "word32 list"
  SUB_MIX_0 :: "word32 list"
  SUB_MIX_1 :: "word32 list"
  SUB_MIX_2 :: "word32 list"
  SUB_MIX_3 :: "word32 list"
  INV_SUB_MIX_0 :: "word32 list"
  INV_SUB_MIX_1 :: "word32 list"
  INV_SUB_MIX_2 :: "word32 list"
  INV_SUB_MIX_3 :: "word32 list"

definition aes_d :: "word32 list" where
  "aes_d = map (\<lambda>i. if i < 128 then shl (of_nat i) 1 else shl (of_nat i) 1 XOR 0x11b) [0..<256]"

abbreviation lookup_word :: "word32 list \<Rightarrow> word32 \<Rightarrow> word32" where
  "lookup_word t i \<equiv> wget t (unat i)"

definition aes_sx :: "word32 \<Rightarrow> word32" where
  "aes_sx xi =
     (let sx = xi XOR shl xi 1 XOR shl xi 2 XOR shl xi 3 XOR shl xi 4
      in shr sx 8 XOR (sx AND 0xff) XOR 0x63)"

definition aes_walk_next :: "word32 \<times> word32 \<Rightarrow> word32 \<times> word32" where
  "aes_walk_next = (\<lambda>(x, xi).
     let x2 = lookup_word aes_d x; x4 = lookup_word aes_d x2; x8 = lookup_word aes_d x4
     in if x = 0 then (1, 1)
        else (x2 XOR lookup_word aes_d (lookup_word aes_d (lookup_word aes_d (x8 XOR x2))),
              xi XOR lookup_word aes_d (lookup_word aes_d xi)))"

definition aes_enter :: "word32 \<Rightarrow> word32 \<Rightarrow> AES_tables \<Rightarrow> AES_tables" where
  "aes_enter x sx T =
     (let x2 = lookup_word aes_d x; x4 = lookup_word aes_d x2; x8 = lookup_word aes_d x4;
          t = (lookup_word aes_d sx * 0x101) XOR (sx * 0x1010100);
          u = (x8 * 0x1010101) XOR (x4 * 0x10001) XOR (x2 * 0x101) XOR (x * 0x1010100)
      in \<lparr>SBOX = wset (SBOX T) (unat x) sx,
          INV_SBOX = wset (INV_SBOX T) (unat sx) x,
          SUB_MIX_0 = wset (SUB_MIX_0 T) (unat x) (shl t 24 OR shr t 8),
          SUB_MIX_1 = wset (SUB_MIX_1 T) (unat x) (shl t 16 OR shr t 16),
          SUB_MIX_2 = wset (SUB_MIX_2 T) (unat x) (shl t 8 OR shr t 24),
          SUB_MIX_3 = wset (SUB_MIX_3 T) (unat x) t,
          INV_SUB_MIX_0 = wset (INV_SUB_MIX_0 T) (unat sx) (shl u 24 OR shr u 8),
          INV_SUB_MIX_1 = wset (INV_SUB_MIX_1 T) (unat sx) (shl u 16 OR shr u 16),
          INV_SUB_MIX_2 = wset (INV_SUB_MIX_2 T) (unat sx) (shl u 8 OR shr u 24),
          INV_SUB_MIX_3 = wset (INV_SUB_MIX_3 T) (unat sx) u\<rparr>)"

definition aes_no_tables :: AES_tables where
  "aes_no_tables = \<lparr>SBOX = [], INV_SBOX = [], SUB_MIX_0 = [], SUB_MIX_1 = [], SUB_MIX_2 = [], SUB_MIX_3 = [],
     INV_SUB_MIX_0 = [], INV_SUB_MIX_1 = [], INV_SUB_MIX_2 = [], INV_SUB_MIX_3 = []\<rparr>"

definition aes_tables :: AES_tables where
  "aes_tables =
     fst (fold (\<lambda>i (T, x, xi). (aes_enter x (aes_sx xi) T, aes_walk_next (x, xi))) [0..<256] (aes_no_tables, 0, 0))"

definition RCON :: "word32 list" where
  "RCON = [0x00, 0x01, 0x02, 0x04, 0x08, 0x10, 0x20, 0x40, 0x80, 0x1b, 0x36]"

subsection \<open>The key schedules\<close>

text \<open>\<^verbatim>\<open>keySize\<close> is the number of words of the key, which has to be a whole number.\<close>

definition aes_subWord :: "word32 \<Rightarrow> word32" where
  "aes_subWord t =
     shl (lookup_word (SBOX aes_tables) (shr t 24)) 24 OR shl (lookup_word (SBOX aes_tables) (shr t 16 AND 0xff)) 16 OR
     shl (lookup_word (SBOX aes_tables) (shr t 8 AND 0xff)) 8 OR lookup_word (SBOX aes_tables) (t AND 0xff)"

definition aes_keyRow :: "word32 list \<Rightarrow> nat \<Rightarrow> nat \<Rightarrow> word32 list \<Rightarrow> word32 list" where
  "aes_keyRow keyWords keySize ksRow keySchedule =
     wset keySchedule ksRow
       (if ksRow < keySize then wget keyWords ksRow
        else let t = wget keySchedule (ksRow - 1);
                 t = (if ksRow mod keySize = 0
                      then aes_subWord (shl t 8 OR shr t 24) XOR shl (wget RCON (ksRow div keySize)) 24
                      else if keySize > 6 \<and> ksRow mod keySize = 4 then aes_subWord t else t)
             in wget keySchedule (ksRow - keySize) XOR t)"

definition aes_keySchedule :: "WordArray \<Rightarrow> word32 list" where
  "aes_keySchedule key =
     (let keySize = sigBytes key div 4; nRounds = keySize + 6
      in fold (aes_keyRow (words key) keySize) [0..<(nRounds + 1) * 4] [])"

definition aes_invKeyRow :: "word32 list \<Rightarrow> nat \<Rightarrow> nat \<Rightarrow> word32" where
  "aes_invKeyRow keySchedule ksRows invKsRow =
     (let ksRow = ksRows - invKsRow;
          t = (if invKsRow mod 4 \<noteq> 0 then wget keySchedule ksRow else wget keySchedule (ksRow - 4))
      in if invKsRow < 4 \<or> ksRow \<le> 4 then t
         else lookup_word (INV_SUB_MIX_0 aes_tables) (lookup_word (SBOX aes_tables) (shr t 24)) XOR
              lookup_word (INV_SUB_MIX_1 aes_tables) (lookup_word (SBOX aes_tables) (shr t 16 AND 0xff)) XOR
              lookup_word (INV_SUB_MIX_2 aes_tables) (lookup_word (SBOX aes_tables) (shr t 8 AND 0xff)) XOR
              lookup_word (INV_SUB_MIX_3 aes_tables) (lookup_word (SBOX aes_tables) (t AND 0xff)))"

definition aes_invKeySchedule :: "word32 list \<Rightarrow> nat \<Rightarrow> word32 list" where
  "aes_invKeySchedule keySchedule ksRows = map (aes_invKeyRow keySchedule ksRows) [0..<ksRows]"

subsection \<open>A block\<close>

type_synonym aes_state = "word32 \<times> word32 \<times> word32 \<times> word32"

definition aes_mix ::
    "word32 list \<Rightarrow> word32 list \<Rightarrow> word32 list \<Rightarrow> word32 list \<Rightarrow> word32 \<Rightarrow> word32 \<Rightarrow> word32 \<Rightarrow> word32 \<Rightarrow> word32" where
  "aes_mix M0 M1 M2 M3 p q r s =
     lookup_word M0 (shr p 24) XOR lookup_word M1 (shr q 16 AND 0xff) XOR lookup_word M2 (shr r 8 AND 0xff) XOR
     lookup_word M3 (s AND 0xff)"

definition aes_round ::
    "word32 list \<Rightarrow> word32 list \<Rightarrow> word32 list \<Rightarrow> word32 list \<Rightarrow> word32 list \<Rightarrow> aes_state \<times> nat \<Rightarrow> aes_state \<times> nat" where
  "aes_round ks M0 M1 M2 M3 = (\<lambda>((s0, s1, s2, s3), ksRow).
     ((aes_mix M0 M1 M2 M3 s0 s1 s2 s3 XOR wget ks ksRow,
       aes_mix M0 M1 M2 M3 s1 s2 s3 s0 XOR wget ks (ksRow + 1),
       aes_mix M0 M1 M2 M3 s2 s3 s0 s1 XOR wget ks (ksRow + 2),
       aes_mix M0 M1 M2 M3 s3 s0 s1 s2 XOR wget ks (ksRow + 3)), ksRow + 4))"

definition aes_last :: "word32 list \<Rightarrow> word32 \<Rightarrow> word32 \<Rightarrow> word32 \<Rightarrow> word32 \<Rightarrow> word32" where
  "aes_last S p q r s =
     shl (lookup_word S (shr p 24)) 24 OR shl (lookup_word S (shr q 16 AND 0xff)) 16 OR
     shl (lookup_word S (shr r 8 AND 0xff)) 8 OR lookup_word S (s AND 0xff)"

definition aes_doCryptBlock ::
    "nat \<Rightarrow> word32 list \<Rightarrow> word32 list \<Rightarrow> word32 list \<Rightarrow> word32 list \<Rightarrow> word32 list \<Rightarrow> word32 list \<Rightarrow>
      word32 list \<Rightarrow> nat \<Rightarrow> word32 list" where
  "aes_doCryptBlock nRounds ks M0 M1 M2 M3 S M offset =
     (let s = (wget M offset XOR wget ks 0, wget M (offset + 1) XOR wget ks 1,
               wget M (offset + 2) XOR wget ks 2, wget M (offset + 3) XOR wget ks 3);
          ((s0, s1, s2, s3), ksRow) = fold (\<lambda>i. aes_round ks M0 M1 M2 M3) [1..<nRounds] (s, 4);
          t0 = aes_last S s0 s1 s2 s3 XOR wget ks ksRow;
          t1 = aes_last S s1 s2 s3 s0 XOR wget ks (ksRow + 1);
          t2 = aes_last S s2 s3 s0 s1 XOR wget ks (ksRow + 2);
          t3 = aes_last S s3 s0 s1 s2 XOR wget ks (ksRow + 3)
      in wset (wset (wset (wset M offset t0) (offset + 1) t1) (offset + 2) t2) (offset + 3) t3)"

definition aes_encryptBlock :: "nat \<Rightarrow> word32 list \<Rightarrow> word32 list \<Rightarrow> nat \<Rightarrow> word32 list" where
  "aes_encryptBlock nRounds keySchedule M offset =
     aes_doCryptBlock nRounds keySchedule (SUB_MIX_0 aes_tables) (SUB_MIX_1 aes_tables) (SUB_MIX_2 aes_tables)
       (SUB_MIX_3 aes_tables) (SBOX aes_tables) M offset"

definition aes_swap :: "word32 list \<Rightarrow> nat \<Rightarrow> word32 list" where
  "aes_swap M offset = (let t = wget M (offset + 1) in wset (wset M (offset + 1) (wget M (offset + 3))) (offset + 3) t)"

definition aes_decryptBlock :: "nat \<Rightarrow> word32 list \<Rightarrow> word32 list \<Rightarrow> nat \<Rightarrow> word32 list" where
  "aes_decryptBlock nRounds invKeySchedule M offset =
     aes_swap
       (aes_doCryptBlock nRounds invKeySchedule (INV_SUB_MIX_0 aes_tables) (INV_SUB_MIX_1 aes_tables)
         (INV_SUB_MIX_2 aes_tables) (INV_SUB_MIX_3 aes_tables) (INV_SBOX aes_tables) (aes_swap M offset) offset) offset"

definition AES :: "WordArray \<Rightarrow> BlockCipher" where
  "AES key =
     (let nRounds = sigBytes key div 4 + 6;
          keySchedule = aes_keySchedule key
      in \<lparr>bc_blockSize = 4,
          bc_encryptBlock = aes_encryptBlock nRounds keySchedule,
          bc_decryptBlock = aes_decryptBlock nRounds (aes_invKeySchedule keySchedule ((nRounds + 1) * 4))\<rparr>)"

end
