(* ===== verification/Aes_Walk.thy ===== *)
theory Aes_Walk
  imports Aes
begin

text \<open>
  The walk that fills the tables of AES, on bytes: it passes every byte once, and every value of the S-box once.
\<close>

subsection \<open>Words of four bytes\<close>

lemma bit_be_word_iff:
  "bit (be_word a b c d) k \<longleftrightarrow>
     (if k < 8 then bit d k else if k < 16 then bit c (k - 8) else if k < 24 then bit b (k - 16) else k < 32 \<and> bit a (k - 24))"
  by (auto simp: be_word_def bit_or_iff bit_push_bit_iff bit_ucast_iff dest: byte_bit_len)

lemma word_be_bytes: obtains a b c d where "(w :: word32) = be_word a b c d"
proof
  show "w = be_word (ucast (drop_bit 24 w)) (ucast (drop_bit 16 w)) (ucast (drop_bit 8 w)) (ucast w)"
    by (rule bit_word_eqI) (auto simp: bit_be_word_iff bit_ucast_iff bit_drop_bit_eq not_less)
qed

lemma be_word_xor: "be_word a b c d XOR be_word a' b' c' d' = be_word (a XOR a') (b XOR b') (c XOR c') (d XOR d')"
  by (rule bit_word_eqI) (simp add: bit_be_word_iff bit_xor_iff)

lemma be_word_parts:
  "shr (be_word a b c d) 24 = ucast a" "shr (be_word a b c d) 16 AND 0xff = ucast b"
  "shr (be_word a b c d) 8 AND 0xff = ucast c" "be_word a b c d AND 0xff = ucast d"
  by (rule bit_word_eqI; simp only: bit_shr bit_be_word_iff bit_and_iff bit_mask8 bit_ucast_iff; auto dest: byte_bit_len)+

lemma be_word_rotate:
  "shl (be_word a b c d) 24 OR shr (be_word a b c d) 8 = be_word d a b c"
  "shl (be_word a b c d) 16 OR shr (be_word a b c d) 16 = be_word c d a b"
  "shl (be_word a b c d) 8 OR shr (be_word a b c d) 24 = be_word b c d a"
  by (rule bit_word_eqI; auto simp: bit_shl bit_shr bit_be_word_iff bit_or_iff dest: byte_bit_len)+

lemma be_word_build: "shl (ucast a) 24 OR shl (ucast b) 16 OR shl (ucast c) 8 OR ucast d = be_word a b c d"
  by (simp add: be_word_def shl_def)

lemma be_word_sum: "be_word a b c d = ucast a * 2 ^ 24 + ucast b * 2 ^ 16 + ucast c * 2 ^ 8 + ucast d"
proof -
  have 1: "push_bit 8 (ucast c) + ucast d = push_bit 8 (ucast c) OR (ucast d :: word32)"
    by (rule disjunctive_add) (auto simp: bit_push_bit_iff bit_ucast_iff dest: byte_bit_len)
  have 2: "push_bit 16 (ucast b) + (push_bit 8 (ucast c) OR ucast d) = push_bit 16 (ucast b) OR push_bit 8 (ucast c) OR (ucast d :: word32)"
    by (rule disjunctive_add) (auto simp: bit_or_iff bit_push_bit_iff bit_ucast_iff dest: byte_bit_len)
  have 3: "push_bit 24 (ucast a) + (push_bit 16 (ucast b) OR push_bit 8 (ucast c) OR ucast d) =
      push_bit 24 (ucast a) OR push_bit 16 (ucast b) OR push_bit 8 (ucast c) OR (ucast d :: word32)"
    by (rule disjunctive_add) (auto simp: bit_or_iff bit_push_bit_iff bit_ucast_iff dest: byte_bit_len)
  have "be_word a b c d = push_bit 24 (ucast a) + push_bit 16 (ucast b) + push_bit 8 (ucast c) + ucast d"
    unfolding be_word_def add.assoc 1 2 3 ..
  then show ?thesis by (simp add: push_bit_eq_mult)
qed

lemma be_word_mult:
  "ucast x * 0x1010100 = be_word x x x 0" "ucast x * 0x101 = be_word 0 0 x x"
  "ucast x * 0x1010101 = be_word x x x x" "ucast x * 0x10001 = be_word 0 x 0 x"
  by (simp_all add: be_word_sum algebra_simps)

subsection \<open>Doubling\<close>

definition xtime :: "byte \<Rightarrow> byte" where
  "xtime b = push_bit 1 b XOR (if bit b 7 then 0x1b else 0)"

lemma xtime_xor: "xtime (a XOR b) = xtime a XOR xtime b"
  by (simp add: xtime_def bit_xor_iff push_bit_xor ac_simps)

lemma unat_byte_128: "unat (b :: byte) < 128 \<longleftrightarrow> \<not> bit b 7"
proof -
  have "bit b 7 \<longleftrightarrow> odd (unat b div 2 ^ 7)" using bit_unsigned_iff [of b 7, where ?'a = nat] by (simp add: bit_iff_odd)
  moreover have "unat b < 256" using unsigned_less [of b, where ?'a = nat] by simp
  then have "unat b div 2 ^ 7 = 0 \<or> unat b div 2 ^ 7 = 1" by auto
  ultimately show ?thesis by auto
qed

lemma aes_d_byte: "lookup_word aes_d (ucast b) = ucast (xtime b)"
proof -
  have u: "unat (ucast b :: word32) = unat b" "unat b < 256"
    using unsigned_less [of b, where ?'a = nat] by (simp_all add: unsigned_ucast_eq take_bit_nat_eq_self)
  have of: "(of_nat (unat b) :: word32) = ucast b" using u by (simp add: word_unat_eq_iff unat_of_nat)
  have d: "lookup_word aes_d (ucast b) = (if bit b 7 then shl (ucast b) 1 XOR 0x11b else shl (ucast b) 1)"
    using u unat_byte_128 [of b] by (simp add: aes_d_def wget_def of)
  have p: "shl (ucast b) 1 = ucast (push_bit 1 b) XOR (if bit b 7 then 0x100 else 0)"
  proof -
    have m: "(0x100 :: word32) = push_bit 8 1" by simp
    show ?thesis
      unfolding m
    proof (rule bit_word_eqI)
      fix k
      have "bit (shl (ucast b) 1) k \<longleftrightarrow> 1 \<le> k \<and> bit b (k - 1)"
        by (auto simp: bit_shl bit_ucast_iff dest: byte_bit_len)
      moreover have "bit (ucast (push_bit 1 b) :: word32) k \<longleftrightarrow> k < 8 \<and> 1 \<le> k \<and> bit b (k - 1)"
        unfolding bit_ucast_iff bit_push_bit_iff by auto
      moreover have "bit (push_bit 8 1 :: word32) k \<longleftrightarrow> k = 8" unfolding bit_push_bit_iff bit_1_iff by auto
      ultimately show "bit (shl (ucast b) 1) k = bit (ucast (push_bit 1 b) XOR (if bit b 7 then push_bit 8 1 else (0 :: word32))) k"
        using byte_bit_len [of b "k - 1"] by (cases "k = 8") (auto simp: bit_xor_iff)
    qed
  qed
  have c: "ucast (x XOR y) = (ucast x XOR ucast y :: word32)" for x y :: byte
    by (rule bit_word_eqI) (simp add: bit_xor_iff bit_ucast_iff)
  have n: "(0x100 :: word32) XOR 0x11b = 0x1b" "ucast (0x1b :: byte) = (0x1b :: word32)" by simp_all
  show ?thesis
  proof (cases "bit b 7")
    case True
    then show ?thesis unfolding d p xtime_def c by (simp only: if_True xor.assoc n)
  next
    case False
    then show ?thesis unfolding d p xtime_def by (simp only: if_False xor.right_neutral)
  qed
qed

subsection \<open>The walk\<close>

definition sbox_byte :: "byte \<Rightarrow> byte" where
  "sbox_byte xi = ucast (aes_sx (ucast xi))"

definition byte_walk_next :: "byte \<times> byte \<Rightarrow> byte \<times> byte" where
  "byte_walk_next = (\<lambda>(x, xi).
     if x = 0 then (1, 1)
     else let x2 = xtime x; x8 = xtime (xtime x2) in (x2 XOR xtime (xtime (xtime (x8 XOR x2))), xi XOR xtime (xtime xi)))"

primrec byte_walk :: "nat \<Rightarrow> byte \<times> byte \<Rightarrow> (byte \<times> byte) list" where
  "byte_walk 0 p = []"
| "byte_walk (Suc n) p = (fst p, sbox_byte (snd p)) # byte_walk n (byte_walk_next p)"

lemma ucast_xor: "ucast (x XOR y) = (ucast x XOR ucast y :: word32)" for x y :: byte
  by (rule bit_word_eqI) (simp add: bit_xor_iff bit_ucast_iff)

lemma ucast_eq_0: "(ucast x :: word32) = 0 \<longleftrightarrow> x = (0 :: byte)"
proof -
  have "unat (ucast x :: word32) = unat x"
    using unsigned_less [of x, where ?'a = nat] by (simp add: unsigned_ucast_eq take_bit_nat_eq_self)
  then show ?thesis by (metis unsigned_0 unsigned_eq_0_iff)
qed

lemma aes_walk_next_byte: "aes_walk_next (ucast x, ucast xi) = map_prod ucast ucast (byte_walk_next (x, xi))"
  by (simp add: aes_walk_next_def byte_walk_next_def aes_d_byte ucast_eq_0 Let_def flip: ucast_xor)

lemma sbox_byte_word: "ucast (sbox_byte xi) = aes_sx (ucast xi)"
proof -
  have "bit (aes_sx (ucast xi)) k \<Longrightarrow> k < 8" for k
  proof -
    let ?v = "ucast xi XOR shl (ucast xi) 1 XOR shl (ucast xi) 2 XOR shl (ucast xi) 3 XOR shl (ucast xi) 4 :: word32"
    have v: "bit ?v j \<Longrightarrow> j < 12" for j
      unfolding bit_xor_iff bit_shl bit_ucast_iff by (auto dest!: byte_bit_len)
    have "(0x63 :: word32) = 0x63 AND 0xff" by simp
    then have m: "bit (0x63 :: word32) k \<Longrightarrow> k < 8" by (metis bit_and_iff bit_mask8)
    assume "bit (aes_sx (ucast xi)) k"
    then have "bit ?v (8 + k) \<or> k < 8 \<or> bit (0x63 :: word32) k"
      unfolding aes_sx_def Let_def bit_xor_iff [of _ _ k] bit_and_iff bit_shr bit_mask8 by auto
    then show "k < 8" using v [of "8 + k"] m by auto
  qed
  then show ?thesis unfolding sbox_byte_def by (intro bit_word_eqI) (auto simp: bit_ucast_iff)
qed

lemma aes_tables_walk:
  "aes_tables = fold (\<lambda>(x, s). aes_enter (ucast x) (ucast s)) (byte_walk 256 (0, 0)) aes_no_tables"
proof -
  let ?step = "\<lambda>i (T, x, xi). (aes_enter x (aes_sx xi) T, aes_walk_next (x, xi))"
  have "fst (fold ?step is (T, ucast (fst p), ucast (snd p))) =
      fold (\<lambda>(x, s). aes_enter (ucast x) (ucast s)) (byte_walk (length is) p) T" for "is" :: "nat list" and T p
  proof (induction "is" arbitrary: T p)
    case (Cons i "is")
    have "aes_walk_next (ucast (fst p), ucast (snd p)) = (ucast (fst (byte_walk_next p)), ucast (snd (byte_walk_next p)))"
      using aes_walk_next_byte [of "fst p" "snd p"] by (simp add: map_prod_def split_beta)
    then show ?case using Cons [of _ "byte_walk_next p"] by (simp add: sbox_byte_word)
  qed simp
  from this [of "[0..<256]" aes_no_tables "(0, 0)"] show ?thesis by (simp add: aes_tables_def)
qed

text \<open>
  After the first step the two counters run through the powers of \<open>0x52\<close> and of its inverse \<open>5\<close>. Both have order 255:
  the first 254 powers are not 1, and the next one is.
\<close>

definition mul5 :: "byte \<Rightarrow> byte" where
  "mul5 xi = xi XOR xtime (xtime xi)"

definition mul52 :: "byte \<Rightarrow> byte" where
  "mul52 x = (let x2 = xtime x; x8 = xtime (xtime x2) in x2 XOR xtime (xtime (xtime (x8 XOR x2))))"

text \<open>\<open>leads f a n y z\<close>: \<open>n\<close> steps of \<open>f\<close> lead from \<open>y\<close> to \<open>z\<close> and none of them to \<open>a\<close>.\<close>

primrec leads :: "('a \<Rightarrow> 'a) \<Rightarrow> 'a \<Rightarrow> nat \<Rightarrow> 'a \<Rightarrow> 'a \<Rightarrow> bool" where
  "leads f a 0 y z \<longleftrightarrow> y = z"
| "leads f a (Suc n) y z \<longleftrightarrow> (if f y = a then False else leads f a n (f y) z)"

lemma leads_iff: "leads f a n y z \<longleftrightarrow> (f ^^ n) y = z \<and> (\<forall>i < n. (f ^^ Suc i) y \<noteq> a)"
proof (induction n arbitrary: y)
  case (Suc n)
  then show ?case by (auto simp: funpow_swap1 less_Suc_eq_0_disj)
qed simp

lemma leads_trans [trans]: "leads f a m y z \<Longrightarrow> leads f a n z w \<Longrightarrow> leads f a (m + n) y w"
  by (induction m arbitrary: y) (auto split: if_splits)

lemma leads_numeral:
  "leads f a (numeral v) y z \<longleftrightarrow> (if f y = a then False else leads f a (pred_numeral v) (f y) z)"
  by (simp add: numeral_eq_Suc)

lemma cycle_inj:
  assumes "leads f a n a z" "f z = a"
  shows "inj_on (\<lambda>i. (f ^^ i) a) {..n}"
proof (rule inj_onI)
  have closes: "(f ^^ Suc n) a = a" using assms by (simp add: leads_iff)
  have *: False if "i < j" "j \<le> n" "(f ^^ i) a = (f ^^ j) a" for i j
  proof -
    have "(f ^^ (Suc n - i)) ((f ^^ i) a) = (f ^^ (Suc n - i)) ((f ^^ j) a)" using that(3) by simp
    moreover have "Suc n - i + i = Suc n" "Suc n - i + j = (j - i) + Suc n" using that by auto
    ultimately have "(f ^^ Suc n) a = (f ^^ (j - i)) ((f ^^ Suc n) a)"
      by (metis funpow_add comp_apply)
    moreover have "Suc (j - i - 1) = j - i" using that(1) by simp
    ultimately have "(f ^^ Suc (j - i - 1)) a = a" using closes by metis
    moreover have "j - i - 1 < n" using that by auto
    ultimately show False using assms(1) unfolding leads_iff by blast
  qed
  fix i j assume "i \<in> {..n}" "j \<in> {..n}" "(f ^^ i) a = (f ^^ j) a"
  then show "i = j" using * [of i j] * [of j i] by (cases i j rule: linorder_cases) auto
qed

lemma mul5_steps:
  "leads mul5 1 16 1 229"
  "leads mul5 1 16 229 76"
  "leads mul5 1 16 76 181"
  "leads mul5 1 16 181 251"
  "leads mul5 1 16 251 159"
  "leads mul5 1 16 159 252"
  "leads mul5 1 16 252 18"
  "leads mul5 1 16 18 3"
  "leads mul5 1 16 3 52"
  "leads mul5 1 16 52 212"
  "leads mul5 1 16 212 196"
  "leads mul5 1 16 196 22"
  "leads mul5 1 16 22 186"
  "leads mul5 1 16 186 31"
  "leads mul5 1 16 31 54"
  "leads mul5 1 14 54 82"
  by (simp_all add: leads_numeral mul5_def xtime_def)

lemma mul5_order: "leads mul5 1 254 1 82" "mul5 82 = 1"
proof -
  note s = mul5_steps
  note s(1) also note s(2) also note s(3) also note s(4) also note s(5) also note s(6) also note s(7) also note s(8) also note s(9) also note s(10) also note s(11) also note s(12) also note s(13) also note s(14) also note s(15) also note s(16)
  finally show "leads mul5 1 254 1 82" by simp
  show "mul5 82 = 1" by (simp add: mul5_def xtime_def)
qed

lemma mul52_steps:
  "leads mul52 1 16 1 14"
  "leads mul52 1 16 14 84"
  "leads mul52 1 16 84 117"
  "leads mul52 1 16 117 160"
  "leads mul52 1 16 160 154"
  "leads mul52 1 16 154 205"
  "leads mul52 1 16 205 170"
  "leads mul52 1 16 170 246"
  "leads mul52 1 16 246 243"
  "leads mul52 1 16 243 197"
  "leads mul52 1 16 197 218"
  "leads mul52 1 16 218 96"
  "leads mul52 1 16 96 118"
  "leads mul52 1 16 118 178"
  "leads mul52 1 16 178 102"
  "leads mul52 1 14 102 5"
  by (simp_all add: leads_numeral mul52_def xtime_def)

lemma mul52_order: "leads mul52 1 254 1 5" "mul52 5 = 1"
proof -
  note s = mul52_steps
  note s(1) also note s(2) also note s(3) also note s(4) also note s(5) also note s(6) also note s(7) also note s(8) also note s(9) also note s(10) also note s(11) also note s(12) also note s(13) also note s(14) also note s(15) also note s(16)
  finally show "leads mul52 1 254 1 5" by simp
  show "mul52 5 = 1" by (simp add: mul52_def xtime_def)
qed

subsection \<open>The S-box is a permutation\<close>

lemma bit_sbox_byte:
  assumes "k < 8"
  shows "bit (sbox_byte b) k \<longleftrightarrow>
    ((((bit b k \<noteq> bit b ((k + 4) mod 8)) \<noteq> bit b ((k + 5) mod 8)) \<noteq> bit b ((k + 6) mod 8)) \<noteq> bit b ((k + 7) mod 8)) \<noteq> bit (0x63 :: byte) k"
proof -
  have out: "\<not> bit b j" if "8 \<le> j" for j using that by (auto dest: byte_bit_len)
  have "k = 0 \<or> k = 1 \<or> k = 2 \<or> k = 3 \<or> k = 4 \<or> k = 5 \<or> k = 6 \<or> k = 7" using assms by auto
  then show ?thesis
    unfolding sbox_byte_def bit_ucast_iff aes_sx_def Let_def bit_xor_iff bit_and_iff bit_shr bit_shl bit_mask8
    by (elim disjE) (simp_all add: out, blast+)
qed

lemma xor_pair: "((a \<noteq> a') \<noteq> (b \<noteq> b')) = ((a \<noteq> b) \<noteq> (a' \<noteq> b'))" for a a' b b' :: bool
  by blast

lemma xor_pairs:
  "(((((a \<noteq> a') \<noteq> (b \<noteq> b')) \<noteq> (c \<noteq> c')) \<noteq> (d \<noteq> d')) \<noteq> (e \<noteq> e')) =
    (((((a \<noteq> b) \<noteq> c) \<noteq> d) \<noteq> e) \<noteq> ((((a' \<noteq> b') \<noteq> c') \<noteq> d') \<noteq> e'))"
  for a a' b b' c c' d d' e e' :: bool
  unfolding xor_pair [of a a' b b'] xor_pair [of "a \<noteq> b" "a' \<noteq> b'" c c']
    xor_pair [of "(a \<noteq> b) \<noteq> c" "(a' \<noteq> b') \<noteq> c'" d d'] xor_pair [of "((a \<noteq> b) \<noteq> c) \<noteq> d" "((a' \<noteq> b') \<noteq> c') \<noteq> d'" e e'] ..

lemma affine_kernel:
  assumes "(((a0 \<noteq> a4) \<noteq> a5) \<noteq> a6) \<noteq> a7 \<longleftrightarrow> False" "(((a1 \<noteq> a5) \<noteq> a6) \<noteq> a7) \<noteq> a0 \<longleftrightarrow> False"
    "(((a2 \<noteq> a6) \<noteq> a7) \<noteq> a0) \<noteq> a1 \<longleftrightarrow> False" "(((a3 \<noteq> a7) \<noteq> a0) \<noteq> a1) \<noteq> a2 \<longleftrightarrow> False"
    "(((a4 \<noteq> a0) \<noteq> a1) \<noteq> a2) \<noteq> a3 \<longleftrightarrow> False" "(((a5 \<noteq> a1) \<noteq> a2) \<noteq> a3) \<noteq> a4 \<longleftrightarrow> False"
    "(((a6 \<noteq> a2) \<noteq> a3) \<noteq> a4) \<noteq> a5 \<longleftrightarrow> False" "(((a7 \<noteq> a3) \<noteq> a4) \<noteq> a5) \<noteq> a6 \<longleftrightarrow> False"
  shows "\<not> a0 \<and> \<not> a1 \<and> \<not> a2 \<and> \<not> a3 \<and> \<not> a4 \<and> \<not> a5 \<and> \<not> a6 \<and> \<not> a7"
  using assms by (cases a4; cases a5; cases a6; cases a7; cases a0; simp)

lemma xor_cancel: "u = (x \<noteq> m) \<Longrightarrow> v = (y \<noteq> m) \<Longrightarrow> u = v \<Longrightarrow> (x \<noteq> y) = False" for u v x y m :: bool
  by blast

lemma sbox_byte_inj: "sbox_byte a = sbox_byte b \<Longrightarrow> a = b"
proof (rule bit_word_eqI)
  assume eq: "sbox_byte a = sbox_byte b"
  define e where "e k = (bit a k \<noteq> bit b k)" for k
  have x: "(((((e k \<noteq> e ((k + 4) mod 8)) \<noteq> e ((k + 5) mod 8)) \<noteq> e ((k + 6) mod 8)) \<noteq> e ((k + 7) mod 8))) = False" if "k < 8" for k
    unfolding e_def xor_pairs by (rule xor_cancel [OF bit_sbox_byte [OF that, of a] bit_sbox_byte [OF that, of b]]) (simp add: eq)
  fix k assume "k < LENGTH(8)"
  then have "k = 0 \<or> k = 1 \<or> k = 2 \<or> k = 3 \<or> k = 4 \<or> k = 5 \<or> k = 6 \<or> k = 7" by auto
  moreover have "\<not> e 0 \<and> \<not> e 1 \<and> \<not> e 2 \<and> \<not> e 3 \<and> \<not> e 4 \<and> \<not> e 5 \<and> \<not> e 6 \<and> \<not> e 7"
  proof (rule affine_kernel)
  qed (use x [of 0] x [of 1] x [of 2] x [of 3] x [of 4] x [of 5] x [of 6] x [of 7] in simp_all)
  ultimately show "bit a k = bit b k" unfolding e_def by auto
qed

text \<open>The walk is at 0 first and then on the cycle of 1.\<close>

definition orbit :: "(byte \<Rightarrow> byte) \<Rightarrow> nat \<Rightarrow> byte" where
  "orbit f i = (case i of 0 \<Rightarrow> 0 | Suc j \<Rightarrow> (f ^^ j) 1)"

lemma cycle_nonzero:
  fixes f :: "byte \<Rightarrow> byte"
  assumes "leads f 1 n 1 z" "f z = 1" "f 0 = 0" "i \<le> n"
  shows "(f ^^ i) 1 \<noteq> 0"
proof
  assume 0: "(f ^^ i) 1 = 0"
  have "(f ^^ k) 0 = 0" for k by (induction k) (simp_all add: assms(3))
  then have "(f ^^ (Suc n - i + i)) 1 = 0" unfolding funpow_add comp_apply 0 .
  moreover have "(f ^^ Suc n) 1 = 1" using assms(1,2) by (simp add: leads_iff)
  ultimately show False using assms(4) by simp
qed

lemma orbit_inj:
  assumes "leads f 1 254 1 z" "f z = 1" "f 0 = 0"
  shows "inj_on (orbit f) {..255}"
proof (rule inj_onI)
  fix i j assume ij: "i \<in> {..255 :: nat}" "j \<in> {..255 :: nat}" "orbit f i = orbit f j"
  note nz = cycle_nonzero [OF assms] and inj = cycle_inj [OF assms(1,2)]
  show "i = j"
  proof (cases i; cases j)
    fix a b assume "i = Suc a" "j = Suc b"
    with ij inj_onD [OF inj, of a b] show ?thesis by (simp add: orbit_def)
  qed (use ij nz in \<open>auto simp: orbit_def\<close>)
qed

lemma mul_0: "mul5 0 = 0" "mul52 0 = 0"
  by (simp_all add: mul5_def mul52_def xtime_def)

lemmas mul5_orbit = orbit_inj [OF mul5_order mul_0(1)]
lemmas mul52_orbit = orbit_inj [OF mul52_order mul_0(2)]

lemma walk_orbit: "i \<le> 255 \<Longrightarrow> (byte_walk_next ^^ i) (0, 0) = (orbit mul52 i, orbit mul5 i)"
proof (induction i)
  case (Suc i)
  have next_pos: "byte_walk_next (x, xi) = (mul52 x, mul5 xi)" if "x \<noteq> 0" for x xi
    using that by (simp add: byte_walk_next_def mul52_def mul5_def Let_def)
  show ?case
  proof (cases i)
    case (Suc j)
    then have "(mul52 ^^ j) 1 \<noteq> 0" using Suc.prems cycle_nonzero [OF mul52_order mul_0(2), of j] by simp
    then show ?thesis using Suc Suc.IH Suc.prems by (simp add: orbit_def next_pos)
  qed (simp add: orbit_def byte_walk_next_def)
qed (simp add: orbit_def)

lemma byte_walk_map: "byte_walk n p = map (\<lambda>i. map_prod id sbox_byte ((byte_walk_next ^^ i) p)) [0..<n]"
proof (induction n arbitrary: p)
  case (Suc n)
  have "[0..<Suc n] = 0 # map Suc [0..<n]" by (simp add: upt_conv_Cons map_Suc_upt del: upt_Suc)
  then show ?case using Suc by (simp add: funpow_swap1 map_prod_def split_beta comp_def del: upt_Suc)
qed simp

lemma byte_walk_orbit: "byte_walk 256 (0, 0) = map (\<lambda>i. (orbit mul52 i, sbox_byte (orbit mul5 i))) [0..<256]"
  unfolding byte_walk_map by (rule map_cong) (simp_all add: walk_orbit)

lemma byte_walk_distinct: "distinct (map fst (byte_walk 256 (0, 0)))" "distinct (map snd (byte_walk 256 (0, 0)))"
proof -
  have s: "set [0..<256] \<subseteq> {..255 :: nat}" by auto
  show "distinct (map fst (byte_walk 256 (0, 0)))"
    using inj_on_subset [OF mul52_orbit s] by (simp add: byte_walk_orbit distinct_map comp_def)
  have "inj_on (\<lambda>i. sbox_byte (orbit mul5 i)) (set [0..<256])"
    using inj_on_subset [OF mul5_orbit s] by (auto simp: inj_on_def dest!: sbox_byte_inj)
  then show "distinct (map snd (byte_walk 256 (0, 0)))" by (simp add: byte_walk_orbit distinct_map comp_def)
qed

lemma byte_walk_all: "set (map fst (byte_walk 256 (0, 0))) = UNIV" "set (map snd (byte_walk 256 (0, 0))) = UNIV"
proof -
  have all: "set bs = UNIV" if "distinct bs" "length bs = 256" for bs :: "byte list"
    using that by (intro card_seteq) (auto simp: distinct_card card_word)
  show "set (map fst (byte_walk 256 (0, 0))) = UNIV" "set (map snd (byte_walk 256 (0, 0))) = UNIV"
    using byte_walk_distinct by (intro all; simp add: byte_walk_map)+
qed

end
