(* ===== verification/Aes_Tables.thy ===== *)
theory Aes_Tables
  imports Aes_Walk
begin

text \<open>
  The tables of AES read as functions on bytes: they hold the S-box, its inverse, and the columns of MixColumns and of
  its inverse.
\<close>

subsection \<open>What the tables hold\<close>

definition sub :: "byte \<Rightarrow> byte" where
  "sub b = ucast (lookup_word (SBOX aes_tables) (ucast b))"

definition isub :: "byte \<Rightarrow> byte" where
  "isub b = ucast (lookup_word (INV_SBOX aes_tables) (ucast b))"

lemma fold_wset_lookup:
  "distinct (map p qs) \<Longrightarrow> q \<in> set qs \<Longrightarrow> wget (fold (\<lambda>q t. wset t (p q) (v q)) qs t) (p q) = v q"
  by (induction qs rule: rev_induct) (auto, metis imageI)

text \<open>A column of MixColumns and of its inverse, for a byte in each of the four rows.\<close>

definition mc :: "byte \<Rightarrow> byte \<Rightarrow> byte \<Rightarrow> byte \<Rightarrow> word32" where
  "mc p q r s = be_word (xtime p XOR xtime q XOR q XOR r XOR s) (p XOR xtime q XOR xtime r XOR r XOR s)
     (p XOR q XOR xtime r XOR xtime s XOR s) (xtime p XOR p XOR q XOR r XOR xtime s)"

definition m9 :: "byte \<Rightarrow> byte" where "m9 x = xtime (xtime (xtime x)) XOR x"
definition m11 :: "byte \<Rightarrow> byte" where "m11 x = xtime (xtime (xtime x)) XOR xtime x XOR x"
definition m13 :: "byte \<Rightarrow> byte" where "m13 x = xtime (xtime (xtime x)) XOR xtime (xtime x) XOR x"
definition m14 :: "byte \<Rightarrow> byte" where "m14 x = xtime (xtime (xtime x)) XOR xtime (xtime x) XOR xtime x"

definition imc :: "byte \<Rightarrow> byte \<Rightarrow> byte \<Rightarrow> byte \<Rightarrow> word32" where
  "imc p q r s = be_word (m14 p XOR m11 q XOR m13 r XOR m9 s) (m9 p XOR m14 q XOR m11 r XOR m13 s)
     (m13 p XOR m9 q XOR m14 r XOR m11 s) (m11 p XOR m13 q XOR m9 r XOR m14 s)"

lemma xtime_0: "xtime 0 = 0" by (simp add: xtime_def)

lemma m_0: "m9 0 = 0" "m11 0 = 0" "m13 0 = 0" "m14 0 = 0"
  by (simp_all add: m9_def m11_def m13_def m14_def xtime_0)

lemma m_xor: "m9 (a XOR b) = m9 a XOR m9 b" "m11 (a XOR b) = m11 a XOR m11 b" "m13 (a XOR b) = m13 a XOR m13 b"
    "m14 (a XOR b) = m14 a XOR m14 b"
  by (simp_all add: m9_def m11_def m13_def m14_def xtime_xor ac_simps)

lemma be_word_0: "be_word 0 0 0 0 = 0"
  by (simp add: be_word_def)

lemma mc_sum: "mc p 0 0 0 XOR mc 0 q 0 0 XOR mc 0 0 r 0 XOR mc 0 0 0 s = mc p q r s"
  by (simp add: mc_def be_word_xor xtime_0 ac_simps)

lemma imc_sum: "imc p 0 0 0 XOR imc 0 q 0 0 XOR imc 0 0 r 0 XOR imc 0 0 0 s = imc p q r s"
  by (simp add: imc_def be_word_xor m_0 ac_simps)

definition put :: "(byte \<times> byte \<Rightarrow> byte) \<Rightarrow> (byte \<times> byte \<Rightarrow> word32) \<Rightarrow> (byte \<times> byte) list \<Rightarrow> word32 list \<Rightarrow> word32 list" where
  "put k v qs = fold (\<lambda>q t. wset t (unat (ucast (k q) :: word32)) (v q)) qs"

lemma aes_enter_bytes: "aes_enter (ucast x) (ucast s) T =
    \<lparr>SBOX = wset (SBOX T) (unat (ucast x :: word32)) (ucast s),
     INV_SBOX = wset (INV_SBOX T) (unat (ucast s :: word32)) (ucast x),
     SUB_MIX_0 = wset (SUB_MIX_0 T) (unat (ucast x :: word32)) (mc s 0 0 0),
     SUB_MIX_1 = wset (SUB_MIX_1 T) (unat (ucast x :: word32)) (mc 0 s 0 0),
     SUB_MIX_2 = wset (SUB_MIX_2 T) (unat (ucast x :: word32)) (mc 0 0 s 0),
     SUB_MIX_3 = wset (SUB_MIX_3 T) (unat (ucast x :: word32)) (mc 0 0 0 s),
     INV_SUB_MIX_0 = wset (INV_SUB_MIX_0 T) (unat (ucast s :: word32)) (imc x 0 0 0),
     INV_SUB_MIX_1 = wset (INV_SUB_MIX_1 T) (unat (ucast s :: word32)) (imc 0 x 0 0),
     INV_SUB_MIX_2 = wset (INV_SUB_MIX_2 T) (unat (ucast s :: word32)) (imc 0 0 x 0),
     INV_SUB_MIX_3 = wset (INV_SUB_MIX_3 T) (unat (ucast s :: word32)) (imc 0 0 0 x)\<rparr>"
proof -
  have t: "(ucast (xtime s) * 0x101) XOR (ucast s * 0x1010100) = be_word s s (xtime s XOR s) (xtime s)"
    by (simp add: be_word_mult be_word_xor)
  have u: "(ucast x8 * 0x1010101) XOR (ucast x4 * 0x10001) XOR (ucast x2 * 0x101) XOR (ucast x * 0x1010100) =
      be_word (x8 XOR x) (x8 XOR x4 XOR x) (x8 XOR x2 XOR x) (x8 XOR x4 XOR x2)" for x8 x4 x2
    by (simp add: be_word_mult be_word_xor)
  show ?thesis
    unfolding aes_enter_def aes_d_byte Let_def t u be_word_rotate
    by (simp add: mc_def imc_def m9_def m11_def m13_def m14_def xtime_0)
qed

lemma fold_aes_enter:
  fixes qs :: "(byte \<times> byte) list" and T
  defines "R \<equiv> fold (\<lambda>(x, s). aes_enter (ucast x) (ucast s)) qs T"
  shows "SBOX R = put fst (\<lambda>(x, s). ucast s) qs (SBOX T)" "INV_SBOX R = put snd (\<lambda>(x, s). ucast x) qs (INV_SBOX T)"
    "SUB_MIX_0 R = put fst (\<lambda>(x, s). mc s 0 0 0) qs (SUB_MIX_0 T)" "SUB_MIX_1 R = put fst (\<lambda>(x, s). mc 0 s 0 0) qs (SUB_MIX_1 T)"
    "SUB_MIX_2 R = put fst (\<lambda>(x, s). mc 0 0 s 0) qs (SUB_MIX_2 T)" "SUB_MIX_3 R = put fst (\<lambda>(x, s). mc 0 0 0 s) qs (SUB_MIX_3 T)"
    "INV_SUB_MIX_0 R = put snd (\<lambda>(x, s). imc x 0 0 0) qs (INV_SUB_MIX_0 T)"
    "INV_SUB_MIX_1 R = put snd (\<lambda>(x, s). imc 0 x 0 0) qs (INV_SUB_MIX_1 T)"
    "INV_SUB_MIX_2 R = put snd (\<lambda>(x, s). imc 0 0 x 0) qs (INV_SUB_MIX_2 T)"
    "INV_SUB_MIX_3 R = put snd (\<lambda>(x, s). imc 0 0 0 x) qs (INV_SUB_MIX_3 T)"
  unfolding R_def put_def
  by (induction qs arbitrary: T) (simp_all add: split_beta aes_enter_bytes)

lemma put_lookup:
  assumes "distinct (map k qs)" "q \<in> set qs"
  shows "lookup_word (put k v qs t) (ucast (k q)) = v q"
proof -
  have "inj (\<lambda>b :: byte. unat (ucast b :: word32))"
  proof (rule injI)
    fix x y :: byte assume "unat (ucast x :: word32) = unat (ucast y :: word32)"
    moreover have "unat (ucast b :: word32) = unat b" for b :: byte
      using unsigned_less [of b, where ?'a = nat] by (simp add: unsigned_ucast_eq take_bit_nat_eq_self)
    ultimately show "x = y" by (simp add: word_unat_eq_iff)
  qed
  then have "distinct (map (\<lambda>q. unat (ucast (k q) :: word32)) qs)"
    using assms(1) by (auto simp: distinct_map inj_on_def dest: injD)
  from fold_wset_lookup [OF this assms(2), of v t] show ?thesis by (simp add: put_def)
qed

text \<open>Every byte has its entry.\<close>

lemma walk_entries:
  assumes "(x, s) \<in> set (byte_walk 256 (0, 0))"
  shows "lookup_word (SBOX aes_tables) (ucast x) = ucast s" "lookup_word (INV_SBOX aes_tables) (ucast s) = ucast x"
    "lookup_word (SUB_MIX_0 aes_tables) (ucast x) = mc s 0 0 0" "lookup_word (SUB_MIX_1 aes_tables) (ucast x) = mc 0 s 0 0"
    "lookup_word (SUB_MIX_2 aes_tables) (ucast x) = mc 0 0 s 0" "lookup_word (SUB_MIX_3 aes_tables) (ucast x) = mc 0 0 0 s"
    "lookup_word (INV_SUB_MIX_0 aes_tables) (ucast s) = imc x 0 0 0" "lookup_word (INV_SUB_MIX_1 aes_tables) (ucast s) = imc 0 x 0 0"
    "lookup_word (INV_SUB_MIX_2 aes_tables) (ucast s) = imc 0 0 x 0" "lookup_word (INV_SUB_MIX_3 aes_tables) (ucast s) = imc 0 0 0 x"
  unfolding aes_tables_walk fold_aes_enter
  using put_lookup [OF byte_walk_distinct(1) assms, unfolded fst_conv] put_lookup [OF byte_walk_distinct(2) assms, unfolded snd_conv]
  by (simp_all only: prod.case)

lemma pairs_functional:
  assumes "\<And>x s. (x, s) \<in> R \<Longrightarrow> s = f x \<and> x = g s" "fst ` R = UNIV" "snd ` R = UNIV"
  shows "(x, s) \<in> R \<longleftrightarrow> s = f x" "(x, s) \<in> R \<longleftrightarrow> x = g s"
proof -
  obtain s' where "(x, s') \<in> R" using imageE [OF UNIV_I [of x, folded assms(2)]] by (metis prod.collapse)
  then show "(x, s) \<in> R \<longleftrightarrow> s = f x" by (metis assms(1))
  obtain x' where "(x', s) \<in> R" using imageE [OF UNIV_I [of s, folded assms(3)]] by (metis prod.collapse)
  then show "(x, s) \<in> R \<longleftrightarrow> x = g s" by (metis assms(1))
qed

lemma walk_functional: "s = sub x \<and> x = isub s" if "(x, s) \<in> set (byte_walk 256 (0, 0))"
proof -
  have u: "ucast (ucast b :: word32) = b" for b :: byte by (rule bit_word_eqI) (auto simp: bit_ucast_iff)
  show ?thesis unfolding sub_def isub_def walk_entries(1,2) [OF that] u by simp
qed

lemma walk_sub: "(x, s) \<in> set (byte_walk 256 (0, 0)) \<longleftrightarrow> s = sub x" "(x, s) \<in> set (byte_walk 256 (0, 0)) \<longleftrightarrow> x = isub s"
  using pairs_functional [OF walk_functional byte_walk_all [unfolded list.set_map]] by blast+

lemma isub_sub: "isub (sub b) = b"
  using iffD1 [OF walk_sub(2) iffD2 [OF walk_sub(1) refl]] by (rule sym)

lemmas aes_tables_at =
  walk_entries(1,3,4,5,6) [OF iffD2 [OF walk_sub(1) refl]] walk_entries(2,7,8,9,10) [OF iffD2 [OF walk_sub(2) refl]]

end
