(* ===== verification/Aes_Correct.thy ===== *)
theory Aes_Correct
  imports Aes_Tables
begin

text \<open>
  Decryption of an AES block inverts encryption, for every key: the decryption schedule holds the round keys backwards,
  the middle ones passed through the inverse of MixColumns, and every round undoes one round of the encryption. With that
  AES is a block cipher in the sense of the modes.
\<close>

subsection \<open>Rounds on columns of bytes\<close>

definition byte0 :: "word32 \<Rightarrow> byte" where "byte0 w = ucast (drop_bit 24 w)"
definition byte1 :: "word32 \<Rightarrow> byte" where "byte1 w = ucast (drop_bit 16 w)"
definition byte2 :: "word32 \<Rightarrow> byte" where "byte2 w = ucast (drop_bit 8 w)"
definition byte3 :: "word32 \<Rightarrow> byte" where "byte3 w = ucast w"

lemma bytes_be_word [simp]:
  "byte0 (be_word a b c d) = a" "byte1 (be_word a b c d) = b" "byte2 (be_word a b c d) = c" "byte3 (be_word a b c d) = d"
  by (rule bit_word_eqI; simp add: byte0_def byte1_def byte2_def byte3_def bit_ucast_iff bit_drop_bit_eq bit_be_word_iff)+

lemma be_word_bytes [simp]: "be_word (byte0 w) (byte1 w) (byte2 w) (byte3 w) = w"
  by (rule word_be_bytes [of w]) simp

lemma word_parts:
  "shr w 24 = ucast (byte0 w)" "shr w 16 AND 0xff = ucast (byte1 w)" "shr w 8 AND 0xff = ucast (byte2 w)" "w AND 0xff = ucast (byte3 w)"
  using be_word_parts [of "byte0 w" "byte1 w" "byte2 w" "byte3 w"] by simp_all

definition turn :: "(byte \<Rightarrow> byte \<Rightarrow> byte \<Rightarrow> byte \<Rightarrow> word32) \<Rightarrow> (byte \<Rightarrow> byte) \<Rightarrow> aes_state \<Rightarrow> aes_state" where
  "turn m h = (\<lambda>(s0, s1, s2, s3).
     (m (h (byte0 s0)) (h (byte1 s1)) (h (byte2 s2)) (h (byte3 s3)), m (h (byte0 s1)) (h (byte1 s2)) (h (byte2 s3)) (h (byte3 s0)),
      m (h (byte0 s2)) (h (byte1 s3)) (h (byte2 s0)) (h (byte3 s1)), m (h (byte0 s3)) (h (byte1 s0)) (h (byte2 s1)) (h (byte3 s2))))"

definition each :: "(word32 \<Rightarrow> word32) \<Rightarrow> aes_state \<Rightarrow> aes_state" where
  "each f = (\<lambda>(a, b, c, d). (f a, f b, f c, f d))"

definition add_key :: "aes_state \<Rightarrow> aes_state \<Rightarrow> aes_state" where
  "add_key = (\<lambda>(a, b, c, d) (a', b', c', d'). (a XOR a', b XOR b', c XOR c', d XOR d'))"

definition swap :: "aes_state \<Rightarrow> aes_state" where
  "swap = (\<lambda>(a, b, c, d). (a, d, c, b))"

definition unmix :: "word32 \<Rightarrow> word32" where
  "unmix w = imc (byte0 w) (byte1 w) (byte2 w) (byte3 w)"

lemma swap_swap [simp]: "swap (swap s) = s"
  by (simp add: swap_def split_beta)

lemma add_key_swap: "add_key (swap s) (swap k) = swap (add_key s k)"
  by (simp add: swap_def add_key_def split_beta)

lemma add_key_twice [simp]: "add_key (add_key s k) k = s"
  by (simp add: add_key_def split_beta xor.assoc)

lemma each_swap: "each f (swap s) = swap (each f s)"
  by (simp add: each_def swap_def split_beta)

lemma unmix_xor: "unmix (v XOR w) = unmix v XOR unmix w"
proof -
  have "byte0 (v XOR w) = byte0 v XOR byte0 w" "byte1 (v XOR w) = byte1 v XOR byte1 w"
    "byte2 (v XOR w) = byte2 v XOR byte2 w" "byte3 (v XOR w) = byte3 v XOR byte3 w"
    using be_word_xor [of "byte0 v" "byte1 v" "byte2 v" "byte3 v" "byte0 w" "byte1 w" "byte2 w" "byte3 w"] by simp_all
  then show ?thesis by (simp add: unmix_def imc_def m_xor be_word_xor ac_simps)
qed

lemma each_unmix_add: "each unmix (add_key s k) = add_key (each unmix s) (each unmix k)"
  by (simp add: each_def add_key_def split_beta unmix_xor)

lemma unmix_mc: "unmix (mc p q r s) = be_word p q r s"
proof -
  have x: "a XOR a XOR b = b" for a b :: byte by (simp flip: xor.assoc)
  show ?thesis
    by (simp add: unmix_def mc_def imc_def m9_def m11_def m13_def m14_def xtime_xor ac_simps x)
qed

lemma turn_mixed: "turn imc h s = each unmix (turn be_word h s)"
  by (simp add: turn_def each_def unmix_def split_beta)

lemma unmix_turn: "each unmix (turn mc h s) = turn be_word h s"
  by (simp add: turn_def each_def unmix_mc split_beta)

lemma turn_back: "turn be_word isub (swap (turn be_word sub s)) = swap s"
  by (simp add: turn_def swap_def split_beta isub_sub)

subsection \<open>The rounds of the code\<close>

lemma encrypt_mix:
  "aes_mix (SUB_MIX_0 aes_tables) (SUB_MIX_1 aes_tables) (SUB_MIX_2 aes_tables) (SUB_MIX_3 aes_tables) p q r s =
     mc (sub (byte0 p)) (sub (byte1 q)) (sub (byte2 r)) (sub (byte3 s))"
  unfolding aes_mix_def word_parts(1-3) unfolding word_parts(4) aes_tables_at mc_sum ..

lemma decrypt_mix:
  "aes_mix (INV_SUB_MIX_0 aes_tables) (INV_SUB_MIX_1 aes_tables) (INV_SUB_MIX_2 aes_tables) (INV_SUB_MIX_3 aes_tables) p q r s =
     imc (isub (byte0 p)) (isub (byte1 q)) (isub (byte2 r)) (isub (byte3 s))"
  unfolding aes_mix_def word_parts(1-3) unfolding word_parts(4) aes_tables_at imc_sum ..

lemma encrypt_last: "aes_last (SBOX aes_tables) p q r s = be_word (sub (byte0 p)) (sub (byte1 q)) (sub (byte2 r)) (sub (byte3 s))"
  unfolding aes_last_def word_parts(1-3) unfolding word_parts(4) aes_tables_at be_word_build ..

lemma decrypt_last: "aes_last (INV_SBOX aes_tables) p q r s = be_word (isub (byte0 p)) (isub (byte1 q)) (isub (byte2 r)) (isub (byte3 s))"
  unfolding aes_last_def word_parts(1-3) unfolding word_parts(4) aes_tables_at be_word_build ..

definition four :: "word32 list \<Rightarrow> nat \<Rightarrow> aes_state" where
  "four ws i = (wget ws i, wget ws (i + 1), wget ws (i + 2), wget ws (i + 3))"

text \<open>The state after \<open>r\<close> rounds, and the whole block.\<close>

primrec rounds_from :: "(aes_state \<Rightarrow> aes_state) \<Rightarrow> word32 list \<Rightarrow> aes_state \<Rightarrow> nat \<Rightarrow> aes_state" where
  "rounds_from m ks s 0 = add_key s (four ks 0)"
| "rounds_from m ks s (Suc r) = add_key (m (rounds_from m ks s r)) (four ks (4 * Suc r))"

definition cipher4 :: "(aes_state \<Rightarrow> aes_state) \<Rightarrow> (aes_state \<Rightarrow> aes_state) \<Rightarrow> nat \<Rightarrow> word32 list \<Rightarrow> aes_state \<Rightarrow> aes_state" where
  "cipher4 m l R ks s = add_key (l (rounds_from m ks s (R - 1))) (four ks (4 * R))"

definition set4 :: "word32 list \<Rightarrow> nat \<Rightarrow> aes_state \<Rightarrow> word32 list" where
  "set4 M offset = (\<lambda>(a, b, c, d). wset (wset (wset (wset M offset a) (offset + 1) b) (offset + 2) c) (offset + 3) d)"

lemma fold_rounds:
  assumes "\<And>s row. aes_round ks M0 M1 M2 M3 (s, row) = (add_key (m s) (four ks row), row + 4)"
  shows "fold (\<lambda>i. aes_round ks M0 M1 M2 M3) [1..<Suc r] (add_key s (four ks 0), 4) = (rounds_from m ks s r, 4 * Suc r)"
  by (induction r) (simp_all add: assms)

lemma doCryptBlock_rounds:
  assumes "0 < R" and round: "\<And>s row. aes_round ks M0 M1 M2 M3 (s, row) = (add_key (m s) (four ks row), row + 4)"
    and last: "\<And>s0 s1 s2 s3. (aes_last S s0 s1 s2 s3, aes_last S s1 s2 s3 s0, aes_last S s2 s3 s0 s1, aes_last S s3 s0 s1 s2) = l (s0, s1, s2, s3)"
  shows "aes_doCryptBlock R ks M0 M1 M2 M3 S M offset = set4 M offset (cipher4 m l R ks (four M offset))"
proof -
  obtain r where R: "R = Suc r" using assms(1) gr0_conv_Suc by blast
  have key: "(wget M offset XOR wget ks 0, wget M (offset + 1) XOR wget ks 1, wget M (offset + 2) XOR wget ks 2, wget M (offset + 3) XOR wget ks 3) =
      add_key (four M offset) (four ks 0)" by (simp add: add_key_def four_def numeral_2_eq_2)
  obtain s0 s1 s2 s3 where s: "rounds_from m ks (four M offset) r = (s0, s1, s2, s3)" by (metis prod_cases4)
  have c: "cipher4 m l (Suc r) ks (four M offset) = add_key (l (s0, s1, s2, s3)) (four ks (4 * Suc r))"
    by (simp add: cipher4_def s)
  show ?thesis
    unfolding aes_doCryptBlock_def key R fold_rounds [OF round] s c Let_def prod.case
    by (simp add: add_key_def four_def set4_def flip: last)
qed

lemma encryptBlock_cipher:
  "0 < R \<Longrightarrow> aes_encryptBlock R ks M offset = set4 M offset (cipher4 (turn mc sub) (turn be_word sub) R ks (four M offset))"
  unfolding aes_encryptBlock_def
  by (rule doCryptBlock_rounds) (simp_all add: aes_round_def encrypt_mix encrypt_last turn_def add_key_def four_def split_beta)

lemma swap_four: "aes_swap M offset = wset (wset M (offset + 1) (wget M (offset + 3))) (offset + 3) (wget M (offset + 1))"
  by (simp add: aes_swap_def)

lemma decryptBlock_cipher:
  "0 < R \<Longrightarrow> aes_decryptBlock R ks M offset = aes_swap (set4 (aes_swap M offset) offset
     (cipher4 (turn imc isub) (turn be_word isub) R ks (swap (four M offset)))) offset"
proof -
  have sw: "four (aes_swap M offset) offset = swap (four M offset)" by (simp add: swap_four four_def swap_def)
  assume "0 < R"
  then show ?thesis
    unfolding aes_decryptBlock_def sw [symmetric]
    by (intro arg_cong [where f = "\<lambda>M. aes_swap M offset"] doCryptBlock_rounds)
      (simp_all add: aes_round_def decrypt_mix decrypt_last turn_def add_key_def four_def split_beta)
qed

subsection \<open>The two key schedules\<close>

lemma unmix_table:
  "lookup_word (INV_SUB_MIX_0 aes_tables) (lookup_word (SBOX aes_tables) (shr t 24)) XOR
   lookup_word (INV_SUB_MIX_1 aes_tables) (lookup_word (SBOX aes_tables) (shr t 16 AND 0xff)) XOR
   lookup_word (INV_SUB_MIX_2 aes_tables) (lookup_word (SBOX aes_tables) (shr t 8 AND 0xff)) XOR
   lookup_word (INV_SUB_MIX_3 aes_tables) (lookup_word (SBOX aes_tables) (t AND 0xff)) = unmix t"
  unfolding word_parts(1-3) unfolding word_parts(4) aes_tables_at isub_sub imc_sum unmix_def ..

lemma invKeyRow_cases:
  assumes "r \<le> R" "i < 4"
  shows "aes_invKeyRow ks (4 * Suc R) (4 * r + i) =
    (let t = wget ks (4 * (R - r) + (4 - i) mod 4) in if r = 0 \<or> r = R then t else unmix t)"
proof -
  have n: "4 * Suc R - (4 * r + i) = 4 * (R - r) + (4 - i)" using assms by simp
  have t: "(if (4 * r + i) mod 4 \<noteq> 0 then wget ks (4 * (R - r) + (4 - i)) else wget ks (4 * (R - r) + (4 - i) - 4)) =
      wget ks (4 * (R - r) + (4 - i) mod 4)"
    using assms(2) by (cases "i = 0") (simp_all add: mod_less)
  have c: "(4 * r + i < 4 \<or> 4 * (R - r) + (4 - i) \<le> 4) = (r = 0 \<or> r = R)" using assms by auto
  show ?thesis unfolding aes_invKeyRow_def Let_def n unmix_table t c ..
qed

lemma invKeySchedule_four:
  assumes "r \<le> R"
  shows "four (aes_invKeySchedule ks (4 * Suc R)) (4 * r) =
    (let k = swap (four ks (4 * (R - r))) in if r = 0 \<or> r = R then k else each unmix k)"
proof -
  have g: "wget (aes_invKeySchedule ks (4 * Suc R)) (4 * r + i) = aes_invKeyRow ks (4 * Suc R) (4 * r + i)" if "i < 4" for i
    using that assms by (simp add: aes_invKeySchedule_def wget_def)
  have c: "aes_invKeyRow ks (4 * Suc R) (4 * r + i) =
      (let t = wget ks (4 * (R - r) + (4 - i) mod 4) in if r = 0 \<or> r = R then t else unmix t)" if "i < 4" for i
    using invKeyRow_cases [OF assms that] .
  have "four (aes_invKeySchedule ks (4 * Suc R)) (4 * r) = (let f = \<lambda>i. let t = wget ks (4 * (R - r) + (4 - i) mod 4)
      in if r = 0 \<or> r = R then t else unmix t in (f 0, f 1, f 2, f 3))"
    unfolding four_def Let_def using g [of 0] g [of 1] g [of 2] g [of 3] c [of 0] c [of 1] c [of 2] c [of 3]
    by (simp del: mult_Suc_right add: Let_def)
  also have "\<dots> = (let k = swap (four ks (4 * (R - r))) in if r = 0 \<or> r = R then k else each unmix k)"
    by (simp add: Let_def four_def each_def swap_def del: One_nat_def add_2_eq_Suc')
  finally show ?thesis .
qed

subsection \<open>A block comes back\<close>

lemma rounds_back:
  fixes ks s
  assumes "r < R"
  defines "S \<equiv> rounds_from (turn mc sub) ks s"
  shows "rounds_from (turn imc isub) (aes_invKeySchedule ks (4 * Suc R)) (swap (cipher4 (turn mc sub) (turn be_word sub) R ks s)) r =
    swap (turn be_word sub (S (R - 1 - r)))"
  using assms(1)
proof (induction r)
  case 0
  have "four (aes_invKeySchedule ks (4 * Suc R)) 0 = swap (four ks (4 * R))"
    using invKeySchedule_four [of 0 R ks] by (simp del: mult_Suc_right)
  then show ?case by (simp add: cipher4_def add_key_swap S_def del: mult_Suc_right)
next
  case (Suc r)
  obtain d where d: "R - Suc r = Suc d" "R - Suc (Suc r) = d" using Suc.prems by (metis Suc_diff_Suc)
  have "four (aes_invKeySchedule ks (4 * Suc R)) (4 * Suc r) = each unmix (swap (four ks (4 * (R - Suc r))))"
    using invKeySchedule_four [of "Suc r" R ks] Suc.prems by (simp del: mult_Suc_right)
  moreover have "S (R - Suc r) = add_key (turn mc sub (S (R - Suc (Suc r)))) (four ks (4 * (R - Suc r)))"
    unfolding S_def d by simp
  ultimately show ?case
    using Suc by (simp del: mult_Suc_right add: turn_mixed turn_back each_swap each_unmix_add unmix_turn add_key_swap)
qed

lemma cipher_back:
  assumes "0 < R"
  shows "swap (cipher4 (turn imc isub) (turn be_word isub) R (aes_invKeySchedule ks (4 * Suc R))
    (swap (cipher4 (turn mc sub) (turn be_word sub) R ks s))) = s"
  using rounds_back [of "R - 1" R ks s] invKeySchedule_four [of R R ks] assms
  by (simp del: mult_Suc_right add: cipher4_def [of "turn imc isub"] turn_back add_key_swap)

subsection \<open>AES is a block cipher\<close>

definition list4 :: "aes_state \<Rightarrow> word32 list" where
  "list4 = (\<lambda>(a, b, c, d). [a, b, c, d])"

definition aes_rounds :: "WordArray \<Rightarrow> nat" where
  "aes_rounds key = sigBytes key div 4 + 6"

definition aes_E :: "WordArray \<Rightarrow> word32 list \<Rightarrow> word32 list" where
  "aes_E key b = list4 (cipher4 (turn mc sub) (turn be_word sub) (aes_rounds key) (aes_keySchedule key) (four b 0))"

definition aes_D :: "WordArray \<Rightarrow> word32 list \<Rightarrow> word32 list" where
  "aes_D key b = list4 (swap (cipher4 (turn imc isub) (turn be_word isub) (aes_rounds key)
     (aes_invKeySchedule (aes_keySchedule key) (4 * Suc (aes_rounds key))) (swap (four b 0))))"

lemma wget_upd4:
  assumes "off \<le> length M"
  shows "wget (take off M @ [a, b, c, d] @ drop (off + 4) M) j =
    (if j = off then a else if j = off + 1 then b else if j = off + 2 then c else if j = off + 3 then d else wget M j)"
proof -
  have "j < off \<or> j = off \<or> j = off + 1 \<or> j = off + 2 \<or> j = off + 3 \<or> off + 4 \<le> j" by arith
  moreover have ?thesis if "off + 4 \<le> j"
  proof -
    define k where "k = j - (off + 4)"
    have j: "j = off + (4 + k)" using that by (simp add: k_def)
    have "wget (take off M @ [a, b, c, d] @ drop (off + 4) M) j = wget ([a, b, c, d] @ drop (off + 4) M) (4 + k)"
      using assms unfolding j wget_append [of "take off M"] by simp
    also have "\<dots> = wget (drop (off + 4) M) k" unfolding wget_append by simp
    also have "\<dots> = wget M j" unfolding wget_def j by (auto simp: add.assoc)
    finally show ?thesis using j by simp
  qed
  ultimately show ?thesis
    using assms by (elim disjE) (simp_all add: wget_append wget_def nth_append nth_Cons' del: append_Cons append_Nil)
qed

lemma length_upd4: "off \<le> length M \<Longrightarrow> length (take off M @ list4 t @ drop (off + 4) M) = max (length M) (off + 4)"
  by (auto simp: list4_def split_beta max_def)

lemma set4_list: "off \<le> length M \<Longrightarrow> set4 M off t = take off M @ list4 t @ drop (off + 4) M"
  by (rule wget_eqI, simp only: length_upd4, simp add: set4_def split_beta max_def)
    (simp add: set4_def list4_def split_beta wget_upd4 del: append_Cons append_Nil)

lemma swap_list: "off \<le> length M \<Longrightarrow> aes_swap M off = take off M @ list4 (swap (four M off)) @ drop (off + 4) M"
  by (rule wget_eqI, simp only: length_upd4, simp add: swap_four split_beta max_def)
    (simp add: swap_four list4_def swap_def four_def split_beta wget_upd4 del: append_Cons append_Nil)

lemma four_block: "four (block_of 4 ws offset) 0 = four ws offset"
  by (simp add: four_def block_of_def wget_def)

lemma list4_length: "length (list4 t) = 4"
  by (simp add: list4_def split_beta)

lemma four_list4: "offset = length xs \<Longrightarrow> four (xs @ list4 t @ ys) offset = t"
  by (cases t rule: prod_cases4) (simp add: four_def list4_def wget_append wget_def nth_append)

lemma list4_four: "length b = 4 \<Longrightarrow> list4 (four b 0) = b"
  by (auto simp: list4_def four_def wget_def length_Suc_conv numeral_eq_Suc)

lemma aes_E_block: "offset \<le> length ws \<Longrightarrow>
    bc_encryptBlock (AES key) ws offset = take offset ws @ aes_E key (block_of 4 ws offset) @ drop (offset + 4) ws"
  by (simp add: AES_def Let_def encryptBlock_cipher set4_list aes_E_def aes_rounds_def four_block)

lemma aes_D_block:
  assumes "offset \<le> length ws"
  shows "bc_decryptBlock (AES key) ws offset = take offset ws @ aes_D key (block_of 4 ws offset) @ drop (offset + 4) ws"
  using assms
  by (simp add: AES_def Let_def decryptBlock_cipher set4_list swap_list aes_D_def aes_rounds_def four_block
      four_list4 list4_length algebra_simps)

lemma aes_D_E: "length b = 4 \<Longrightarrow> aes_D key (aes_E key b) = b"
proof -
  have "four (list4 t) 0 = t" for t using four_list4 [of 0 "[]" t "[]"] by simp
  moreover have "0 < aes_rounds key" by (simp add: aes_rounds_def)
  moreover assume "length b = 4"
  ultimately show ?thesis by (simp add: aes_D_def aes_E_def cipher_back list4_four del: mult_Suc_right)
qed

interpretation aes: block_cipher "AES key" "aes_E key" "aes_D key" for key
proof
  have n: "bc_blockSize (AES key) = 4" by (simp add: AES_def Let_def)
  show "0 < bc_blockSize (AES key)" by (simp add: n)
  show "length (aes_E key b) = bc_blockSize (AES key)" "length (aes_D key b) = bc_blockSize (AES key)" for b
    by (simp_all add: n aes_E_def aes_D_def list4_length)
qed (simp_all add: aes_E_block aes_D_block aes_D_E AES_def [of key, THEN arg_cong [where f = bc_blockSize]] Let_def)

end
