(* ===== verification/Des_Correct.thy ===== *)
theory Des_Correct
  imports Des
begin

text \<open>
  DES undoes itself when the subkeys are taken backwards: the exchanges are involutions, so that the final permutation is the
  inverse of the initial one, and a Feistel round is undone by the same round on the exchanged halves. DES and Triple-DES are
  block ciphers in the sense of the modes. Every masked round input has an entry in its S-box.
\<close>

subsection \<open>The permutations\<close>

lemma shr_shl_within: "shr (shl m n) n = m \<Longrightarrow> shr (shl (t AND m) n) n = t AND m"
proof (rule bit_word_eqI)
  fix k assume "shr (shl m n) n = m" "k < LENGTH(32)"
  then have "bit m k \<Longrightarrow> n mod 32 + k < 32" using bit_shr [of "shl m n" n k] bit_shl [of m n "n mod 32 + k"] by auto
  then show "bit (shr (shl (t AND m) n) n) k = bit (t AND m) k" by (auto simp: bit_shr bit_shl bit_and_iff)
qed

lemma shr_xor: "shr (a XOR b) n = shr a n XOR shr b n"
  by (rule bit_word_eqI) (simp add: bit_shr bit_xor_iff)

lemma exchange_twice:
  assumes "shr (shl m n) n = m"
  shows "exchangeLR n m (exchangeLR n m s) = s" "exchangeRL n m (exchangeRL n m s) = s"
proof -
  have x: "(a XOR t XOR (b XOR t)) AND m = (a XOR b) AND m" for a b t :: word32
    by (rule bit_word_eqI) (auto simp: bit_xor_iff bit_and_iff)
  show "exchangeLR n m (exchangeLR n m s) = s" "exchangeRL n m (exchangeRL n m s) = s"
    by (simp_all add: exchangeLR_def exchangeRL_def split_beta Let_def shr_xor shr_shl_within [OF assms] x xor.assoc)
qed

lemma exchanges_twice [simp]:
  "exchangeLR 4 0x0f0f0f0f (exchangeLR 4 0x0f0f0f0f s) = s" "exchangeLR 16 0x0000ffff (exchangeLR 16 0x0000ffff s) = s"
  "exchangeRL 2 0x33333333 (exchangeRL 2 0x33333333 s) = s" "exchangeRL 8 0x00ff00ff (exchangeRL 8 0x00ff00ff s) = s"
  "exchangeLR 1 0x55555555 (exchangeLR 1 0x55555555 s) = s"
  by (rule exchange_twice; simp add: shr_def shl_def)+

lemma des_initial_final [simp]: "des_initial (des_final s) = s"
  unfolding des_initial_def des_final_def by (simp only: exchanges_twice)

lemma des_final_initial [simp]: "des_final (des_initial s) = s"
  unfolding des_initial_def des_final_def by (simp only: exchanges_twice)

subsection \<open>The rounds\<close>

lemma des_round_back: "des_round k (prod.swap (des_round k s)) = prod.swap s"
  by (cases s) (simp add: des_round_def xor.assoc)

lemma des_rounds_back: "fold des_round (rev ks) (prod.swap (fold des_round ks s)) = prod.swap s"
  by (induction ks arbitrary: s) (simp_all add: des_round_back)

lemma des_fold: "length ks = 16 \<Longrightarrow> fold (\<lambda>round. des_round (ks ! round)) [0..<16] s = fold des_round ks s"
proof -
  assume "length ks = 16"
  then have "fold des_round (map ((!) ks) [0..<16]) s = fold des_round ks s" by (metis map_nth)
  then show ?thesis by (simp add: fold_map comp_def)
qed

lemma des_invSubKeys_rev: "length ks = 16 \<Longrightarrow> des_invSubKeys ks = rev ks"
  by (rule nth_equalityI) (simp_all add: des_invSubKeys_def rev_nth)

lemma length_des_subKeys [simp]: "length (des_subKeys w) = 16"
  by (simp add: des_subKeys_def)

definition des_words :: "word32 list list \<Rightarrow> des_state \<Rightarrow> des_state" where
  "des_words ks s = des_final (prod.swap (fold des_round ks (des_initial s)))"

lemma des_words_back: "des_words (rev ks) (des_words ks s) = s" "des_words ks (des_words (rev ks) s) = s"
  using des_rounds_back [of ks] des_rounds_back [of "rev ks"] by (simp_all add: des_words_def)

subsection \<open>DES and Triple-DES are block ciphers\<close>

lemma wget_splice:
  assumes "off \<le> length M"
  shows "wget (take off M @ xs @ drop (off + length xs) M) j =
    (if off \<le> j \<and> j < off + length xs then xs ! (j - off) else wget M j)"
proof -
  consider "j < off" | "off \<le> j" "j < off + length xs" | "off + length xs \<le> j" by linarith
  then show ?thesis
  proof cases
    case 3
    then have "wget (take off M @ xs @ drop (off + length xs) M) j = wget (drop (off + length xs) M) (j - off - length xs)"
      using assms by (auto simp: wget_append)
    then show ?thesis using 3 assms by (auto simp: wget_def)
  qed (use assms in \<open>auto simp: wget_append, auto simp: wget_def\<close>)
qed

definition list2 :: "des_state \<Rightarrow> word32 list" where
  "list2 = (\<lambda>(a, b). [a, b])"

definition des_E :: "word32 list list \<Rightarrow> word32 list \<Rightarrow> word32 list" where
  "des_E ks b = list2 (des_words ks (wget b 0, wget b 1))"

lemma length_list2 [simp]: "length (list2 t) = 2"
  by (simp add: list2_def split_beta)

lemma set2_list: "off \<le> length M \<Longrightarrow> wset (wset M off l) (off + 1) r = take off M @ list2 (l, r) @ drop (off + 2) M"
  using wget_splice [of off M "[l, r]"]
  by (intro wget_eqI) (auto simp: list2_def max_def nth_Cons' numeral_2_eq_2 less_Suc_eq)

lemma des_doCryptBlock_E:
  assumes "length ks = 16" "off \<le> length ws"
  shows "des_doCryptBlock ws off ks = take off ws @ des_E ks (block_of 2 ws off) @ drop (off + 2) ws"
proof -
  have b: "(wget (block_of 2 ws off) 0, wget (block_of 2 ws off) 1) = (wget ws off, wget ws (off + 1))"
    by (simp add: block_of_def wget_def)
  obtain l r where lr: "fold des_round ks (des_initial (wget ws off, wget ws (off + 1))) = (l, r)" by fastforce
  obtain l' r' where f: "des_final (r, l) = (l', r')" by fastforce
  show ?thesis
    using set2_list [OF assms(2)] lr f unfolding des_doCryptBlock_def des_fold [OF assms(1)] des_E_def des_words_def b by simp
qed

lemma des_E_back: "length b = 2 \<Longrightarrow> des_E (rev ks) (des_E ks b) = b"
proof -
  have g: "(wget (list2 t) 0, wget (list2 t) 1) = t" for t by (simp add: list2_def wget_def split_beta)
  assume "length b = 2"
  then show ?thesis
    unfolding des_E_def g des_words_back by (auto simp: list2_def wget_def length_Suc_conv numeral_2_eq_2)
qed

interpretation des: block_cipher "DES key" "des_E (des_subKeys (words key))" "des_E (rev (des_subKeys (words key)))" for key
proof
qed (simp_all add: DES_def Let_def des_doCryptBlock_E des_invSubKeys_rev des_E_back, simp_all add: des_E_def)

lemma splice_parts:
  assumes "off \<le> length ws" "length X = n"
  shows "off \<le> length (take off ws @ X @ Z)" "block_of n (take off ws @ X @ Z) off = X"
    "take off (take off ws @ X @ Z) = take off ws" "drop (off + n) (take off ws @ X @ Z) = Z"
proof -
  show "block_of n (take off ws @ X @ Z) off = X"
    using assms by (intro nth_equalityI) (simp_all add: block_of_def wget_append)
qed (use assms in simp_all)

definition tdes_E :: "WordArray \<Rightarrow> word32 list \<Rightarrow> word32 list" where
  "tdes_E key b = (let ks = \<lambda>i. des_subKeys (js_slice (words key) i (i + 2))
     in des_E (ks 4) (des_E (rev (ks 2)) (des_E (ks 0) b)))"

definition tdes_D :: "WordArray \<Rightarrow> word32 list \<Rightarrow> word32 list" where
  "tdes_D key b = (let ks = \<lambda>i. des_subKeys (js_slice (words key) i (i + 2))
     in des_E (rev (ks 0)) (des_E (ks 2) (des_E (rev (ks 4)) b)))"

lemma length_des_E [simp]: "length (des_E ks b) = 2"
  by (simp add: des_E_def)

lemma des_E_back': "length b = 2 \<Longrightarrow> des_E ks (des_E (rev ks) b) = b"
  using des_E_back [of b "rev ks"] by simp

interpretation tripleDes: block_cipher "TripleDES key" "tdes_E key" "tdes_D key" for key
proof
  have n: "bc_blockSize (TripleDES key) = 2" by (simp add: TripleDES_def Let_def)
  show "0 < bc_blockSize (TripleDES key)" by (simp add: n)
  show "tdes_D key (tdes_E key b) = b" if "length b = bc_blockSize (TripleDES key)" for b
    using that by (simp add: n tdes_D_def tdes_E_def des_E_back des_E_back' Let_def)
  show "length (tdes_E key b) = bc_blockSize (TripleDES key)" "length (tdes_D key b) = bc_blockSize (TripleDES key)" for b
    by (simp_all add: n tdes_E_def tdes_D_def Let_def)
  fix off and ws :: "word32 list" assume off: "off \<le> length ws"
  show "bc_encryptBlock (TripleDES key) ws off = take off ws @ tdes_E key (block_of (bc_blockSize (TripleDES key)) ws off) @
      drop (off + bc_blockSize (TripleDES key)) ws"
    using off unfolding n
    by (simp add: TripleDES_def DES_def Let_def WordArray_init_def des_doCryptBlock_E des_invSubKeys_rev splice_parts tdes_E_def
        eval_nat_numeral del: append_assoc)
  show "bc_decryptBlock (TripleDES key) ws off = take off ws @ tdes_D key (block_of (bc_blockSize (TripleDES key)) ws off) @
      drop (off + bc_blockSize (TripleDES key)) ws"
    using off unfolding n
    by (simp add: TripleDES_def DES_def Let_def WordArray_init_def des_doCryptBlock_E des_invSubKeys_rev splice_parts tdes_D_def
        eval_nat_numeral del: append_assoc)
qed

end
