(* ===== verification/Stream_Ciphers.thy ===== *)
theory Stream_Ciphers
  imports Block_Ciphers
begin

text \<open>
  \<^verbatim>\<open>StreamCipher\<close> of \<^verbatim>\<open>cipher-core\<close> (\<^verbatim>\<open>src/internal/jsre/deps/web3.js\<close>) and the module \<^verbatim>\<open>rc4\<close>. A stream cipher adds the words of a
  key stream to the data, so that a second run from the same state takes them away again.
\<close>

definition stream_crypt :: "nat \<Rightarrow> 's block_step \<Rightarrow> 's \<Rightarrow> WordArray \<Rightarrow> WordArray" where
  "stream_crypt blockSize step st data =
     fst (cipher_finalize (stream_doFinalize blockSize step) (Some data) (bba_reset st))"

locale stream_cipher =
  fixes n :: nat and step :: "'s block_step" and key_block :: "'s \<Rightarrow> 's \<times> word32 list"
  assumes positive: "0 < n"
    and adds: "step ws offset s = (fst (key_block s), xor_words n ws offset (snd (key_block s)))"
begin

lemma stream_cipher_pair:
  defines "f \<equiv> \<lambda>s b. (fst (key_block s), xor_block n b (snd (key_block s)))"
  shows "cipher_pair n step f step f (\<lambda>_. True) True"
proof
  show "0 < n" by (rule positive)
  fix s :: 's and b b' :: "word32 list" and k
  assume b: "length b = n"
  show "f s (snd (f s b)) = (fst (f s b), b)" using b by (simp add: f_def xor_block_twice)
  assume "length b' = n" "take k b = take k b'"
  then show "take k (snd (f s b)) = take k (snd (f s b'))" using b by (simp add: f_def) (erule (2) take_xor_block)
qed (simp_all add: f_def adds xor_words_eq)

lemma stream_round_trip: "wa_bytes (stream_crypt n step s (stream_crypt n step s m)) = wa_bytes m"
proof -
  note pair = stream_cipher_pair
  let ?a = "bba_append m (bba_reset s)"
  let ?c = "fst (bba_process n 0 step True ?a)"
  let ?b = "bba_append ?c (bba_reset s)"
  have a: "alg_state ?a = s" "alg_data ?a = wa_concat (WordArray_init [] None) m"
    and b: "alg_state ?b = s" "alg_data ?b = wa_concat (WordArray_init [] None) ?c" by (simp_all add: bba_append_def bba_reset_def)
  have "length (words (alg_data ?a)) = (sigBytes (alg_data ?a) + 3) div 4" unfolding a concat_empty by simp
  then have "(block_mode.nblocks n (sigBytes (alg_data ?a)) - 1) * n \<le> length (words (alg_data ?a))"
    using block_mode.nblocks_words [OF cipher_pair.axioms(1) [OF pair]] by simp
  from cipher_pair.round_trip [OF pair TrueI disjI1 [OF TrueI] this, of ?b 0 0] a b
  have "wa_bytes (fst (bba_process n 0 step True ?b)) = wa_bytes (alg_data ?a)" by simp
  moreover have "wa_bytes (alg_data ?a) = wa_bytes m" unfolding a by simp (simp add: WordArray_init_def wa_bytes_def)
  ultimately show ?thesis by (simp add: stream_crypt_def cipher_finalize_def stream_doFinalize_def)
qed

end

subsection \<open>RC4\<close>

record RC4 =
  rc4_S :: "nat list"
  rc4_i :: nat
  rc4_j :: nat

definition js_swap :: "nat list \<Rightarrow> nat \<Rightarrow> nat \<Rightarrow> nat list" where
  "js_swap S i j = (let t = S ! i in S[i := S ! j, j := t])"

text \<open>With an empty key the index is \<^verbatim>\<open>NaN\<close>, which the shifts read as 0.\<close>

definition rc4_keyByte :: "WordArray \<Rightarrow> nat \<Rightarrow> nat" where
  "rc4_keyByte key i =
     (if sigBytes key = 0 then unat (wget (words key) 0 AND 0xff)
      else let keyByteIndex = i mod sigBytes key
           in unat (shr (wget (words key) (keyByteIndex div 4)) (24 - (keyByteIndex mod 4) * 8) AND 0xff))"

definition rc4_keySetup :: "WordArray \<Rightarrow> nat \<Rightarrow> nat list \<times> nat \<Rightarrow> nat list \<times> nat" where
  "rc4_keySetup key i = (\<lambda>(S, j). let j = (j + S ! i + rc4_keyByte key i) mod 256 in (js_swap S i j, j))"

definition rc4_doReset :: "WordArray \<Rightarrow> RC4" where
  "rc4_doReset key =
     \<lparr>rc4_S = fst (fold (rc4_keySetup key) [0..<256] ([0..<256], 0)), rc4_i = 0, rc4_j = 0\<rparr>"

definition rc4_keystreamByte :: "nat \<Rightarrow> RC4 \<times> word32 \<Rightarrow> RC4 \<times> word32" where
  "rc4_keystreamByte n = (\<lambda>(st, keystreamWord).
     let S = rc4_S st;
         i = (rc4_i st + 1) mod 256;
         j = (rc4_j st + S ! i) mod 256;
         S = js_swap S i j
     in (\<lparr>rc4_S = S, rc4_i = i, rc4_j = j\<rparr>,
         keystreamWord OR shl (of_nat (S ! ((S ! i + S ! j) mod 256))) (24 - n * 8)))"

definition generateKeystreamWord :: "RC4 \<Rightarrow> RC4 \<times> word32" where
  "generateKeystreamWord st = fold rc4_keystreamByte [0..<4] (st, 0)"

definition rc4_doProcessBlock :: "RC4 block_step" where
  "rc4_doProcessBlock M offset st =
     (let (st, keystreamWord) = generateKeystreamWord st
      in (st, wset M offset (wget M offset XOR keystreamWord)))"

definition rc4Drop_doReset :: "nat \<Rightarrow> WordArray \<Rightarrow> RC4" where
  "rc4Drop_doReset n_drop key = fold (\<lambda>i st. fst (generateKeystreamWord st)) [0..<n_drop] (rc4_doReset key)"

interpretation rc4: stream_cipher 1 rc4_doProcessBlock "\<lambda>st. map_prod id (\<lambda>w. [w]) (generateKeystreamWord st)"
  by unfold_locales (simp_all add: rc4_doProcessBlock_def xor_words_def split_beta wget_def [of "[_]"])

text \<open>The table stays a permutation of the bytes and the counters stay below 256.\<close>

definition rc4_perm :: "RC4 \<Rightarrow> bool" where
  "rc4_perm st \<longleftrightarrow> mset (rc4_S st) = mset [0..<256] \<and> rc4_i st < 256 \<and> rc4_j st < 256"

lemma mset_js_swap: "i < length S \<Longrightarrow> j < length S \<Longrightarrow> mset (js_swap S i j) = mset S"
  by (simp add: js_swap_def Let_def mset_swap)

lemma rc4_keySetup_perm:
  assumes "mset (fst Sj) = mset [0..<256]" "i < 256"
  shows "mset (fst (rc4_keySetup key i Sj)) = mset [0..<256]"
proof -
  have "length (fst Sj) = 256" using assms(1) by (metis length_upt mset_eq_length diff_zero)
  then show ?thesis using assms by (simp add: rc4_keySetup_def split_beta Let_def mset_js_swap)
qed

lemma rc4_doReset_perm: "rc4_perm (rc4_doReset key)"
proof -
  have "mset (fst (fold (rc4_keySetup key) is Sj)) = mset [0..<256]"
    if "mset (fst Sj) = mset [0..<256]" "\<forall>i \<in> set is. i < 256" for "is" Sj
    using that
  proof (induction "is" arbitrary: Sj)
    case (Cons i "is")
    then show ?case using rc4_keySetup_perm [of Sj i key] by (simp del: upt_rec_numeral)
  qed simp
  from this [of "([0..<256], 0)" "[0..<256]"] show ?thesis by (simp add: rc4_perm_def rc4_doReset_def del: upt_rec_numeral)
qed

lemma rc4_keystreamByte_perm: "rc4_perm (fst p) \<Longrightarrow> rc4_perm (fst (rc4_keystreamByte n p))"
proof -
  assume p: "rc4_perm (fst p)"
  then have "length (rc4_S (fst p)) = 256" unfolding rc4_perm_def by (metis length_upt mset_eq_length diff_zero)
  then show ?thesis using p by (simp add: rc4_perm_def rc4_keystreamByte_def split_beta Let_def mset_js_swap)
qed

lemma generateKeystreamWord_perm: "rc4_perm st \<Longrightarrow> rc4_perm (fst (generateKeystreamWord st))"
proof -
  have "rc4_perm (fst p) \<Longrightarrow> rc4_perm (fst (fold rc4_keystreamByte ns p))" for ns p
    by (induction ns arbitrary: p) (simp_all add: rc4_keystreamByte_perm)
  from this [of "(st, 0)"] show "rc4_perm st \<Longrightarrow> rc4_perm (fst (generateKeystreamWord st))"
    unfolding generateKeystreamWord_def by simp
qed

lemma rc4Drop_doReset_perm: "rc4_perm (rc4Drop_doReset n_drop key)"
  unfolding rc4Drop_doReset_def by (induction n_drop) (simp_all add: rc4_doReset_perm generateKeystreamWord_perm)

end
