(* ===== verification/Rabbit.thy ===== *)
theory Rabbit
  imports Stream_Ciphers
begin

text \<open>
  Modules \<^verbatim>\<open>rabbit-legacy\<close> and \<^verbatim>\<open>rabbit\<close> of CryptoJS (\<^verbatim>\<open>src/internal/jsre/deps/web3.js\<close>). The products of a step stay below
  \<open>2^53\<close>, or are a multiple of \<open>2^16\<close> whose quotient does, so that the conversion to 32 bits loses nothing and the arithmetic is
  that of words. A state word that was read off a key that is too short is \<^verbatim>\<open>undefined\<close>, here \<open>None\<close>: it makes a sum \<^verbatim>\<open>NaN\<close>
  and reads as 0 in a bitwise operation.
\<close>

record Rabbit =
  r_X :: "word32 option list"
  r_C :: "word32 list"
  r_b :: word32

definition xword :: "Rabbit \<Rightarrow> nat \<Rightarrow> word32" where
  "xword st i = (case r_X st ! i of Some v \<Rightarrow> v | None \<Rightarrow> 0)"

definition js_nth :: "word32 list \<Rightarrow> nat \<Rightarrow> word32 option" where
  "js_nth ws i = (if i < length ws then Some (ws ! i) else None)"

subsection \<open>RabbitLegacy\<close>

definition legacy_counters :: "word32 list \<Rightarrow> word32 \<Rightarrow> word32 list \<times> word32" where
  "legacy_counters old b =
     (let carry = \<lambda>c i. if c < old ! i then 1 else 0;
          c0 = old ! 0 + 0x4d34d34d + b;
          c1 = old ! 1 + 0xd34d34d3 + carry c0 0;
          c2 = old ! 2 + 0x34d34d34 + carry c1 1;
          c3 = old ! 3 + 0x4d34d34d + carry c2 2;
          c4 = old ! 4 + 0xd34d34d3 + carry c3 3;
          c5 = old ! 5 + 0x34d34d34 + carry c4 4;
          c6 = old ! 6 + 0x4d34d34d + carry c5 5;
          c7 = old ! 7 + 0xd34d34d3 + carry c6 6
      in ([c0, c1, c2, c3, c4, c5, c6, c7], carry c7 7))"

definition legacy_g :: "word32 option \<Rightarrow> word32 \<Rightarrow> word32" where
  "legacy_g x c =
     (case x of None \<Rightarrow> 0
      | Some x \<Rightarrow>
         let gx = x + c;
             ga = gx AND 0xffff;
             gb = shr gx 16;
             gh = shr (shr (ga * ga) 17 + ga * gb) 15 + gb * gb;
             gl = (gx AND 0xffff0000) * gx + (gx AND 0x0000ffff) * gx
         in gh XOR gl)"

definition legacy_states :: "word32 list \<Rightarrow> word32 list" where
  "legacy_states G =
     [G ! 0 + (shl (G ! 7) 16 OR shr (G ! 7) 16) + (shl (G ! 6) 16 OR shr (G ! 6) 16),
      G ! 1 + (shl (G ! 0) 8 OR shr (G ! 0) 24) + G ! 7,
      G ! 2 + (shl (G ! 1) 16 OR shr (G ! 1) 16) + (shl (G ! 0) 16 OR shr (G ! 0) 16),
      G ! 3 + (shl (G ! 2) 8 OR shr (G ! 2) 24) + G ! 1,
      G ! 4 + (shl (G ! 3) 16 OR shr (G ! 3) 16) + (shl (G ! 2) 16 OR shr (G ! 2) 16),
      G ! 5 + (shl (G ! 4) 8 OR shr (G ! 4) 24) + G ! 3,
      G ! 6 + (shl (G ! 5) 16 OR shr (G ! 5) 16) + (shl (G ! 4) 16 OR shr (G ! 4) 16),
      G ! 7 + (shl (G ! 6) 8 OR shr (G ! 6) 24) + G ! 5]"

definition legacy_nextState :: "Rabbit \<Rightarrow> Rabbit" where
  "legacy_nextState st =
     (let (C, b) = legacy_counters (r_C st) (r_b st);
          G = map (\<lambda>i. legacy_g (r_X st ! i) (C ! i)) [0..<8]
      in \<lparr>r_X = map Some (legacy_states G), r_C = C, r_b = b\<rparr>)"

definition legacy_keySetup :: "word32 list \<Rightarrow> Rabbit" where
  "legacy_keySetup K =
     \<lparr>r_X = [js_nth K 0, Some (shl (wget K 3) 16 OR shr (wget K 2) 16),
             js_nth K 1, Some (shl (wget K 0) 16 OR shr (wget K 3) 16),
             js_nth K 2, Some (shl (wget K 1) 16 OR shr (wget K 0) 16),
             js_nth K 3, Some (shl (wget K 2) 16 OR shr (wget K 1) 16)],
      r_C = [shl (wget K 2) 16 OR shr (wget K 2) 16, (wget K 0 AND 0xffff0000) OR (wget K 1 AND 0x0000ffff),
             shl (wget K 3) 16 OR shr (wget K 3) 16, (wget K 1 AND 0xffff0000) OR (wget K 2 AND 0x0000ffff),
             shl (wget K 0) 16 OR shr (wget K 0) 16, (wget K 2 AND 0xffff0000) OR (wget K 3 AND 0x0000ffff),
             shl (wget K 1) 16 OR shr (wget K 1) 16, (wget K 3 AND 0xffff0000) OR (wget K 0 AND 0x0000ffff)],
      r_b = 0\<rparr>"

definition legacy_ivSetup :: "word32 list \<Rightarrow> Rabbit \<Rightarrow> Rabbit" where
  "legacy_ivSetup IV st =
     (let i0 = ((shl (wget IV 0) 8 OR shr (wget IV 0) 24) AND 0x00ff00ff) OR ((shl (wget IV 0) 24 OR shr (wget IV 0) 8) AND 0xff00ff00);
          i2 = ((shl (wget IV 1) 8 OR shr (wget IV 1) 24) AND 0x00ff00ff) OR ((shl (wget IV 1) 24 OR shr (wget IV 1) 8) AND 0xff00ff00);
          i1 = shr i0 16 OR (i2 AND 0xffff0000);
          i3 = shl i2 16 OR (i0 AND 0x0000ffff)
      in st\<lparr>r_C := map2 (XOR) (r_C st) [i0, i1, i2, i3, i0, i1, i2, i3]\<rparr>)"

definition legacy_doReset :: "WordArray \<Rightarrow> WordArray option \<Rightarrow> Rabbit" where
  "legacy_doReset key iv =
     (let st = (legacy_nextState ^^ 4) (legacy_keySetup (words key));
          st = st\<lparr>r_C := map (\<lambda>i. r_C st ! i XOR xword st ((i + 4) mod 8)) [0..<8]\<rparr>
      in case iv of None \<Rightarrow> st | Some iv \<Rightarrow> (legacy_nextState ^^ 4) (legacy_ivSetup (words iv) st))"

definition legacy_keystream :: "Rabbit \<Rightarrow> word32 list" where
  "legacy_keystream st =
     (let X = xword st;
          S = [X 0 XOR shr (X 5) 16 XOR shl (X 3) 16, X 2 XOR shr (X 7) 16 XOR shl (X 5) 16,
               X 4 XOR shr (X 1) 16 XOR shl (X 7) 16, X 6 XOR shr (X 3) 16 XOR shl (X 1) 16]
      in map (\<lambda>s. ((shl s 8 OR shr s 24) AND 0x00ff00ff) OR ((shl s 24 OR shr s 8) AND 0xff00ff00)) S)"

definition legacy_doProcessBlock :: "Rabbit block_step" where
  "legacy_doProcessBlock M offset st =
     (let st = legacy_nextState st in (st, xor_words 4 M offset (legacy_keystream st)))"

interpretation rabbitLegacy: stream_cipher 4 legacy_doProcessBlock
  "\<lambda>st. (legacy_nextState st, legacy_keystream (legacy_nextState st))"
  by unfold_locales (simp_all add: legacy_doProcessBlock_def Let_def)

subsection \<open>Rabbit\<close>

definition rabbit_counters :: "word32 list \<Rightarrow> word32 \<Rightarrow> word32 list \<times> word32" where
  "rabbit_counters old b =
     (let carry = \<lambda>c i. if c < old ! i then 1 else 0;
          c0 = old ! 0 + 0x4d34d34d + b;
          c1 = old ! 1 + 0xd34d34d3 + carry c0 0;
          c2 = old ! 2 + 0x34d34d34 + carry c1 1;
          c3 = old ! 3 + 0x4d34d34d + carry c2 2;
          c4 = old ! 4 + 0xd34d34d3 + carry c3 3;
          c5 = old ! 5 + 0x34d34d34 + carry c4 4;
          c6 = old ! 6 + 0x4d34d34d + carry c5 5;
          c7 = old ! 7 + 0xd34d34d3 + carry c6 6
      in ([c0, c1, c2, c3, c4, c5, c6, c7], carry c7 7))"

definition rabbit_g :: "word32 option \<Rightarrow> word32 \<Rightarrow> word32" where
  "rabbit_g x c =
     (case x of None \<Rightarrow> 0
      | Some x \<Rightarrow>
         let gx = x + c;
             ga = gx AND 0xffff;
             gb = shr gx 16;
             gh = shr (shr (ga * ga) 17 + ga * gb) 15 + gb * gb;
             gl = (gx AND 0xffff0000) * gx + (gx AND 0x0000ffff) * gx
         in gh XOR gl)"

definition rabbit_states :: "word32 list \<Rightarrow> word32 list" where
  "rabbit_states G =
     [G ! 0 + (shl (G ! 7) 16 OR shr (G ! 7) 16) + (shl (G ! 6) 16 OR shr (G ! 6) 16),
      G ! 1 + (shl (G ! 0) 8 OR shr (G ! 0) 24) + G ! 7,
      G ! 2 + (shl (G ! 1) 16 OR shr (G ! 1) 16) + (shl (G ! 0) 16 OR shr (G ! 0) 16),
      G ! 3 + (shl (G ! 2) 8 OR shr (G ! 2) 24) + G ! 1,
      G ! 4 + (shl (G ! 3) 16 OR shr (G ! 3) 16) + (shl (G ! 2) 16 OR shr (G ! 2) 16),
      G ! 5 + (shl (G ! 4) 8 OR shr (G ! 4) 24) + G ! 3,
      G ! 6 + (shl (G ! 5) 16 OR shr (G ! 5) 16) + (shl (G ! 4) 16 OR shr (G ! 4) 16),
      G ! 7 + (shl (G ! 6) 8 OR shr (G ! 6) 24) + G ! 5]"

definition rabbit_nextState :: "Rabbit \<Rightarrow> Rabbit" where
  "rabbit_nextState st =
     (let (C, b) = rabbit_counters (r_C st) (r_b st);
          G = map (\<lambda>i. rabbit_g (r_X st ! i) (C ! i)) [0..<8]
      in \<lparr>r_X = map Some (rabbit_states G), r_C = C, r_b = b\<rparr>)"

definition rabbit_keySetup :: "word32 list \<Rightarrow> Rabbit" where
  "rabbit_keySetup K =
     \<lparr>r_X = [js_nth K 0, Some (shl (wget K 3) 16 OR shr (wget K 2) 16),
             js_nth K 1, Some (shl (wget K 0) 16 OR shr (wget K 3) 16),
             js_nth K 2, Some (shl (wget K 1) 16 OR shr (wget K 0) 16),
             js_nth K 3, Some (shl (wget K 2) 16 OR shr (wget K 1) 16)],
      r_C = [shl (wget K 2) 16 OR shr (wget K 2) 16, (wget K 0 AND 0xffff0000) OR (wget K 1 AND 0x0000ffff),
             shl (wget K 3) 16 OR shr (wget K 3) 16, (wget K 1 AND 0xffff0000) OR (wget K 2 AND 0x0000ffff),
             shl (wget K 0) 16 OR shr (wget K 0) 16, (wget K 2 AND 0xffff0000) OR (wget K 3 AND 0x0000ffff),
             shl (wget K 1) 16 OR shr (wget K 1) 16, (wget K 3 AND 0xffff0000) OR (wget K 0 AND 0x0000ffff)],
      r_b = 0\<rparr>"

definition rabbit_ivSetup :: "word32 list \<Rightarrow> Rabbit \<Rightarrow> Rabbit" where
  "rabbit_ivSetup IV st =
     (let i0 = ((shl (wget IV 0) 8 OR shr (wget IV 0) 24) AND 0x00ff00ff) OR ((shl (wget IV 0) 24 OR shr (wget IV 0) 8) AND 0xff00ff00);
          i2 = ((shl (wget IV 1) 8 OR shr (wget IV 1) 24) AND 0x00ff00ff) OR ((shl (wget IV 1) 24 OR shr (wget IV 1) 8) AND 0xff00ff00);
          i1 = shr i0 16 OR (i2 AND 0xffff0000);
          i3 = shl i2 16 OR (i0 AND 0x0000ffff)
      in st\<lparr>r_C := map2 (XOR) (r_C st) [i0, i1, i2, i3, i0, i1, i2, i3]\<rparr>)"

text \<open>The words of the caller's key are turned to little-endian in place.\<close>

definition rabbit_swapKey :: "word32 list \<Rightarrow> word32 list" where
  "rabbit_swapKey K =
     fold (\<lambda>i K. wset K i (((shl (wget K i) 8 OR shr (wget K i) 24) AND 0x00ff00ff) OR
         ((shl (wget K i) 24 OR shr (wget K i) 8) AND 0xff00ff00))) [0..<4] K"

definition rabbit_doReset :: "WordArray \<Rightarrow> WordArray option \<Rightarrow> Rabbit \<times> WordArray" where
  "rabbit_doReset key iv =
     (let key = key\<lparr>words := rabbit_swapKey (words key)\<rparr>;
          st = (rabbit_nextState ^^ 4) (rabbit_keySetup (words key));
          st = st\<lparr>r_C := map (\<lambda>i. r_C st ! i XOR xword st ((i + 4) mod 8)) [0..<8]\<rparr>
      in (case iv of None \<Rightarrow> st | Some iv \<Rightarrow> (rabbit_nextState ^^ 4) (rabbit_ivSetup (words iv) st), key))"

definition rabbit_keystream :: "Rabbit \<Rightarrow> word32 list" where
  "rabbit_keystream st =
     (let X = xword st;
          S = [X 0 XOR shr (X 5) 16 XOR shl (X 3) 16, X 2 XOR shr (X 7) 16 XOR shl (X 5) 16,
               X 4 XOR shr (X 1) 16 XOR shl (X 7) 16, X 6 XOR shr (X 3) 16 XOR shl (X 1) 16]
      in map (\<lambda>s. ((shl s 8 OR shr s 24) AND 0x00ff00ff) OR ((shl s 24 OR shr s 8) AND 0xff00ff00)) S)"

definition rabbit_doProcessBlock :: "Rabbit block_step" where
  "rabbit_doProcessBlock M offset st =
     (let st = rabbit_nextState st in (st, xor_words 4 M offset (rabbit_keystream st)))"

interpretation rabbit: stream_cipher 4 rabbit_doProcessBlock
  "\<lambda>st. (rabbit_nextState st, rabbit_keystream (rabbit_nextState st))"
  by unfold_locales (simp_all add: rabbit_doProcessBlock_def Let_def)

subsection \<open>The two modules\<close>

lemma rabbit_counters_legacy: "rabbit_counters = legacy_counters"
  by (intro ext) (simp only: rabbit_counters_def legacy_counters_def)

lemma rabbit_g_legacy: "rabbit_g = legacy_g"
  by (intro ext) (simp only: rabbit_g_def legacy_g_def)

lemma rabbit_nextState_legacy: "rabbit_nextState = legacy_nextState"
  by (intro ext)
    (simp only: rabbit_nextState_def legacy_nextState_def rabbit_counters_legacy rabbit_g_legacy rabbit_states_def legacy_states_def)

lemma rabbit_doProcessBlock_legacy: "rabbit_doProcessBlock = legacy_doProcessBlock"
  by (intro ext)
    (simp only: rabbit_doProcessBlock_def legacy_doProcessBlock_def rabbit_nextState_legacy rabbit_keystream_def legacy_keystream_def)

lemma rabbit_doReset_legacy:
  "rabbit_doReset key iv = (let key = key\<lparr>words := rabbit_swapKey (words key)\<rparr> in (legacy_doReset key iv, key))"
  by (simp only: rabbit_doReset_def legacy_doReset_def Let_def rabbit_nextState_legacy rabbit_keySetup_def legacy_keySetup_def
      rabbit_ivSetup_def legacy_ivSetup_def)

lemma swap_endian: "((shl w 8 OR shr w 24) AND 0x00ff00ff) OR ((shl w 24 OR shr w 8) AND 0xff00ff00) = bswap w"
  by (simp add: bswap_def)

lemma length_rabbit_swapKey: "length (rabbit_swapKey K) = max 4 (length K)"
  by (simp add: rabbit_swapKey_def upt_rec)

lemma wget_rabbit_swapKey: "wget (rabbit_swapKey K) i = (if i < 4 then bswap (wget K i) else wget K i)"
proof -
  have "wget (fold (\<lambda>i K. wset K i (bswap (wget K i))) [0..<n] K) i = (if i < n then bswap (wget K i) else wget K i)" for n
    by (induction n) auto
  then show ?thesis unfolding rabbit_swapKey_def swap_endian .
qed

lemma rabbit_swapKey_twice: "4 \<le> length K \<Longrightarrow> rabbit_swapKey (rabbit_swapKey K) = K"
proof (rule wget_eqI)
  have "bswap (bswap w) = w" for w by (metis rev_rev_ident word_bytes_bswap word_bytes_inject)
  then show "wget (rabbit_swapKey (rabbit_swapKey K)) i = wget K i" for i by (simp add: wget_rabbit_swapKey)
qed (simp add: length_rabbit_swapKey)

subsection \<open>The square of a step\<close>

lemma square_high:
  fixes a b :: nat
  shows "(a + 2 ^ 16 * b)\<^sup>2 div 2 ^ 32 = ((a * a) div 2 ^ 17 + a * b) div 2 ^ 15 + b * b"
proof -
  have e: "(2 :: nat) ^ 32 = 2 ^ 17 * 2 ^ 15" by simp
  have "(a + 2 ^ 16 * b)\<^sup>2 = (a * a + a * b * 2 ^ 17) + b * b * 2 ^ 32" by (simp add: power2_eq_square algebra_simps)
  then have "(a + 2 ^ 16 * b)\<^sup>2 div 2 ^ 32 = (a * a + a * b * 2 ^ 17) div 2 ^ 32 + b * b" by simp
  also have "(a * a + a * b * 2 ^ 17) div 2 ^ 32 = ((a * a) div 2 ^ 17 + a * b) div 2 ^ 15"
    unfolding e div_mult2_eq by simp
  finally show ?thesis .
qed

lemma halves:
  fixes gx :: word32
  defines "a \<equiv> unat gx mod 2 ^ 16" and "b \<equiv> unat gx div 2 ^ 16"
  shows "gx AND 0xffff = of_nat a" "shr gx 16 = of_nat b" "a < 2 ^ 16" "b < 2 ^ 16" "unat gx = a + 2 ^ 16 * b"
proof -
  have lt: "unat gx < 2 ^ 32" using unsigned_less [of gx, where ?'a = nat] by simp
  show "a < 2 ^ 16" "b < 2 ^ 16" "unat gx = a + 2 ^ 16 * b" using lt by (simp_all add: a_def b_def)
  show "shr gx 16 = of_nat b" using shr_of_nat [OF lt, of 16] by (simp add: b_def)
  have "gx AND 0xffff = take_bit 16 gx" by (simp add: take_bit_eq_mask mask_eq_decr_exp)
  moreover have "of_nat a = take_bit 16 (of_nat (unat gx) :: word32)" 
    unfolding take_bit_of_nat a_def take_bit_eq_mod [symmetric] ..
  ultimately show "gx AND 0xffff = of_nat a" by simp
qed

lemma masks_product: "(gx AND 0xffff0000) * gx + (gx AND 0x0000ffff) * gx = gx * gx" for gx :: word32
proof -
  have m: "0xffff0000 AND 0x0000ffff = (0 :: word32)" by simp
  have "\<not> (bit (0xffff0000 :: word32) n \<and> bit (0x0000ffff :: word32) n)" for n
    unfolding bit_and_iff [symmetric] m by simp
  then have "(gx AND 0xffff0000) + (gx AND 0x0000ffff) = (gx AND 0xffff0000) OR (gx AND 0x0000ffff)"
    by (intro disjunctive_add) (unfold bit_and_iff, blast)
  also have "\<dots> = gx AND (0xffff0000 OR 0x0000ffff)" by (rule bit_word_eqI) (unfold bit_and_iff bit_or_iff, blast)
  also have "0xffff0000 OR 0x0000ffff = (-1 :: word32)" by simp
  finally show ?thesis by (simp flip: distrib_right)
qed

lemma legacy_g_square:
  "legacy_g (Some x) c = (let q = (unat (x + c))\<^sup>2 in of_nat (q div 2 ^ 32) XOR of_nat q)"
proof -
  define gx where "gx = x + c"
  define a where "a = unat gx mod 2 ^ 16"
  define b where "b = unat gx div 2 ^ 16"
  note h = halves [of gx, folded a_def b_def]
  have aa: "a * a \<le> (2 ^ 16 - 1) * (2 ^ 16 - 1)" and ab: "a * b \<le> (2 ^ 16 - 1) * (2 ^ 16 - 1)"
    using h(3,4) by (intro mult_le_mono; simp)+
  then have s: "a * a < 2 ^ 32" "(a * a) div 2 ^ 17 + a * b < 2 ^ 32" by (simp_all add: div_le_mono le_less_trans)
  have 1: "shr (of_nat a * of_nat a) 17 = of_nat (a * a div 2 ^ 17)" using shr_of_nat [OF s(1), of 17] by simp
  have 2: "shr (shr (of_nat a * of_nat a) 17 + of_nat a * of_nat b) 15 = of_nat (((a * a) div 2 ^ 17 + a * b) div 2 ^ 15)"
    using shr_of_nat [OF s(2), of 15] unfolding 1 by simp
  have "shr (shr (of_nat a * of_nat a) 17 + of_nat a * of_nat b) 15 + of_nat b * of_nat b = (of_nat ((unat gx)\<^sup>2 div 2 ^ 32) :: word32)"
    unfolding 2 h(5) square_high by simp
  moreover have "gx * gx = of_nat ((unat gx)\<^sup>2)" by (simp add: power2_eq_square)
  ultimately show ?thesis
    unfolding legacy_g_def option.case Let_def gx_def [symmetric] masks_product h(1,2) by metis
qed

end
