(* ===== verification/Encodings.thy ===== *)
theory Encodings
  imports Word_Array
begin

text \<open>
  The text encodings of CryptoJS: \<^verbatim>\<open>Hex\<close> and \<^verbatim>\<open>Latin1\<close> of module \<^verbatim>\<open>core\<close>,
  \<^verbatim>\<open>Utf16\<close> and \<^verbatim>\<open>Utf16LE\<close> of \<^verbatim>\<open>enc-utf16\<close>
  (\<^verbatim>\<open>src/internal/jsre/deps/web3.js\<close>). Each of them has a \<^verbatim>\<open>stringify\<close> and a \<^verbatim>\<open>parse\<close>; the locale
  \<open>text_encoder\<close> says what they promise each other.
\<close>

subsection \<open>The contract\<close>

locale text_encoder =
  fixes stringify :: "WordArray \<Rightarrow> jsstring"
    and parse :: "jsstring \<Rightarrow> WordArray option"
    and ok :: "nat \<Rightarrow> bool"
  assumes parse_stringify: "ok (sigBytes w) \<Longrightarrow> \<exists>v. parse (stringify w) = Some v \<and> wa_bytes v = wa_bytes w"
    and stringify_bytes: "ok (sigBytes w) \<Longrightarrow> wa_bytes w = wa_bytes v \<Longrightarrow> stringify w = stringify v"
begin

lemma stringify_inj:
  assumes "ok (sigBytes w)" "ok (sigBytes v)"
  shows "stringify w = stringify v \<longleftrightarrow> wa_bytes w = wa_bytes v"
proof
  assume "stringify w = stringify v"
  then show "wa_bytes w = wa_bytes v"
    using parse_stringify [OF assms(1)] parse_stringify [OF assms(2)] by (metis option.inject)
qed (rule stringify_bytes [OF assms(1)])

end

subsection \<open>Hex\<close>

text \<open>\<^verbatim>\<open>n.toString(16)\<close> for a digit.\<close>

definition hex_char :: "nat \<Rightarrow> jschar" where
  "hex_char n = of_nat (if n < 10 then 48 + n else 87 + n)"

definition Hex_stringify :: "WordArray \<Rightarrow> jsstring" where
  "Hex_stringify w =
     concat (map (\<lambda>i. let bite = get_byte (words w) i
                      in [hex_char (unat (shr bite 4)), hex_char (unat (bite AND 0x0f))]) [0..<sigBytes w])"

text \<open>\<^verbatim>\<open>parseInt(s, 16)\<close>; \<^term>\<open>None\<close> is NaN.\<close>

definition js_space :: "jschar \<Rightarrow> bool" where
  "js_space c \<longleftrightarrow> unat c \<in> {9, 10, 11, 12, 13, 32, 160, 0x1680, 0x2000, 0x2001, 0x2002, 0x2003, 0x2004,
     0x2005, 0x2006, 0x2007, 0x2008, 0x2009, 0x200a, 0x2028, 0x2029, 0x202f, 0x205f, 0x3000, 0xfeff}"

definition hex_value :: "jschar \<Rightarrow> nat option" where
  "hex_value c =
     (let n = unat c
      in if 48 \<le> n \<and> n \<le> 57 then Some (n - 48)
         else if 65 \<le> n \<and> n \<le> 70 then Some (n - 55)
         else if 97 \<le> n \<and> n \<le> 102 then Some (n - 87) else None)"

fun hex_digits :: "jsstring \<Rightarrow> nat list" where
  "hex_digits [] = []"
| "hex_digits (c # s) = (case hex_value c of None \<Rightarrow> [] | Some v \<Rightarrow> v # hex_digits s)"

definition parseInt16 :: "jsstring \<Rightarrow> int option" where
  "parseInt16 s =
     (let t = dropWhile js_space s;
          neg = (t \<noteq> [] \<and> hd t = 45);
          u = (if t \<noteq> [] \<and> (hd t = 45 \<or> hd t = 43) then tl t else t);
          v = (if take 2 u = [48, 120] \<or> take 2 u = [48, 88] then drop 2 u else u);
          ds = hex_digits v
      in if ds = [] then None
         else Some ((if neg then - 1 else 1) * int (foldl (\<lambda>a d. a * 16 + d) 0 ds)))"

text \<open>NaN and numbers as operands of a shift.\<close>

definition to_int32 :: "int option \<Rightarrow> word32" where
  "to_int32 n = (case n of None \<Rightarrow> 0 | Some v \<Rightarrow> word_of_int v)"

text \<open>
  \<^term>\<open>None\<close> stands for the word array with a half significant byte that a string of odd length gives.
\<close>

definition Hex_parse :: "jsstring \<Rightarrow> WordArray option" where
  "Hex_parse s =
     (let ws = fold (\<lambda>i ws. wset ws (i div 8)
                 (wget ws (i div 8) OR shl (to_int32 (parseInt16 (take 2 (drop i s)))) (24 - (i mod 8) * 4)))
                 (js_steps (length s) 2) []
      in if even (length s) then Some (WordArray_init ws (Some (length s div 2))) else None)"

subsection \<open>Latin1\<close>

definition Latin1_stringify :: "WordArray \<Rightarrow> jsstring" where
  "Latin1_stringify w = map (\<lambda>i. ucast (get_byte (words w) i)) [0..<sigBytes w]"

definition Latin1_parse :: "jsstring \<Rightarrow> WordArray" where
  "Latin1_parse s =
     WordArray_init (fold (\<lambda>i ws. or_byte ws i (ucast (s ! i) AND 0xff)) [0..<length s] []) (Some (length s))"

subsection \<open>UTF-16\<close>

definition Utf16_stringify :: "WordArray \<Rightarrow> jsstring" where
  "Utf16_stringify w =
     map (\<lambda>i. ucast (shr (wget (words w) (i div 4)) (16 - (i mod 4) * 8) AND 0xffff)) (js_steps (sigBytes w) 2)"

definition Utf16_parse :: "jsstring \<Rightarrow> WordArray" where
  "Utf16_parse s =
     WordArray_init
       (fold (\<lambda>i ws. wset ws (i div 2) (wget ws (i div 2) OR shl (ucast (s ! i)) (16 - (i mod 2) * 16)))
          [0..<length s] []) (Some (length s * 2))"

definition swapEndian :: "word32 \<Rightarrow> word32" where
  "swapEndian w = (shl w 8 AND 0xff00ff00) OR (shr w 8 AND 0x00ff00ff)"

definition Utf16LE_stringify :: "WordArray \<Rightarrow> jsstring" where
  "Utf16LE_stringify w =
     map (\<lambda>i. ucast (swapEndian (shr (wget (words w) (i div 4)) (16 - (i mod 4) * 8) AND 0xffff)))
       (js_steps (sigBytes w) 2)"

definition Utf16LE_parse :: "jsstring \<Rightarrow> WordArray" where
  "Utf16LE_parse s =
     WordArray_init
       (fold (\<lambda>i ws. wset ws (i div 2)
                (wget ws (i div 2) OR swapEndian (shl (ucast (s ! i)) (16 - (i mod 2) * 16))))
          [0..<length s] []) (Some (length s * 2))"

subsection \<open>Hex and Latin1 round trips\<close>

lemma wbyte_Nil [simp]: "wbyte [] i = 0"
  by (rule bit_word_eqI) (simp add: bit_wbyte)

lemma wa_bytes_eqI:
  assumes "sigBytes w = sigBytes v" "\<And>i. i < sigBytes w \<Longrightarrow> wbyte (words w) i = wbyte (words v) i"
  shows "wa_bytes w = wa_bytes v"
  using assms by (simp add: wa_bytes_def)

lemma wa_bytes_eqD:
  assumes "wa_bytes w = wa_bytes v"
  shows "sigBytes w = sigBytes v" "\<And>i. i < sigBytes w \<Longrightarrow> wbyte (words w) i = wbyte (words v) i"
    "\<And>i. i < sigBytes w \<Longrightarrow> get_byte (words w) i = get_byte (words v) i"
proof -
  show len: "sigBytes w = sigBytes v" using arg_cong [OF assms, of length] by simp
  show byte: "wbyte (words w) i = wbyte (words v) i" if "i < sigBytes w" for i
    using that len arg_cong [OF assms, of "\<lambda>xs. xs ! i"] by (simp add: nth_wa_bytes)
  show "get_byte (words w) i = get_byte (words v) i" if "i < sigBytes w" for i
    using byte [OF that] by (simp flip: ucast_wbyte)
qed

lemma bytes_of_fold:
  "wa_bytes (WordArray_init (fold (\<lambda>i ws. or_byte ws i (ucast (f i :: byte))) [0..<m] []) (Some m)) =
     map f [0..<m]"
  using fold_or_byte [of 0 "[]" f m] by (simp add: wa_bytes_def WordArray_init_def)

lemma take_drop_chunk:
  assumes "\<And>i. length (f i) = k" "j < m"
  shows "take k (drop (j * k) (concat (map f [0..<m]))) = f j"
proof -
  have pre: "length (concat (map f [0..<j])) = j * k" for j
    by (induction j) (simp_all add: assms(1))
  have "[0..<m] = [0..<j] @ j # [Suc j..<m]" using assms(2) upt_add_eq_append [of 0 j "m - j"] by (simp add: upt_conv_Cons)
  then have "concat (map f [0..<m]) = concat (map f [0..<j]) @ f j @ concat (map f [Suc j..<m])" by simp
  then show ?thesis using pre assms(1) by simp
qed

lemma unat_hex_char: "n < 16 \<Longrightarrow> unat (hex_char n) = (if n < 10 then 48 + n else 87 + n)"
  by (simp add: hex_char_def unat_of_nat)

lemma hex_value_char: "n < 16 \<Longrightarrow> hex_value (hex_char n) = Some n"
  by (simp add: hex_value_def unat_hex_char Let_def)

lemma hex_char_plain:
  assumes "n < 16"
  shows "\<not> js_space (hex_char n)" "hex_char n \<noteq> 45" "hex_char n \<noteq> 43" "hex_char n \<noteq> 120" "hex_char n \<noteq> 88"
proof -
  show "\<not> js_space (hex_char n)" using assms by (simp add: js_space_def unat_hex_char)
  have "unat (hex_char n) \<noteq> 45" "unat (hex_char n) \<noteq> 43" "unat (hex_char n) \<noteq> 120" "unat (hex_char n) \<noteq> 88"
    using assms by (simp_all add: unat_hex_char)
  then show "hex_char n \<noteq> 45" "hex_char n \<noteq> 43" "hex_char n \<noteq> 120" "hex_char n \<noteq> 88" by auto
qed

lemma parseInt16_pair:
  "a < 16 \<Longrightarrow> b < 16 \<Longrightarrow> parseInt16 [hex_char a, hex_char b] = Some (int (a * 16 + b))"
  using hex_char_plain [of a] hex_char_plain [of b]
  by (simp add: parseInt16_def hex_value_char Let_def)

lemma unat_byte_less: "unat (b :: byte) < 256"
  using unsigned_less [of b] by simp

lemma map_index: "map (\<lambda>i. f (xs ! i)) [0..<length xs] = map f xs"
  by (rule nth_equalityI) simp_all

lemma unat_nibbles:
  "unat (shr (ucast (b :: byte)) 4) = unat b div 16" "unat (ucast b AND 0x0f :: word32) = unat b mod 16"
proof -
  have b: "unat (ucast b :: word32) = unat b"
    using unat_byte_less [of b] by (simp add: unsigned_ucast_eq take_bit_nat_eq_self)
  show "unat (shr (ucast b) 4) = unat b div 16"
    unfolding shr_def unat_drop_bit_eq b by (simp add: drop_bit_eq_div)
  have "(0x0f :: word32) = mask 4" by (simp add: mask_eq_exp_minus_1)
  then have "unat (ucast b AND 0x0f :: word32) = take_bit 4 (unat (ucast b :: word32))"
    by (metis take_bit_eq_mask unsigned_take_bit_eq)
  then show "unat (ucast b AND 0x0f :: word32) = unat b mod 16"
    by (simp add: b take_bit_eq_mod)
qed

definition hex_pair :: "byte \<Rightarrow> jsstring" where
  "hex_pair b = [hex_char (unat b div 16), hex_char (unat b mod 16)]"

lemma Hex_stringify_bytes: "Hex_stringify w = concat (map hex_pair (wa_bytes w))"
  by (simp add: Hex_stringify_def wa_bytes_def hex_pair_def Let_def unat_nibbles comp_def flip: ucast_wbyte)

lemma to_int32_hex_pair: "to_int32 (parseInt16 (hex_pair b)) = ucast b"
proof -
  have "unat b < 256" using unat_byte_less [of b] by simp
  then have "parseInt16 (hex_pair b) = Some (int (unat b))"
    by (simp add: hex_pair_def parseInt16_pair)
  then show ?thesis by (simp add: to_int32_def)
qed

lemma Hex_parse_eq:
  assumes "length s = 2 * m"
  shows "Hex_parse s = Some (WordArray_init
    (fold (\<lambda>j ws. or_byte ws j (to_int32 (parseInt16 (take 2 (drop (j * 2) s))))) [0..<m] []) (Some m))"
proof -
  have "(j * 2) div 8 = j div 4" "24 - (j * 2) mod 8 * 4 = 24 - (j mod 4) * 8" for j :: nat
    using mod_mult_mult2 [of j 2 4] div_mult_mult2 [of 2 j 4] by simp_all
  then show ?thesis
    using assms by (simp add: Hex_parse_def js_steps_def fold_map comp_def or_byte_def Let_def)
qed

lemma Hex_round_trip: "\<exists>v. Hex_parse (Hex_stringify w) = Some v \<and> wa_bytes v = wa_bytes w"
proof -
  define bs where "bs = wa_bytes w"
  have s: "Hex_stringify w = concat (map (\<lambda>i. hex_pair (bs ! i)) [0..<length bs])"
    by (simp only: Hex_stringify_bytes bs_def map_index)
  have len: "length (Hex_stringify w) = 2 * length bs"
    by (simp add: Hex_stringify_bytes bs_def length_concat comp_def hex_pair_def sum_list_triv)
  have "fold (\<lambda>j ws. or_byte ws j (to_int32 (parseInt16 (take 2 (drop (j * 2) (Hex_stringify w)))))) [0..<length bs] [] =
      fold (\<lambda>j ws. or_byte ws j (ucast (bs ! j))) [0..<length bs] []"
  proof (rule fold_cong)
    fix j assume "j \<in> set [0..<length bs]"
    then have "take 2 (drop (j * 2) (Hex_stringify w)) = hex_pair (bs ! j)"
      unfolding s by (intro take_drop_chunk) (simp_all add: hex_pair_def)
    then show "(\<lambda>ws. or_byte ws j (to_int32 (parseInt16 (take 2 (drop (j * 2) (Hex_stringify w)))))) =
        (\<lambda>ws. or_byte ws j (ucast (bs ! j)))"
      by (simp add: to_int32_hex_pair)
  qed simp_all
  then show ?thesis
    using Hex_parse_eq [OF len] bytes_of_fold [of "\<lambda>j. bs ! j" "length bs"]
      map_nth [of "wa_bytes w"]
    by (simp add: bs_def)
qed

interpretation hex: text_encoder Hex_stringify Hex_parse "\<lambda>_. True"
proof
  show "\<exists>v. Hex_parse (Hex_stringify w) = Some v \<and> wa_bytes v = wa_bytes w" for w
    by (rule Hex_round_trip)
  show "wa_bytes w = wa_bytes v \<Longrightarrow> Hex_stringify w = Hex_stringify v" for w v
    by (simp add: Hex_stringify_bytes)
qed

lemma ucast_and_ff: "ucast (c :: jschar) AND (0xff :: word32) = ucast (ucast c :: byte)"
proof (rule bit_word_eqI)
  fix n assume "n < LENGTH(32)"
  show "bit (ucast c AND (0xff :: word32)) n = bit (ucast (ucast c :: byte) :: word32) n"
    unfolding bit_and_iff bit_mask8 bit_ucast_iff by auto
qed

lemma wa_bytes_Latin1_parse: "wa_bytes (Latin1_parse s) = map ucast s"
  using bytes_of_fold [of "\<lambda>i. ucast (s ! i)" "length s"]
  by (simp add: Latin1_parse_def ucast_and_ff map_index [of ucast])

lemma Latin1_stringify_bytes: "Latin1_stringify w = map ucast (wa_bytes w)"
proof -
  have "(ucast (get_byte ws i) :: jschar) = ucast (wbyte ws i)" for ws i
    unfolding ucast_wbyte [symmetric] by (rule bit_word_eqI) (auto simp: bit_ucast_iff dest: byte_bit_len)
  then show ?thesis by (simp add: Latin1_stringify_def wa_bytes_def)
qed

interpretation latin1: text_encoder Latin1_stringify "\<lambda>s. Some (Latin1_parse s)" "\<lambda>_. True"
proof
  fix w v :: WordArray
  have "ucast (ucast (b :: byte) :: jschar) = b" for b
    by (rule bit_word_eqI) (auto simp: bit_ucast_iff)
  then show "\<exists>v. Some (Latin1_parse (Latin1_stringify w)) = Some v \<and> wa_bytes v = wa_bytes w"
    by (simp add: wa_bytes_Latin1_parse Latin1_stringify_bytes comp_def)
  show "wa_bytes w = wa_bytes v \<Longrightarrow> Latin1_stringify w = Latin1_stringify v"
    by (simp add: Latin1_stringify_bytes)
qed

subsection \<open>UTF-16 round trips\<close>

definition hi_byte :: "jschar \<Rightarrow> byte" where
  "hi_byte c = ucast (drop_bit 8 c)"

definition lo_byte :: "jschar \<Rightarrow> byte" where
  "lo_byte c = ucast c"

definition join_bytes :: "byte \<Rightarrow> byte \<Rightarrow> jschar" where
  "join_bytes a b = push_bit 8 (ucast a) OR ucast b"

lemma bit_hi_byte: "bit (hi_byte c) k \<longleftrightarrow> k < 8 \<and> bit c (8 + k)"
  by (auto simp: hi_byte_def bit_ucast_iff bit_drop_bit_eq)

lemma bit_lo_byte: "bit (lo_byte c) k \<longleftrightarrow> k < 8 \<and> bit c k"
  by (auto simp: lo_byte_def bit_ucast_iff)

lemma bit_join_bytes:
  "bit (join_bytes a b) k \<longleftrightarrow> (if k < 8 then bit b k else k < 16 \<and> bit a (k - 8))"
  by (auto simp: join_bytes_def bit_or_iff bit_push_bit_iff bit_ucast_iff dest: byte_bit_len)

lemma join_bytes_simps [simp]:
  "hi_byte (join_bytes a b) = a" "lo_byte (join_bytes a b) = b" "join_bytes (hi_byte c) (lo_byte c) = c"
proof -
  show "join_bytes (hi_byte c) (lo_byte c) = c"
  proof (rule bit_word_eqI)
    fix n assume "n < LENGTH(16)"
    then have "n < 8 \<or> (n - 8 < 8 \<and> 8 + (n - 8) = n \<and> n < 16)" by auto
    then show "bit (join_bytes (hi_byte c) (lo_byte c)) n = bit c n"
      by (auto simp: bit_hi_byte bit_lo_byte bit_join_bytes)
  qed
qed (rule bit_word_eqI; simp add: bit_hi_byte bit_lo_byte bit_join_bytes)+

lemma half_word:
  assumes "even i"
  shows "ucast (shr (wget ws (i div 4)) (16 - (i mod 4) * 8) AND 0xffff) = join_bytes (wbyte ws i) (wbyte ws (Suc i))"
proof (rule bit_word_eqI)
  fix k assume "k < LENGTH(16)"
  then have k: "k < 16" by simp
  have i: "i mod 4 = 0 \<and> Suc i mod 4 = 1 \<and> Suc i div 4 = i div 4 \<or> i mod 4 = 2 \<and> Suc i mod 4 = 3 \<and> Suc i div 4 = i div 4"
    using assms by presburger
  then show "bit (ucast (shr (wget ws (i div 4)) (16 - (i mod 4) * 8) AND 0xffff) :: jschar) k =
      bit (join_bytes (wbyte ws i) (wbyte ws (Suc i))) k"
    using k unfolding bit_ucast_iff bit_and_iff bit_mask16 bit_join_bytes bit_wbyte bit_shr
    by (elim disjE conjE) (auto simp: less_diff_conv)
qed

lemma div_4_double: "(2 * i) div 4 = i div (2 :: nat)" "(2 * i + 1) div 4 = i div (2 :: nat)"
  using div_mult2_eq [of "2 * i" 2 2] div_mult2_eq [of "2 * i + 1" 2 2] by simp_all

definition or_half :: "word32 list \<Rightarrow> nat \<Rightarrow> jschar \<Rightarrow> word32 list" where
  "or_half ws i c = wset ws (i div 2) (wget ws (i div 2) OR shl (ucast c) (16 - (i mod 2) * 16))"

lemma or_half_bytes:
  "wbyte (or_half ws i c) j =
     (if j = 2 * i then wbyte ws j OR hi_byte c else if j = 2 * i + 1 then wbyte ws j OR lo_byte c
      else wbyte ws j)"
proof (rule bit_word_eqI)
  fix k assume "k < LENGTH(8)"
  then have k: "k < 8" by simp
  show "bit (wbyte (or_half ws i c) j) k =
      bit (if j = 2 * i then wbyte ws j OR hi_byte c else if j = 2 * i + 1 then wbyte ws j OR lo_byte c
      else wbyte ws j) k"
  proof (cases "j div 4 = i div 2")
    case False
    then have "j \<noteq> 2 * i" "j \<noteq> 2 * i + 1" using div_4_double by auto
    then show ?thesis using False by (simp add: bit_wbyte or_half_def)
  next
    case True
    have j: "j = 4 * (i div 2) + j mod 4" "i = 2 * (i div 2) + i mod 2" using True mult_div_mod_eq [of 4 j] by simp_all
    have cases: "i mod 2 \<in> {0, 1}" "j mod 4 \<in> {0, 1, 2, 3}" by auto
    have eq: "j = 2 * i \<longleftrightarrow> j mod 4 = 2 * (i mod 2)" "j = 2 * i + 1 \<longleftrightarrow> j mod 4 = 2 * (i mod 2) + 1"
      using j by linarith+
    have "bit (shl (ucast c) (16 - (i mod 2) * 16)) (24 - j mod 4 * 8 + k) \<longleftrightarrow>
        (j mod 4 = 2 * (i mod 2) \<and> bit c (8 + k)) \<or> (j mod 4 = 2 * (i mod 2) + 1 \<and> bit c k)"
    proof -
      have len: "bit c n \<Longrightarrow> n < 16" for n using bit_imp_le_length [of c n] by simp
      show ?thesis using cases k
        by (elim insertE emptyE) (auto simp: bit_shl bit_ucast_iff dest: len)
    qed
    with True k eq show ?thesis
      by (auto simp: bit_wbyte or_half_def bit_or_iff bit_hi_byte bit_lo_byte)
  qed
qed

definition unit_bytes :: "jschar \<Rightarrow> bytes" where
  "unit_bytes c = [hi_byte c, lo_byte c]"

lemma fold_or_half:
  "wbyte (fold (\<lambda>i ws. or_half ws i (f i)) [0..<m] []) j =
     (if j < 2 * m then unit_bytes (f (j div 2)) ! (j mod 2) else 0)"
proof (induction m)
  case (Suc m)
  have "j = 2 * m \<Longrightarrow> j div 2 = m \<and> j mod 2 = 0" "j = 2 * m + 1 \<Longrightarrow> j div 2 = m \<and> j mod 2 = 1" by simp_all
  then show ?case
    using Suc by (auto simp: or_half_bytes unit_bytes_def)
qed simp

lemma concat_units_nth:
  "j < 2 * length s \<Longrightarrow> concat (map unit_bytes s) ! j = unit_bytes (s ! (j div 2)) ! (j mod 2)"
proof (induction s arbitrary: j)
  case (Cons a s)
  consider "j = 0" | "j = 1" | i where "j = Suc (Suc i)" by (metis One_nat_def not0_implies_Suc)
  then show ?case
  proof cases
    case 3
    then show ?thesis using Cons by (simp add: unit_bytes_def)
  qed (simp_all add: unit_bytes_def)
qed simp

lemma wa_bytes_Utf16_parse: "wa_bytes (Utf16_parse s) = concat (map unit_bytes s)"
proof (rule nth_equalityI)
  have len: "length (concat (map unit_bytes s)) = 2 * length s"
    by (simp add: length_concat comp_def unit_bytes_def sum_list_triv)
  show "length (wa_bytes (Utf16_parse s)) = length (concat (map unit_bytes s))"
    by (simp add: len) (simp add: Utf16_parse_def WordArray_init_def)
  fix j assume "j < length (wa_bytes (Utf16_parse s))"
  then have j: "j < 2 * length s" by (simp add: Utf16_parse_def WordArray_init_def)
  note concat_units_nth [OF j]
  with j show "wa_bytes (Utf16_parse s) ! j = concat (map unit_bytes s) ! j"
    using fold_or_half [of "\<lambda>i. s ! i" "length s" j]
    by (simp add: wa_bytes_def Utf16_parse_def WordArray_init_def flip: or_half_def)
qed

lemma Utf16_stringify_bytes:
  "Utf16_stringify w = map (\<lambda>i. join_bytes (wbyte (words w) (i * 2)) (wbyte (words w) (Suc (i * 2)))) [0..<(sigBytes w + 1) div 2]"
proof -
  have steps: "js_steps (sigBytes w) 2 = map (\<lambda>i. i * 2) [0..<(sigBytes w + 1) div 2]"
    by (simp add: js_steps_def)
  show ?thesis
    unfolding Utf16_stringify_def steps map_map comp_def
    by (rule map_cong [OF refl]) (rule half_word, simp)
qed

lemma Utf16_round_trip: "even (sigBytes w) \<Longrightarrow> wa_bytes (Utf16_parse (Utf16_stringify w)) = wa_bytes w"
proof (rule nth_equalityI)
  assume "even (sigBytes w)"
  then obtain m where m: "sigBytes w = 2 * m" by (elim evenE)
  then have s: "Utf16_stringify w = map (\<lambda>i. join_bytes (wbyte (words w) (i * 2)) (wbyte (words w) (Suc (i * 2)))) [0..<m]"
    by (simp add: Utf16_stringify_bytes)
  have len: "sigBytes (Utf16_parse (Utf16_stringify w)) = 2 * m"
    by (simp add: Utf16_parse_def WordArray_init_def s)
  then show "length (wa_bytes (Utf16_parse (Utf16_stringify w))) = length (wa_bytes w)" using m by simp
  fix j assume "j < length (wa_bytes (Utf16_parse (Utf16_stringify w)))"
  then have j: "j < 2 * m" using len by simp
  have "wa_bytes (Utf16_parse (Utf16_stringify w)) ! j = unit_bytes (Utf16_stringify w ! (j div 2)) ! (j mod 2)"
    unfolding wa_bytes_Utf16_parse using j by (intro concat_units_nth) (simp add: s)
  also have "\<dots> = wbyte (words w) j"
  proof -
    consider i where "j = i * 2" "i < m" | i where "j = Suc (i * 2)" "i < m"
      using j by (cases "even j") (auto elim!: evenE oddE simp: mult.commute)
    then show ?thesis by cases (simp_all add: s unit_bytes_def mod_Suc)
  qed
  finally show "wa_bytes (Utf16_parse (Utf16_stringify w)) ! j = wa_bytes w ! j"
    using j m by (simp add: nth_wa_bytes)
qed

lemma Utf16_stringify_cong:
  assumes "even (sigBytes w)" "wa_bytes w = wa_bytes v"
  shows "Utf16_stringify w = Utf16_stringify v"
proof -
  obtain m where m: "sigBytes w = 2 * m" using assms(1) by (elim evenE)
  have "wbyte (words w) i = wbyte (words v) i" if "i < 2 * m" for i
    using wa_bytes_eqD(2) [OF assms(2)] that m by simp
  then show ?thesis
    using m wa_bytes_eqD(1) [OF assms(2)] by (auto simp: Utf16_stringify_bytes)
qed

text \<open>The little-endian variant is the same with the two bytes of every code unit swapped.\<close>

definition swap_unit :: "jschar \<Rightarrow> jschar" where
  "swap_unit c = join_bytes (lo_byte c) (hi_byte c)"

lemma swap_unit_twice [simp]: "swap_unit (swap_unit c) = c"
  by (simp add: swap_unit_def)

lemma bit_swapEndian: "bit (swapEndian w) k \<longleftrightarrow> k < 32 \<and> (if even (k div 8) then bit w (k + 8) else bit w (k - 8))"
proof (cases "k < 32")
  case False
  then show ?thesis using word32_bit_len by blast
next
  case True
  have "(0xff00ff00 :: word32) = push_bit 8 (mask 8) OR push_bit 24 (mask 8)"
    "(0x00ff00ff :: word32) = mask 8 OR push_bit 16 (mask 8)"
    by (simp_all add: mask_eq_exp_minus_1)
  note masks = this
  define j where "j = k mod 8"
  have j: "j < 8" by (simp add: j_def)
  then have d: "(j + 8) div 8 = 1" "(j + 16) div 8 = 2" "(j + 24) div 8 = 3" by linarith+
  have e: "Suc (Suc (Suc (Suc (Suc (Suc (Suc (Suc j))))))) = j + 8" by simp
  have "k = 8 * (k div 8) + j" "k div 8 < 4" using True by (simp_all add: j_def)
  moreover from this have "k div 8 = 0 \<or> k div 8 = 1 \<or> k div 8 = 2 \<or> k div 8 = 3" by linarith
  ultimately consider "k = j" | "k = j + 8" | "k = j + 16" | "k = j + 24" by force
  then show ?thesis
    unfolding swapEndian_def masks using j
    by cases (auto simp: bit_or_iff bit_and_iff bit_shl bit_shr bit_push_bit_iff bit_mask_iff d e add.commute [of 8 j])
qed

lemma swapEndian_low: "ucast (swapEndian (x AND 0xffff)) = swap_unit (ucast (x AND 0xffff))"
proof (rule bit_word_eqI)
  fix k assume "k < LENGTH(16)"
  then have k: "k < 16" by simp
  have d: "even (k div 8) \<longleftrightarrow> k < 8"
  proof -
    have "k div 8 = (if k < 8 then 0 else 1)" using k by auto
    then show ?thesis by simp
  qed
  show "bit (ucast (swapEndian (x AND 0xffff)) :: jschar) k = bit (swap_unit (ucast (x AND 0xffff))) k"
    unfolding bit_ucast_iff bit_swapEndian d swap_unit_def bit_join_bytes bit_hi_byte bit_lo_byte bit_and_iff bit_mask16
    using k by (cases "k < 8") (auto simp: add.commute)
qed

lemma swapEndian_shl:
  assumes "n = 0 \<or> n = 16"
  shows "swapEndian (shl (ucast c) n) = shl (ucast (swap_unit c)) n"
proof (rule bit_word_eqI)
  fix k assume "k < LENGTH(32)"
  then have k: "k < 32" by simp
  define j where "j = k mod 8"
  have j: "j < 8" by (simp add: j_def)
  then have d: "j div 8 = 0" "(j + 8) div 8 = 1" "(j + 16) div 8 = 2" "(j + 24) div 8 = 3" by linarith+
  have "k = 8 * (k div 8) + j" "k div 8 < 4" using k by (simp_all add: j_def)
  moreover from this have "k div 8 = 0 \<or> k div 8 = 1 \<or> k div 8 = 2 \<or> k div 8 = 3" by linarith
  ultimately have "k = j \<or> k = j + 8 \<or> k = j + 16 \<or> k = j + 24" by force
  moreover have len: "bit c i \<Longrightarrow> i < 16" for i using bit_imp_le_length [of c i] by simp
  ultimately show "bit (swapEndian (shl (ucast c) n)) k = bit (shl (ucast (swap_unit c)) n) k"
    using assms j
    by (elim disjE)
      (auto simp: bit_swapEndian bit_shl bit_ucast_iff swap_unit_def bit_join_bytes bit_hi_byte bit_lo_byte d
        add.commute [of 8 j] dest: len)
qed

lemma Utf16LE_stringify_swap: "Utf16LE_stringify w = map swap_unit (Utf16_stringify w)"
  by (simp add: Utf16LE_stringify_def Utf16_stringify_def swapEndian_low)

lemma Utf16LE_parse_swap: "Utf16LE_parse s = Utf16_parse (map swap_unit s)"
proof -
  have "swapEndian (shl (ucast c) (16 - i mod 2 * 16)) = shl (ucast (swap_unit c)) (16 - i mod 2 * 16)" for c i
    by (rule swapEndian_shl) (cases "even i", simp_all add: odd_iff_mod_2_eq_one)
  then show ?thesis
    unfolding Utf16LE_parse_def Utf16_parse_def
    by (auto intro!: arg_cong2 [where f = WordArray_init] fold_cong)
qed

interpretation utf16: text_encoder Utf16_stringify "Some \<circ> Utf16_parse" even
  by unfold_locales (simp add: Utf16_round_trip, rule Utf16_stringify_cong)

interpretation utf16le: text_encoder Utf16LE_stringify "Some \<circ> Utf16LE_parse" even
proof unfold_locales
  show "\<exists>v. (Some \<circ> Utf16LE_parse) (Utf16LE_stringify w) = Some v \<and> wa_bytes v = wa_bytes w"
    if "even (sigBytes w)" for w
    using that by (simp add: Utf16LE_stringify_swap Utf16LE_parse_swap comp_def Utf16_round_trip)
  show "Utf16LE_stringify w = Utf16LE_stringify v" if "even (sigBytes w)" "wa_bytes w = wa_bytes v" for w v
    using Utf16_stringify_cong [OF that] by (simp add: Utf16LE_stringify_swap)
qed

end
