(* ===== verification/Base64.thy ===== *)
theory Base64
  imports Encodings
begin

text \<open>
  Module \<^verbatim>\<open>enc-base64\<close> of CryptoJS (\<^verbatim>\<open>src/internal/jsre/deps/web3.js\<close>). The parser ORs unmasked
  12-bit values into the words; that the surplus bits are those of the byte before is part of the proof that
  it inverts \<^verbatim>\<open>stringify\<close>.
\<close>

subsection \<open>The code\<close>

definition base64_map :: jsstring where
  "base64_map = map (\<lambda>c. of_nat (of_char c))
     ''ABCDEFGHIJKLMNOPQRSTUVWXYZabcdefghijklmnopqrstuvwxyz0123456789+/=''"

text \<open>\<^verbatim>\<open>i + j * 0.75 < sigBytes\<close>, in quarters.\<close>

definition Base64_stringify :: "WordArray \<Rightarrow> jsstring" where
  "Base64_stringify w0 =
     (let w = wa_clamp w0;
          chars = concat (map (\<lambda>i.
            let byte1 = get_byte (words w) i;
                byte2 = get_byte (words w) (i + 1);
                byte3 = get_byte (words w) (i + 2);
                triplet = shl byte1 16 OR shl byte2 8 OR byte3
            in map (\<lambda>j. base64_map ! unat (shr triplet (6 * (3 - j)) AND 0x3f))
                 (filter (\<lambda>j. 4 * i + 3 * j < 4 * sigBytes w) [0..<4])) (js_steps (sigBytes w) 3))
      in chars @ replicate ((4 - length chars mod 4) mod 4) (base64_map ! 64))"

text \<open>\<^verbatim>\<open>reverseMap[c]\<close>; a missing entry is \<^verbatim>\<open>undefined\<close> and counts as 0.\<close>

definition base64_reverse :: "jschar \<Rightarrow> word32" where
  "base64_reverse c =
     (case find (\<lambda>j. base64_map ! j = c) [0..<65] of None \<Rightarrow> 0 | Some j \<Rightarrow> of_nat j)"

definition base64_parseLoop :: "jsstring \<Rightarrow> nat \<Rightarrow> WordArray" where
  "base64_parseLoop s len =
     (let (ws, nBytes) = fold (\<lambda>i (ws, nBytes).
            if i mod 4 \<noteq> 0 then
              let bits1 = shl (base64_reverse (s ! (i - 1))) ((i mod 4) * 2);
                  bits2 = shr (base64_reverse (s ! i)) (6 - (i mod 4) * 2)
              in (or_byte ws nBytes (bits1 OR bits2), nBytes + 1)
            else (ws, nBytes)) [0..<len] ([], 0)
      in WordArray_init ws (Some nBytes))"

definition Base64_parse :: "jsstring \<Rightarrow> WordArray" where
  "Base64_parse s =
     base64_parseLoop s (length (takeWhile (\<lambda>c. c \<noteq> base64_map ! 64) s))"

subsection \<open>Symbols and triplets\<close>

lemma base64_map_length [simp]: "length base64_map = 65"
  by (simp add: base64_map_def)

lemma base64_map_distinct: "distinct base64_map"
  unfolding base64_map_def by simp

lemma find_upt: "j < n \<Longrightarrow> find (\<lambda>i. i = j) [0..<n] = Some j"
  by (subst find_Some_iff) (rule exI [of _ j], simp)

lemma base64_reverse_map: "j < 65 \<Longrightarrow> base64_reverse (base64_map ! j) = of_nat j"
proof -
  assume j: "j < 65"
  have "find (\<lambda>i. base64_map ! i = base64_map ! j) [0..<65] = find (\<lambda>i. i = j) [0..<65]"
    using j base64_map_distinct by (intro find_cong) (auto simp: nth_eq_iff_index_eq)
  also have "\<dots> = Some j"
    using j by (rule find_upt)
  finally show ?thesis by (simp add: base64_reverse_def)
qed

definition triplet :: "(nat \<Rightarrow> byte) \<Rightarrow> nat \<Rightarrow> word32" where
  "triplet b q = shl (ucast (b (3 * q))) 16 OR shl (ucast (b (3 * q + 1))) 8 OR ucast (b (3 * q + 2))"

definition sextet :: "(nat \<Rightarrow> byte) \<Rightarrow> nat \<Rightarrow> nat \<Rightarrow> word32" where
  "sextet b q j = shr (triplet b q) (6 * (3 - j)) AND 0x3f"

lemma bit_triplet:
  assumes "p < 3" "k < 8"
  shows "bit (triplet b q) (8 * p + k) = bit (b (3 * q + (2 - p))) k"
proof -
  have len: "bit (c :: byte) i \<Longrightarrow> i < 8" for c i by (rule byte_bit_len)
  have "p = 0 \<or> p = 1 \<or> p = 2" using assms(1) by auto
  then show ?thesis
    using assms(2) by (elim disjE) (auto simp: triplet_def bit_or_iff bit_shl bit_ucast_iff dest: len)
qed

lemma bit_mask6: "bit (0x3f :: word32) k \<longleftrightarrow> k < 6"
proof -
  have m: "(0x3f :: word32) = mask 6" by (simp add: mask_eq_exp_minus_1)
  show ?thesis unfolding m by (auto simp: bit_mask_iff)
qed

lemma bit_sextet: "bit (sextet b q j) k \<longleftrightarrow> k < 6 \<and> bit (triplet b q) (6 * (3 - j) + k)"
  unfolding sextet_def bit_and_iff bit_shr bit_mask6 by (auto simp: add.commute)

lemma unat_sextet: "unat (sextet b q j) < 64"
proof -
  have "sextet b q j \<le> 0x3f" by (simp add: sextet_def word_and_le1)
  then show ?thesis by (simp add: word_le_nat_alt)
qed

text \<open>What the parser ORs in for symbol \<open>r\<close> of a group: the byte itself, and above it bits of the byte before.\<close>

definition joined :: "(nat \<Rightarrow> byte) \<Rightarrow> nat \<Rightarrow> nat \<Rightarrow> word32" where
  "joined b q r = shl (sextet b q (r - 1)) (r * 2) OR shr (sextet b q r) (6 - r * 2)"

lemma bit_joined:
  assumes "0 < r" "r < 4"
  shows "bit (joined b q r) k \<longleftrightarrow> k < 2 * r + 6 \<and> bit (triplet b q) (8 * (3 - r) + k)"
proof -
  have r: "r = 1 \<or> r = 2 \<or> r = 3" using assms by auto
  have e: "bit (joined b q r) k \<longleftrightarrow>
      (2 * r \<le> k \<and> k < 32 \<and> k - 2 * r < 6 \<and> bit (triplet b q) (6 * (4 - r) + (k - 2 * r))) \<or>
      (k + (6 - 2 * r) < 6 \<and> bit (triplet b q) (6 * (3 - r) + (k + (6 - 2 * r))))"
    using r by (elim disjE) (auto simp: joined_def bit_or_iff bit_shl bit_shr bit_sextet)
  show ?thesis
  proof (cases "2 * r \<le> k")
    case True
    then have "6 * (4 - r) + (k - 2 * r) = 8 * (3 - r) + k" using r by auto
    then show ?thesis unfolding e using True r by auto
  next
    case False
    then have "6 * (3 - r) + (k + (6 - 2 * r)) = 8 * (3 - r) + k" using r by auto
    then show ?thesis unfolding e using False r by auto
  qed
qed

subsection \<open>What stringify prints\<close>

definition wa_byte :: "WordArray \<Rightarrow> nat \<Rightarrow> byte" where
  "wa_byte w i = (if i < sigBytes w then wbyte (words w) i else 0)"

definition base64_count :: "nat \<Rightarrow> nat" where
  "base64_count n = 4 * (n div 3) + (if n mod 3 = 0 then 0 else n mod 3 + 1)"

definition base64_symbol :: "(nat \<Rightarrow> byte) \<Rightarrow> nat \<Rightarrow> jschar" where
  "base64_symbol b t = base64_map ! unat (sextet b (t div 4) (t mod 4))"

lemma filter_less_upt: "filter (\<lambda>j. j < m) [0..<n] = [0..<min m n]"
  by (induction n) (auto simp: min_def le_Suc_eq)

lemma full_group: "3 * q + 3 \<le> n \<Longrightarrow> filter (\<lambda>j. 4 * (3 * q) + 3 * j < 4 * n) [0..<4] = [0..<4]"
  by (rule filter_True) auto

lemma last_group:
  assumes "n mod 3 \<noteq> 0"
  shows "filter (\<lambda>j. 4 * (3 * (n div 3)) + 3 * j < 4 * n) [0..<4] = [0..<n mod 3 + 1]"
proof -
  have n: "n = 3 * (n div 3) + n mod 3" by simp
  have r: "n mod 3 = 1 \<or> n mod 3 = 2" using assms by auto
  then have "4 * (3 * (n div 3)) + 3 * j < 4 * n \<longleftrightarrow> j < n mod 3 + 1" for j using n by linarith
  then have "filter (\<lambda>j. 4 * (3 * (n div 3)) + 3 * j < 4 * n) [0..<4] = filter (\<lambda>j. j < n mod 3 + 1) [0..<4]" by simp
  also have "\<dots> = [0..<n mod 3 + 1]" using r by (auto simp: filter_less_upt)
  finally show ?thesis .
qed

lemma upt_plus: "[0..<a + n] = [0..<a] @ map (\<lambda>j. a + j) [0..<n]"
  by (induction n) simp_all

lemma map_groups: "concat (map (\<lambda>q. map (g q) [0..<4]) [0..<m]) = map (\<lambda>t. g (t div 4) (t mod 4)) [0..<4 * m]"
proof (induction m)
  case (Suc m)
  have "[0..<4 * Suc m] = [0..<4 * m] @ map (\<lambda>j. 4 * m + j) [0..<4]"
    using upt_plus [of "4 * m" 4] by (simp add: add.commute)
  moreover have "map (\<lambda>j. g ((4 * m + j) div 4) ((4 * m + j) mod 4)) [0..<4] = map (g m) [0..<4]"
    by (rule map_cong [OF refl]) simp
  ultimately show ?case using Suc by (simp add: comp_def del: upt_rec_numeral)
qed simp

lemma base64_groups:
  "concat (map (\<lambda>q. map (g q) (filter (\<lambda>j. 4 * (3 * q) + 3 * j < 4 * n) [0..<4])) [0..<(n + 2) div 3]) =
     map (\<lambda>t. g (t div 4) (t mod 4)) [0..<base64_count n]"
proof -
  define h where "h q = map (g q) (filter (\<lambda>j. 4 * (3 * q) + 3 * j < 4 * n) [0..<4])" for q
  have full: "concat (map h [0..<n div 3]) = map (\<lambda>t. g (t div 4) (t mod 4)) [0..<4 * (n div 3)]"
  proof -
    have "map h [0..<n div 3] = map (\<lambda>q. map (g q) [0..<4]) [0..<n div 3]"
      unfolding h_def by (rule map_cong [OF refl], subst full_group) auto
    then show ?thesis by (simp only: map_groups)
  qed
  have "concat (map h [0..<(n + 2) div 3]) = map (\<lambda>t. g (t div 4) (t mod 4)) [0..<base64_count n]"
  proof (cases "n mod 3 = 0")
    case True
    then have "(n + 2) div 3 = n div 3" by presburger
    then show ?thesis using full True by (simp add: base64_count_def)
  next
    case False
    then have s: "(n + 2) div 3 = Suc (n div 3)" by presburger
    have r: "n mod 3 + 1 \<le> 3" by (simp add: Suc_leI)
    have up: "[0..<4 * (n div 3) + (n mod 3 + 1)] =
        [0..<4 * (n div 3)] @ map (\<lambda>j. 4 * (n div 3) + j) [0..<n mod 3 + 1]"
      by (rule upt_plus)
    have rest: "h (n div 3) = map (g (n div 3)) [0..<n mod 3 + 1]"
      unfolding h_def using False by (subst last_group) auto
    have shift: "map (\<lambda>j. g ((4 * (n div 3) + j) div 4) ((4 * (n div 3) + j) mod 4)) [0..<n mod 3 + 1] =
        map (g (n div 3)) [0..<n mod 3 + 1]"
      using r by (intro map_cong [OF refl]) (auto simp del: upt_Suc)
    have "concat (map h [0..<(n + 2) div 3]) = concat (map h [0..<n div 3]) @ h (n div 3)" unfolding s by simp
    then show ?thesis
      by (simp only: full rest base64_count_def False if_False up map_append map_map comp_def shift)
  qed
  then show ?thesis unfolding h_def .
qed

lemma Base64_stringify_symbols:
  fixes w :: WordArray
  defines "chars \<equiv> map (base64_symbol (wa_byte w)) [0..<base64_count (sigBytes w)]"
  shows "Base64_stringify w = chars @ replicate ((4 - length chars mod 4) mod 4) (base64_map ! 64)"
proof -
  define n where "n = sigBytes w"
  have byte: "get_byte (words (wa_clamp w)) i = ucast (wa_byte w i)" for i
    by (simp add: wa_byte_def wbyte_clamp flip: ucast_wbyte)
  have steps: "js_steps n 3 = map (\<lambda>q. 3 * q) [0..<(n + 2) div 3]"
    by (simp add: js_steps_def mult.commute)
  have "concat (map (\<lambda>i. map (\<lambda>j. base64_map ! unat (shr (shl (ucast (wa_byte w i)) 16 OR
      shl (ucast (wa_byte w (i + 1))) 8 OR ucast (wa_byte w (i + 2))) (6 * (3 - j)) AND 0x3f))
      (filter (\<lambda>j. 4 * i + 3 * j < 4 * n) [0..<4])) (js_steps n 3)) = chars"
    unfolding steps map_map comp_def triplet_def [symmetric] sextet_def [symmetric] base64_groups
    by (simp add: chars_def base64_symbol_def n_def)
  then show ?thesis
    unfolding Base64_stringify_def Let_def byte sigBytes_clamp n_def [symmetric] by simp
qed

lemma base64_symbol_plain: "base64_symbol b t \<noteq> base64_map ! 64"
  using unat_sextet [of b "t div 4" "t mod 4"] base64_map_distinct
  by (auto simp: base64_symbol_def nth_eq_iff_index_eq)

lemma base64_reverse_symbol: "base64_reverse (base64_symbol b t) = sextet b (t div 4) (t mod 4)"
  using unat_sextet [of b "t div 4" "t mod 4"] by (simp add: base64_symbol_def base64_reverse_map)

subsection \<open>What parse reads\<close>

lemma wbyte_or_byte_wide:
  assumes "\<And>k. bit v k \<Longrightarrow> k < 16"
  shows "wbyte (or_byte ws i v) j =
    (if j = i then wbyte ws j OR ucast v
     else if Suc j = i \<and> i mod 4 \<noteq> 0 then wbyte ws j OR ucast (drop_bit 8 v) else wbyte ws j)"
proof (rule bit_word_eqI)
  fix k assume "k < LENGTH(8)"
  then have k: "k < 8" by simp
  show "bit (wbyte (or_byte ws i v) j) k = bit (if j = i then wbyte ws j OR ucast v
     else if Suc j = i \<and> i mod 4 \<noteq> 0 then wbyte ws j OR ucast (drop_bit 8 v) else wbyte ws j) k"
  proof (cases "j div 4 = i div 4")
    case False
    then have "j \<noteq> i" "\<not> (Suc j = i \<and> i mod 4 \<noteq> 0)" by (auto, presburger)
    then show ?thesis using False by (auto simp: bit_wbyte or_byte_def)
  next
    case True
    have ij: "j = 4 * (i div 4) + j mod 4" "i = 4 * (i div 4) + i mod 4" using True mult_div_mod_eq [of 4 j] by simp_all
    have eq: "j = i \<longleftrightarrow> j mod 4 = i mod 4" "Suc j = i \<and> i mod 4 \<noteq> 0 \<longleftrightarrow> Suc (j mod 4) = i mod 4"
      using ij by linarith+
    have mods: "i mod 4 \<in> {0, 1, 2, 3}" "j mod 4 \<in> {0, 1, 2, 3}" by auto
    have "bit (shl v (24 - i mod 4 * 8)) (24 - j mod 4 * 8 + k) \<longleftrightarrow>
        (j mod 4 = i mod 4 \<and> bit v k) \<or> (Suc (j mod 4) = i mod 4 \<and> bit v (8 + k))"
      using mods k by (elim insertE emptyE) (auto simp: bit_shl dest: assms)
    then show ?thesis
      unfolding eq using True k by (auto simp: bit_wbyte or_byte_def bit_or_iff bit_ucast_iff bit_drop_bit_eq)
  qed
qed

lemma joined_byte:
  assumes "0 < r" "r < 4"
  shows "ucast (joined b q r) = b (3 * q + (r - 1))"
proof (rule bit_word_eqI)
  fix k assume "k < LENGTH(8)"
  then have "k < 8" by simp
  moreover have "3 - r < 3" "2 - (3 - r) = r - 1" using assms by auto
  ultimately show "bit (ucast (joined b q r) :: byte) k = bit (b (3 * q + (r - 1))) k"
    using assms bit_triplet [of "3 - r" k b q] by (simp add: bit_ucast_iff bit_joined)
qed

lemma joined_surplus:
  assumes "0 < r" "r < 4" "0 < 3 * q + (r - 1)" "(3 * q + (r - 1)) mod 4 \<noteq> 0"
  shows "b (3 * q + (r - 1) - 1) OR ucast (drop_bit 8 (joined b q r)) = b (3 * q + (r - 1) - 1)"
proof (rule bit_word_eqI)
  fix k assume "k < LENGTH(8)"
  then have k: "k < 8" by simp
  show "bit (b (3 * q + (r - 1) - 1) OR ucast (drop_bit 8 (joined b q r))) k = bit (b (3 * q + (r - 1) - 1)) k"
  proof (cases "r = 1")
    case True
    then show ?thesis using k by (simp add: bit_or_iff bit_ucast_iff bit_drop_bit_eq bit_joined)
  next
    case False
    then have "4 - r < 3" and idx: "3 * q + (2 - (4 - r)) = 3 * q + (r - 1) - 1"
      and pos: "8 * (3 - r) + (8 + k) = 8 * (4 - r) + k"
      using assms by auto
    then have "bit (joined b q r) (8 + k) \<Longrightarrow> bit (b (3 * q + (r - 1) - 1)) k"
      using k bit_triplet [of "4 - r" k b q] unfolding bit_joined [OF assms(1,2)] pos idx by blast
    then show ?thesis by (auto simp: bit_or_iff bit_ucast_iff bit_drop_bit_eq)
  qed
qed

definition parse_step :: "(nat \<Rightarrow> word32) \<Rightarrow> nat \<Rightarrow> word32 list \<times> nat \<Rightarrow> word32 list \<times> nat" where
  "parse_step f i = (\<lambda>(ws, nBytes).
     if i mod 4 \<noteq> 0
     then (or_byte ws nBytes (shl (f (i - 1)) ((i mod 4) * 2) OR shr (f i) (6 - (i mod 4) * 2)), nBytes + 1)
     else (ws, nBytes))"

lemma joined_at:
  assumes "i = 4 * q + r" "0 < r" "r < 4" "\<And>t. t \<le> i \<Longrightarrow> f t = sextet b (t div 4) (t mod 4)"
  shows "shl (f (i - 1)) ((i mod 4) * 2) OR shr (f i) (6 - (i mod 4) * 2) = joined b q r"
proof -
  have "(i - 1) div 4 = q" "(i - 1) mod 4 = r - 1" "i div 4 = q" "i mod 4 = r"
    using assms(1-3) by (auto simp: div_nat_eqI mod_nat_eqI)
  then show ?thesis using assms(4) [of i] assms(4) [of "i - 1"] by (simp add: joined_def)
qed

lemma joined_short: "0 < r \<Longrightarrow> r < 4 \<Longrightarrow> bit (joined b q r) k \<Longrightarrow> k < 16"
  by (auto simp: bit_joined)

lemma parse_fold:
  assumes "\<And>t. t < m \<Longrightarrow> f t = sextet b (t div 4) (t mod 4)"
  shows "\<exists>ws. fold (parse_step f) [0..<m] ([], 0) = (ws, m - (m + 3) div 4) \<and>
    (\<forall>j. wbyte ws j = (if j < m - (m + 3) div 4 then b j else 0))"
  using assms
proof (induction m)
  case (Suc m)
  obtain ws where ws: "fold (parse_step f) [0..<m] ([], 0) = (ws, m - (m + 3) div 4)"
    "\<And>j. wbyte ws j = (if j < m - (m + 3) div 4 then b j else 0)"
    using Suc by (metis less_Suc_eq)
  obtain q r where m: "m = 4 * q + r" "r < 4" "m div 4 = q" "m mod 4 = r" by (rule div_4_split)
  show ?case
  proof (cases "r = 0")
    case True
    then have "m - (m + 3) div 4 = 3 * q" "Suc m - (Suc m + 3) div 4 = 3 * q" using m by simp_all
    moreover have "parse_step f m p = p" for p using True m by (simp add: parse_step_def split: prod.split)
    ultimately show ?thesis using ws by simp
  next
    case False
    then have r: "0 < r" "r < 4" using m by auto
    define k where "k = 3 * q + (r - 1)"
    have "(4 * q + r + 3) div 4 = Suc q" "(4 * q + Suc r + 3) div 4 = Suc q"
      using r by (auto intro!: div_nat_eqI)
    then have k: "m - (m + 3) div 4 = k" "Suc m - (Suc m + 3) div 4 = Suc k" using m r by (simp_all add: k_def)
    have val: "shl (f (m - 1)) ((m mod 4) * 2) OR shr (f m) (6 - (m mod 4) * 2) = joined b q r"
      by (rule joined_at [OF m(1) r]) (simp add: Suc.prems)
    have "fold (parse_step f) [0..<Suc m] ([], 0) = (or_byte ws k (joined b q r), Suc k)"
      using False m(4) ws(1) val unfolding k by (simp add: parse_step_def)
    moreover have "wbyte (or_byte ws k (joined b q r)) j = (if j < Suc k then b j else 0)" for j
    proof -
      have "Suc j = k \<Longrightarrow> k mod 4 \<noteq> 0 \<Longrightarrow> b j OR ucast (drop_bit 8 (joined b q r)) = b j"
        using joined_surplus [OF r, of q b] unfolding k_def [symmetric] by (metis diff_Suc_1 zero_less_Suc)
      moreover have "ucast (joined b q r) = b k" using joined_byte [OF r] by (simp add: k_def)
      ultimately show ?thesis
        by (subst wbyte_or_byte_wide) (use joined_short [OF r] in blast, auto simp: ws(2) k(1))
    qed
    ultimately show ?thesis using k by auto
  qed
qed simp

lemma base64_count_bytes: "base64_count n - (base64_count n + 3) div 4 = n"
proof -
  have n: "n = 3 * (n div 3) + n mod 3" by simp
  have "n mod 3 = 0 \<or> n mod 3 = 1 \<or> n mod 3 = 2" by auto
  then show ?thesis
    using n by (elim disjE) (simp_all add: base64_count_def)
qed

lemma Base64_round_trip: "wa_bytes (Base64_parse (Base64_stringify w)) = wa_bytes w"
proof -
  define m where "m = base64_count (sigBytes w)"
  define chars where "chars = map (base64_symbol (wa_byte w)) [0..<m]"
  define s where "s = Base64_stringify w"
  define f where "f t = base64_reverse (s ! t)" for t
  obtain k where s: "s = chars @ replicate k (base64_map ! 64)"
    using Base64_stringify_symbols [of w] by (auto simp: s_def chars_def m_def)
  have "takeWhile (\<lambda>c. c \<noteq> base64_map ! 64) s = chars"
    unfolding s by (subst takeWhile_append2) (auto simp: chars_def base64_symbol_plain)
  then have len: "length (takeWhile (\<lambda>c. c \<noteq> base64_map ! 64) s) = m" by (simp add: chars_def)
  have "f t = sextet (wa_byte w) (t div 4) (t mod 4)" if "t < m" for t
    using that by (simp add: f_def s nth_append chars_def base64_reverse_symbol)
  from parse_fold [of m f "wa_byte w", OF this] obtain ws where ws: "fold (parse_step f) [0..<m] ([], 0) = (ws, sigBytes w)"
    "\<And>j. wbyte ws j = (if j < sigBytes w then wa_byte w j else 0)"
    unfolding m_def base64_count_bytes by blast
  have "Base64_parse s = WordArray_init ws (Some (sigBytes w))"
    unfolding Base64_parse_def base64_parseLoop_def len
    using ws(1) unfolding parse_step_def [abs_def] f_def Let_def by simp
  then show ?thesis
    using ws(2) by (auto simp: wa_bytes_def WordArray_init_def wa_byte_def simp flip: s_def)
qed

lemma Base64_stringify_cong:
  assumes "wa_bytes w = wa_bytes v"
  shows "Base64_stringify w = Base64_stringify v"
proof -
  have "wa_byte w = wa_byte v" "sigBytes w = sigBytes v"
    using wa_bytes_eqD [OF assms] by (auto simp: wa_byte_def)
  then show ?thesis by (simp add: Base64_stringify_symbols)
qed

interpretation base64: text_encoder Base64_stringify "Some \<circ> Base64_parse" "\<lambda>_. True"
  by unfold_locales (simp add: Base64_round_trip, rule Base64_stringify_cong)

end
