(* ===== verification/Hmac.thy ===== *)
theory Hmac
  imports Merkle_Damgard
begin

text \<open>
  Module \<^verbatim>\<open>hmac\<close> of CryptoJS (\<^verbatim>\<open>src/internal/jsre/deps/web3.js\<close>). A hasher is a record of the four things a
  subtype of \<^verbatim>\<open>Hasher\<close> supplies. What a client may rely on is the locale \<open>hash_object\<close>; every hash function of
  the library interprets it, and the lemmas on HMAC and on the key derivations are proved in it once.
\<close>

subsection \<open>Hashers\<close>

record 'h Hasher =
  h_blockSize :: nat
  h_doReset :: 'h
  h_doProcessBlock :: "'h block_step"
  h_doFinalize :: "'h BufferedBlockAlgorithm \<Rightarrow> WordArray \<times> 'h BufferedBlockAlgorithm"

definition hash_init :: "'h Hasher \<Rightarrow> 'h BufferedBlockAlgorithm" where
  "hash_init hc = bba_reset (h_doReset hc)"

definition hash_update :: "'h Hasher \<Rightarrow> WordArray \<Rightarrow> 'h BufferedBlockAlgorithm \<Rightarrow> 'h BufferedBlockAlgorithm" where
  "hash_update hc = hasher_update (h_blockSize hc) (h_doProcessBlock hc)"

definition hash_finalize ::
    "'h Hasher \<Rightarrow> WordArray option \<Rightarrow> 'h BufferedBlockAlgorithm \<Rightarrow> WordArray \<times> 'h BufferedBlockAlgorithm" where
  "hash_finalize hc = hasher_finalize (h_doFinalize hc)"

subsection \<open>HMAC\<close>

record 'h HMAC =
  hmac_hasher :: "'h BufferedBlockAlgorithm"
  hmac_oKey :: WordArray
  hmac_iKey :: WordArray

definition xor_key :: "nat \<Rightarrow> word32 \<Rightarrow> WordArray \<Rightarrow> WordArray" where
  "xor_key n pad key =
     \<lparr>words = fold (\<lambda>i ws. wset ws i (wget ws i XOR pad)) [0..<n] (words key), sigBytes = n * 4\<rparr>"

definition hmac_reset :: "'h Hasher \<Rightarrow> 'h HMAC \<Rightarrow> 'h HMAC" where
  "hmac_reset hc h = h\<lparr>hmac_hasher := hash_update hc (hmac_iKey h) (hash_init hc)\<rparr>"

definition hmac_init :: "'h Hasher \<Rightarrow> WordArray \<Rightarrow> 'h HMAC" where
  "hmac_init hc key =
     (let hasher = hash_init hc;
          (key, hasher) = (if sigBytes key > h_blockSize hc * 4 then hash_finalize hc (Some key) hasher else (key, hasher));
          key = wa_clamp key
      in hmac_reset hc \<lparr>hmac_hasher = hasher,
            hmac_oKey = xor_key (h_blockSize hc) 0x5c5c5c5c key,
            hmac_iKey = xor_key (h_blockSize hc) 0x36363636 key\<rparr>)"

definition hmac_update :: "'h Hasher \<Rightarrow> WordArray \<Rightarrow> 'h HMAC \<Rightarrow> 'h HMAC" where
  "hmac_update hc messageUpdate h = h\<lparr>hmac_hasher := hash_update hc messageUpdate (hmac_hasher h)\<rparr>"

definition hmac_finalize :: "'h Hasher \<Rightarrow> WordArray option \<Rightarrow> 'h HMAC \<Rightarrow> WordArray \<times> 'h HMAC" where
  "hmac_finalize hc messageUpdate h =
     (let (innerHash, hasher) = hash_finalize hc messageUpdate (hmac_hasher h);
          (mac, hasher) = hash_finalize hc (Some (wa_concat (hmac_oKey h) innerHash)) (hash_init hc)
      in (mac, h\<lparr>hmac_hasher := hasher\<rparr>))"

subsection \<open>RFC 2104\<close>

definition hmac_key :: "(bytes \<Rightarrow> bytes) \<Rightarrow> nat \<Rightarrow> bytes \<Rightarrow> bytes" where
  "hmac_key H b key = (let k = (if length key > b then H key else key) in k @ replicate (b - length k) 0)"

definition hmac_rfc :: "(bytes \<Rightarrow> bytes) \<Rightarrow> nat \<Rightarrow> bytes \<Rightarrow> bytes \<Rightarrow> bytes" where
  "hmac_rfc H b key m =
     H (map (\<lambda>x. x XOR 0x5c) (hmac_key H b key) @ H (map (\<lambda>x. x XOR 0x36) (hmac_key H b key) @ m))"

subsection \<open>Keys\<close>

lemma word_bytes_xor: "r < 4 \<Longrightarrow> word_bytes (a XOR b) ! r = word_bytes a ! r XOR word_bytes b ! r"
  by (rule bit_word_eqI) (simp add: word_bytes_def bit_xor_iff bit_ucast_iff bit_drop_bit_eq)

lemma wget_xor_fold:
  "wget (fold (\<lambda>i ws. wset ws i (wget ws i XOR pad)) [0..<n] ws) j = (if j < n then wget ws j XOR pad else wget ws j)"
  by (induction n) auto

lemma length_xor_fold: "length (fold (\<lambda>i ws. wset ws i (wget ws i XOR pad)) [0..<n] ws) = max (length ws) n"
  by (induction n) auto

lemma xor_key_bytes:
  assumes "length K \<le> n * 4" "\<And>r. r < 4 \<Longrightarrow> word_bytes pad ! r = p"
  shows "xor_key n pad (wa_of_bytes K) = wa_of_bytes (map (\<lambda>x. x XOR p) (K @ replicate (n * 4 - length K) 0))"
proof -
  let ?ws = "fold (\<lambda>i ws. wset ws i (wget ws i XOR pad)) [0..<n] (be_words K)"
  let ?B = "map (\<lambda>x. x XOR p) (K @ replicate (n * 4 - length K) 0)"
  have "?ws = be_words ?B"
  proof (rule words_eqI)
    have "(length K + 3) div 4 \<le> n" "length ?B = n * 4" using assms(1) by auto
    then show "length ?ws = length (be_words ?B)" by (simp add: length_xor_fold)
    fix i
    have "wbyte ?ws i = (if i div 4 < n then wbyte (be_words K) i XOR p else wbyte (be_words K) i)"
      unfolding wbyte_word_bytes wget_xor_fold using assms(2) by (simp add: word_bytes_xor)
    moreover have "i div 4 < n \<longleftrightarrow> i < n * 4" by (simp add: div_less_iff_less_mult)
    ultimately show "wbyte ?ws i = wbyte (be_words ?B) i"
      using assms(1) by (auto simp: byte_at_def nth_append)
  qed
  then show ?thesis using assms(1) by (simp add: xor_key_def wa_of_bytes_def)
qed

lemma pad_words:
  "r < 4 \<Longrightarrow> word_bytes 0x5c5c5c5c ! r = 0x5c" "r < 4 \<Longrightarrow> word_bytes 0x36363636 ! r = 0x36"
proof -
  have "word_bytes 0x5c5c5c5c = [0x5c, 0x5c, 0x5c, 0x5c]" "word_bytes 0x36363636 = [0x36, 0x36, 0x36, 0x36]"
    by (simp_all add: word_bytes_def upt_4)
  then show "r < 4 \<Longrightarrow> word_bytes 0x5c5c5c5c ! r = 0x5c" "r < 4 \<Longrightarrow> word_bytes 0x36363636 ! r = 0x36"
    by (auto simp: less_Suc_eq numeral_eq_Suc)
qed

subsection \<open>The contract of a hash function and HMAC over it\<close>

locale hash_object =
  fixes hc :: "'h Hasher"
    and H :: "bytes \<Rightarrow> bytes"
    and digest limit :: nat
  assumes run: "list_all wa_tidy ms \<Longrightarrow> wa_tidy m \<Longrightarrow> B = concat (map wa_bytes ms) @ wa_bytes m \<Longrightarrow> length B < limit \<Longrightarrow>
      wa_bytes (fst (hash_finalize hc (Some m) (fold (hash_update hc) ms (hash_init hc)))) = H B \<and>
      wa_tidy (fst (hash_finalize hc (Some m) (fold (hash_update hc) ms (hash_init hc)))) \<and>
      digest \<le> 4 * length (words (fst (hash_finalize hc (Some m) (fold (hash_update hc) ms (hash_init hc)))))"
    and H_digest: "length (H B) = digest"
    and digest: "0 < digest" "4 dvd digest" "digest \<le> 4 * h_blockSize hc"
    and limit: "8 * h_blockSize hc < limit"
begin

lemma H_length: "length (H B) \<le> 4 * h_blockSize hc"
  using H_digest digest(3) by simp

lemma hash_once:
  assumes "wa_tidy m" "sigBytes m < limit"
  shows "wa_bytes (fst (hash_finalize hc (Some m) (hash_init hc))) = H (wa_bytes m)"
    "wa_tidy (fst (hash_finalize hc (Some m) (hash_init hc)))"
    "digest \<le> 4 * length (words (fst (hash_finalize hc (Some m) (hash_init hc))))"
  using run [of "[]" m "wa_bytes m"] assms by simp_all

lemma hmac_init_spec:
  assumes "wa_tidy key" "sigBytes key < limit"
  shows "hmac_oKey (hmac_init hc key) =
      wa_of_bytes (map (\<lambda>x. x XOR 0x5c) (hmac_key H (4 * h_blockSize hc) (wa_bytes key)))"
    "hmac_iKey (hmac_init hc key) =
      wa_of_bytes (map (\<lambda>x. x XOR 0x36) (hmac_key H (4 * h_blockSize hc) (wa_bytes key)))"
    "hmac_hasher (hmac_init hc key) = hash_update hc (hmac_iKey (hmac_init hc key)) (hash_init hc)"
proof -
  define K where "K = (if sigBytes key > h_blockSize hc * 4 then fst (hash_finalize hc (Some key) (hash_init hc)) else key)"
  define k where "k = (if sigBytes key > h_blockSize hc * 4 then H (wa_bytes key) else wa_bytes key)"
  have K: "wa_clamp K = wa_of_bytes k"
    unfolding wa_clamp_of_bytes using hash_once [OF assms] by (simp add: K_def k_def)
  have len: "length k \<le> h_blockSize hc * 4" using H_length [of "wa_bytes key"] by (simp add: k_def mult.commute)
  have key: "hmac_key H (4 * h_blockSize hc) (wa_bytes key) = k @ replicate (h_blockSize hc * 4 - length k) 0"
    by (simp add: hmac_key_def k_def Let_def mult.commute)
  have init: "hmac_init hc key = hmac_reset hc \<lparr>hmac_hasher = hash_init hc, hmac_oKey = xor_key (h_blockSize hc) 0x5c5c5c5c (wa_clamp K),
      hmac_iKey = xor_key (h_blockSize hc) 0x36363636 (wa_clamp K)\<rparr>"
    by (simp add: hmac_init_def K_def Let_def hmac_reset_def split_beta)
  show "hmac_oKey (hmac_init hc key) = wa_of_bytes (map (\<lambda>x. x XOR 0x5c) (hmac_key H (4 * h_blockSize hc) (wa_bytes key)))"
    unfolding init K key by (simp add: hmac_reset_def xor_key_bytes [OF len] pad_words)
  show "hmac_iKey (hmac_init hc key) = wa_of_bytes (map (\<lambda>x. x XOR 0x36) (hmac_key H (4 * h_blockSize hc) (wa_bytes key)))"
    unfolding init K key by (simp add: hmac_reset_def xor_key_bytes [OF len] pad_words)
  show "hmac_hasher (hmac_init hc key) = hash_update hc (hmac_iKey (hmac_init hc key)) (hash_init hc)"
    unfolding init by (simp add: hmac_reset_def)
qed

lemma length_hmac_key: "length (hmac_key H (4 * h_blockSize hc) key) = 4 * h_blockSize hc"
  using H_length [of key] by (auto simp: hmac_key_def Let_def)

text \<open>An HMAC object that is keyed with \<open>key\<close> and has taken in \<open>ms\<close>.\<close>

definition keyed :: "bytes \<Rightarrow> WordArray list \<Rightarrow> 'h HMAC \<Rightarrow> bool" where
  "keyed key ms h \<longleftrightarrow>
     hmac_oKey h = wa_of_bytes (map (\<lambda>x. x XOR 0x5c) (hmac_key H (4 * h_blockSize hc) key)) \<and>
     hmac_iKey h = wa_of_bytes (map (\<lambda>x. x XOR 0x36) (hmac_key H (4 * h_blockSize hc) key)) \<and>
     hmac_hasher h = fold (hash_update hc) (hmac_iKey h # ms) (hash_init hc)"

lemma keyed_init: "wa_tidy key \<Longrightarrow> sigBytes key < limit \<Longrightarrow> keyed (wa_bytes key) [] (hmac_init hc key)"
  using hmac_init_spec [of key] by (simp add: keyed_def)

lemma keyed_reset:
  "hmac_oKey h = wa_of_bytes (map (\<lambda>x. x XOR 0x5c) (hmac_key H (4 * h_blockSize hc) key)) \<Longrightarrow>
   hmac_iKey h = wa_of_bytes (map (\<lambda>x. x XOR 0x36) (hmac_key H (4 * h_blockSize hc) key)) \<Longrightarrow>
   keyed key [] (hmac_reset hc h)"
  by (simp add: keyed_def hmac_reset_def)

lemma keyed_update: "keyed key ms h \<Longrightarrow> keyed key (ms @ [m]) (hmac_update hc m h)"
  by (simp add: keyed_def hmac_update_def)

lemma keyed_finalize:
  assumes h: "keyed key ms h" and tidy: "list_all wa_tidy ms" "wa_tidy m"
    and M: "M = concat (map wa_bytes ms) @ wa_bytes m" and small: "4 * h_blockSize hc + length M < limit"
  shows "wa_bytes (fst (hmac_finalize hc (Some m) h)) = hmac_rfc H (4 * h_blockSize hc) key M"
    "wa_tidy (fst (hmac_finalize hc (Some m) h))"
    "digest \<le> 4 * length (words (fst (hmac_finalize hc (Some m) h)))"
    "keyed key [] (hmac_reset hc (snd (hmac_finalize hc (Some m) h)))"
proof -
  let ?o = "map (\<lambda>x. x XOR 0x5c) (hmac_key H (4 * h_blockSize hc) key)"
  let ?i = "map (\<lambda>x. x XOR 0x36) (hmac_key H (4 * h_blockSize hc) key)"
  define r where "r = hash_finalize hc (Some m) (hmac_hasher h)"
  have keys: "hmac_oKey h = wa_of_bytes ?o" "hmac_iKey h = wa_of_bytes ?i"
    "hmac_hasher h = fold (hash_update hc) (hmac_iKey h # ms) (hash_init hc)"
    using h by (simp_all add: keyed_def)
  have inner: "wa_bytes (fst r) = H (?i @ M)" "wa_tidy (fst r)"
    using run [of "hmac_iKey h # ms" m "?i @ M"] tidy small
    unfolding r_def keys(3) by (simp_all add: keys(2) M length_hmac_key)
  have cat: "wa_concat (hmac_oKey h) (fst r) = wa_of_bytes (?o @ H (?i @ M))"
    using wa_concat_of_bytes [OF inner(2), of "hmac_oKey h"] by (simp add: inner(1) keys(1))
  have len: "length (?o @ H (?i @ M)) < limit"
    using H_length [of "?i @ M"] limit by (simp add: length_hmac_key)
  have fin: "fst (hmac_finalize hc (Some m) h) = fst (hash_finalize hc (Some (wa_of_bytes (?o @ H (?i @ M)))) (hash_init hc))"
    "hmac_oKey (snd (hmac_finalize hc (Some m) h)) = hmac_oKey h" "hmac_iKey (snd (hmac_finalize hc (Some m) h)) = hmac_iKey h"
    by (simp_all add: hmac_finalize_def split_beta Let_def flip: r_def cat)
  show "wa_bytes (fst (hmac_finalize hc (Some m) h)) = hmac_rfc H (4 * h_blockSize hc) key M"
    "wa_tidy (fst (hmac_finalize hc (Some m) h))" "digest \<le> 4 * length (words (fst (hmac_finalize hc (Some m) h)))"
    unfolding fin using hash_once [of "wa_of_bytes (?o @ H (?i @ M))"] len by (simp_all add: hmac_rfc_def)
  show "keyed key [] (hmac_reset hc (snd (hmac_finalize hc (Some m) h)))"
    by (rule keyed_reset) (simp_all add: fin keys)
qed

lemma hmac_stream:
  assumes "wa_tidy key" "sigBytes key < limit" "list_all wa_tidy ms" "wa_tidy m"
    and "M = concat (map wa_bytes ms) @ wa_bytes m" "4 * h_blockSize hc + length M < limit"
  shows "wa_bytes (fst (hmac_finalize hc (Some m) (fold (hmac_update hc) ms (hmac_init hc key)))) =
    hmac_rfc H (4 * h_blockSize hc) (wa_bytes key) M"
proof -
  have "keyed (wa_bytes key) ms (fold (hmac_update hc) ms (hmac_init hc key))" for ms
    by (induction ms rule: rev_induct) (simp_all add: keyed_init [OF assms(1,2)] keyed_update)
  from keyed_finalize(1) [OF this assms(3-6)] show ?thesis .
qed

end

end
