(* ===== verification/Kdf.thy ===== *)
theory Kdf
  imports Hmac
begin

text \<open>
  Modules \<^verbatim>\<open>evpkdf\<close> and \<^verbatim>\<open>pbkdf2\<close> of CryptoJS (\<^verbatim>\<open>src/internal/jsre/deps/web3.js\<close>). The loops run until the derived
  key has enough words; they take an argument \<open>fuel\<close>, and the lemmas show that as many turns as there
  are words to derive are enough.
\<close>

subsection \<open>EvpKDF\<close>

definition evpkdf_iterate :: "'h Hasher \<Rightarrow> nat \<Rightarrow> WordArray \<Rightarrow> WordArray" where
  "evpkdf_iterate hc iterations block =
     fold (\<lambda>i block. fst (hash_finalize hc (Some block) (hash_init hc))) [1..<iterations] block"

fun evpkdf_loop ::
    "'h Hasher \<Rightarrow> nat \<Rightarrow> nat \<Rightarrow> WordArray \<Rightarrow> WordArray \<Rightarrow> nat \<Rightarrow> WordArray option \<Rightarrow> WordArray \<Rightarrow> WordArray option" where
  "evpkdf_loop hc keySize iterations password salt fuel block derivedKey =
     (if length (words derivedKey) < keySize
      then case fuel of 0 \<Rightarrow> None
        | Suc fuel \<Rightarrow>
            let hasher = (case block of Some b \<Rightarrow> hash_update hc b (hash_init hc) | None \<Rightarrow> hash_init hc);
                block = fst (hash_finalize hc (Some salt) (hash_update hc password hasher));
                block = evpkdf_iterate hc iterations block
            in evpkdf_loop hc keySize iterations password salt fuel (Some block) (wa_concat derivedKey block)
      else Some (derivedKey\<lparr>sigBytes := keySize * 4\<rparr>))"

declare evpkdf_loop.simps [simp del]

definition evpkdf_compute :: "'h Hasher \<Rightarrow> nat \<Rightarrow> nat \<Rightarrow> nat \<Rightarrow> WordArray \<Rightarrow> WordArray \<Rightarrow> WordArray option" where
  "evpkdf_compute hc keySize iterations fuel password salt =
     evpkdf_loop hc keySize iterations password salt fuel None (WordArray_init [] None)"

subsection \<open>PBKDF2\<close>

definition pbkdf2_xor :: "WordArray \<Rightarrow> WordArray \<Rightarrow> WordArray" where
  "pbkdf2_xor block intermediate =
     block\<lparr>words := fold (\<lambda>j ws. wset ws j (wget ws j XOR wget (words intermediate) j)) [0..<length (words block)] (words block)\<rparr>"

definition pbkdf2_iterate :: "'h Hasher \<Rightarrow> nat \<Rightarrow> WordArray \<Rightarrow> 'h HMAC \<Rightarrow> WordArray \<times> 'h HMAC" where
  "pbkdf2_iterate hc iterations block hmac =
     (let (block, intermediate, hmac) =
            fold (\<lambda>i (block, intermediate, hmac).
                let (intermediate, hmac) = hmac_finalize hc (Some intermediate) hmac
                in (pbkdf2_xor block intermediate, intermediate, hmac_reset hc hmac))
              [1..<iterations] (block, block, hmac)
      in (block, hmac))"

fun pbkdf2_loop ::
    "'h Hasher \<Rightarrow> nat \<Rightarrow> nat \<Rightarrow> WordArray \<Rightarrow> nat \<Rightarrow> word32 \<Rightarrow> 'h HMAC \<Rightarrow> WordArray \<Rightarrow> WordArray option" where
  "pbkdf2_loop hc keySize iterations salt fuel blockIndex hmac derivedKey =
     (if length (words derivedKey) < keySize
      then case fuel of 0 \<Rightarrow> None
        | Suc fuel \<Rightarrow>
            let (block, hmac) = hmac_finalize hc (Some (WordArray_init [blockIndex] None)) (hmac_update hc salt hmac);
                (block, hmac) = pbkdf2_iterate hc iterations block (hmac_reset hc hmac)
            in pbkdf2_loop hc keySize iterations salt fuel (blockIndex + 1) hmac (wa_concat derivedKey block)
      else Some (derivedKey\<lparr>sigBytes := keySize * 4\<rparr>))"

declare pbkdf2_loop.simps [simp del]

definition pbkdf2_compute :: "'h Hasher \<Rightarrow> nat \<Rightarrow> nat \<Rightarrow> nat \<Rightarrow> WordArray \<Rightarrow> WordArray \<Rightarrow> WordArray option" where
  "pbkdf2_compute hc keySize iterations fuel password salt =
     pbkdf2_loop hc keySize iterations salt fuel 1 (hmac_init hc password) (WordArray_init [] None)"

subsection \<open>What they compute\<close>

text \<open>\<^verbatim>\<open>EVP_BytesToKey\<close>: the blocks \<open>D 1, D 2, ...\<close> in order.\<close>

fun evp_block :: "(bytes \<Rightarrow> bytes) \<Rightarrow> nat \<Rightarrow> bytes \<Rightarrow> bytes \<Rightarrow> nat \<Rightarrow> bytes" where
  "evp_block H c password salt 0 = []"
| "evp_block H c password salt (Suc i) = (H ^^ max c 1) (evp_block H c password salt i @ password @ salt)"

definition evp_bytes :: "(bytes \<Rightarrow> bytes) \<Rightarrow> nat \<Rightarrow> bytes \<Rightarrow> bytes \<Rightarrow> nat \<Rightarrow> bytes" where
  "evp_bytes H c password salt n = concat (map (\<lambda>i. evp_block H c password salt (Suc i)) [0..<n])"

text \<open>RFC 2898 with a pseudo-random function \<open>F\<close> of the password.\<close>

fun rfc2898_U :: "(bytes \<Rightarrow> bytes) \<Rightarrow> bytes \<Rightarrow> nat \<Rightarrow> nat \<Rightarrow> bytes" where
  "rfc2898_U F salt i 0 = F (salt @ word_bytes (of_nat (Suc i)))"
| "rfc2898_U F salt i (Suc j) = F (rfc2898_U F salt i j)"

fun rfc2898_T :: "(bytes \<Rightarrow> bytes) \<Rightarrow> bytes \<Rightarrow> nat \<Rightarrow> nat \<Rightarrow> bytes" where
  "rfc2898_T F salt i 0 = rfc2898_U F salt i 0"
| "rfc2898_T F salt i (Suc j) = map2 (XOR) (rfc2898_T F salt i j) (rfc2898_U F salt i (Suc j))"

definition rfc2898_bytes :: "(bytes \<Rightarrow> bytes) \<Rightarrow> nat \<Rightarrow> bytes \<Rightarrow> nat \<Rightarrow> bytes" where
  "rfc2898_bytes F c salt n = concat (map (\<lambda>i. rfc2898_T F salt i (c - 1)) [0..<n])"

subsection \<open>Proofs\<close>

lemma wa_bytes_resize:
  assumes "k * 4 \<le> length B"
  shows "wa_bytes (wa_of_bytes B\<lparr>sigBytes := k * 4\<rparr>) = take (k * 4) B"
  using assms by (intro nth_equalityI) (simp_all add: wa_bytes_def byte_at_def)

lemma pbkdf2_xor_bytes:
  assumes "sigBytes a \<le> 4 * length (words a)" "sigBytes a = sigBytes b"
  shows "wa_bytes (pbkdf2_xor a b) = map2 (XOR) (wa_bytes a) (wa_bytes b)"
    "length (words (pbkdf2_xor a b)) = length (words a)" "sigBytes (pbkdf2_xor a b) = sigBytes a"
proof -
  have get: "wget (fold (\<lambda>j ws. wset ws j (wget ws j XOR v j)) [0..<n] ws) i = (if i < n then wget ws i XOR v i else wget ws i)"
    for v n ws i by (induction n) auto
  have len: "length (fold (\<lambda>j ws. wset ws j (wget ws j XOR v j)) [0..<n] ws) = max (length ws) n" for v n ws
    by (induction n) auto
  show "length (words (pbkdf2_xor a b)) = length (words a)" "sigBytes (pbkdf2_xor a b) = sigBytes a"
    by (simp_all add: pbkdf2_xor_def len)
  show "wa_bytes (pbkdf2_xor a b) = map2 (XOR) (wa_bytes a) (wa_bytes b)"
  proof (rule nth_equalityI)
    fix i assume "i < length (wa_bytes (pbkdf2_xor a b))"
    then have i: "i < sigBytes a" "i div 4 < length (words a)"
      using assms(1) by (simp_all add: pbkdf2_xor_def div_less_iff_less_mult mult.commute)
    then show "wa_bytes (pbkdf2_xor a b) ! i = map2 (XOR) (wa_bytes a) (wa_bytes b) ! i"
      using assms by (simp add: nth_wa_bytes pbkdf2_xor_def wbyte_word_bytes get word_bytes_xor)
  qed (use assms in \<open>simp add: pbkdf2_xor_def\<close>)
qed


text \<open>Blocks put one behind the other.\<close>

lemma take_blocks:
  assumes "k \<le> length (concat (map f [0..<i]))" "k \<le> length (concat (map f [0..<j]))"
  shows "take k (concat (map f [0..<i])) = take k (concat (map f [0..<j]))"
proof -
  have "take k (concat (map f [0..<i])) = take k (concat (map f [0..<j]))"
    if "i \<le> j" "k \<le> length (concat (map f [0..<i]))" for i j
  proof -
    have "[0..<j] = [0..<i] @ [i..<j]" using that(1) upt_add_eq_append [of 0 i "j - i"] by simp
    then show ?thesis using that(2) by simp
  qed
  then show ?thesis using assms by (metis nat_le_linear)
qed

lemma length_blocks: "(\<And>i. length (f i) = d) \<Longrightarrow> length (concat (map f [0..<n])) = n * d"
  by (induction n) simp_all

context hash_object
begin

lemma tidy_digest: "sigBytes w = digest \<Longrightarrow> wa_tidy w"
  using digest(2) by (intro wa_tidy_dvd) simp

lemma evpkdf_iterate_spec:
  assumes "wa_bytes b = X" "sigBytes b = digest"
  shows "wa_bytes (evpkdf_iterate hc c b) = (H ^^ (c - 1)) X \<and> sigBytes (evpkdf_iterate hc c b) = digest"
proof -
  have small: "digest < limit" using digest(3) limit by simp
  have "wa_bytes (fold (\<lambda>i block. fst (hash_finalize hc (Some block) (hash_init hc))) xs b) = (H ^^ length xs) X \<and>
      sigBytes (fold (\<lambda>i block. fst (hash_finalize hc (Some block) (hash_init hc))) xs b) = digest" for xs :: "nat list"
  proof (induction xs rule: rev_induct)
    case (snoc x xs)
    then show ?case
      using hash_once(1) [OF tidy_digest, of "fold (\<lambda>i block. fst (hash_finalize hc (Some block) (hash_init hc))) xs b"]
        small H_digest by (metis (no_types, lifting) append_is_Nil_conv comp_apply fold_Cons fold_Nil fold_append
          funpow.simps(2) id_apply length_append_singleton length_wa_bytes)
  qed (use assms in simp)
  from this [of "[1..<c]"] show ?thesis by (simp add: evpkdf_iterate_def)
qed

lemma evp_block_length: "length (evp_block H c P S (Suc i)) = digest"
proof -
  have "length ((H ^^ Suc n) x) = digest" for n x by (simp add: H_digest)
  then show ?thesis by (cases c) (simp_all add: max_def H_digest)
qed

lemma evpkdf_step:
  assumes "wa_tidy password" "wa_tidy salt" "digest + sigBytes password + sigBytes salt < limit"
    and "block = None \<and> i = 0 \<or> (\<exists>b. block = Some b \<and> wa_bytes b = evp_block H c (wa_bytes password) (wa_bytes salt) i \<and> sigBytes b = digest)"
    and "hasher = (case block of Some b \<Rightarrow> hash_update hc b (hash_init hc) | None \<Rightarrow> hash_init hc)"
  shows "wa_bytes (evpkdf_iterate hc c (fst (hash_finalize hc (Some salt) (hash_update hc password hasher)))) =
      evp_block H c (wa_bytes password) (wa_bytes salt) (Suc i) \<and>
    sigBytes (evpkdf_iterate hc c (fst (hash_finalize hc (Some salt) (hash_update hc password hasher)))) = digest"
proof -
  define X where "X = evp_block H c (wa_bytes password) (wa_bytes salt) i @ wa_bytes password @ wa_bytes salt"
  have first: "wa_bytes (fst (hash_finalize hc (Some salt) (hash_update hc password hasher))) = H X"
    using assms(4)
  proof (elim disjE conjE exE)
    assume "block = None" "i = 0"
    then show ?thesis using run [of "[password]" salt X] assms(1-3,5) by (simp add: X_def)
  next
    fix b assume b: "block = Some b" "wa_bytes b = evp_block H c (wa_bytes password) (wa_bytes salt) i" "sigBytes b = digest"
    then show ?thesis
      using run [of "[b, password]" salt X] assms(1-3,5) tidy_digest [OF b(3)] length_wa_bytes [of b]
      by (simp add: X_def flip: b(2))
  qed
  then have "sigBytes (fst (hash_finalize hc (Some salt) (hash_update hc password hasher))) = digest"
    using H_digest [of X] by (metis length_wa_bytes)
  from evpkdf_iterate_spec [OF first this, of c] show ?thesis
  proof -
    have "(H ^^ (c - 1)) (H X) = (H ^^ max c 1) X" by (cases c) (simp_all add: max_def funpow_swap1)
    then show ?thesis using evpkdf_iterate_spec [OF first \<open>sigBytes _ = digest\<close>, of c] by (simp add: X_def)
  qed
qed

lemma evpkdf:
  assumes "wa_tidy password" "wa_tidy salt" "digest + sigBytes password + sigBytes salt < limit" "keySize \<le> fuel"
  shows "\<exists>key. evpkdf_compute hc keySize c fuel password salt = Some key \<and>
    wa_bytes key = take (keySize * 4) (evp_bytes H c (wa_bytes password) (wa_bytes salt) keySize)"
proof -
  let ?P = "wa_bytes password" and ?S = "wa_bytes salt"
  have len: "length (evp_bytes H c ?P ?S i) = i * digest" for i
    unfolding evp_bytes_def by (rule length_blocks) (rule evp_block_length)
  obtain d where d: "digest = 4 * d" "0 < d" using digest(1,2) by (auto simp: dvd_def)
  have "\<exists>key. evpkdf_loop hc keySize c password salt fuel block (wa_of_bytes (evp_bytes H c ?P ?S i)) = Some key \<and>
      wa_bytes key = take (keySize * 4) (evp_bytes H c ?P ?S keySize)"
    if "keySize \<le> fuel + i" and "block = None \<and> i = 0 \<or> (\<exists>b. block = Some b \<and> wa_bytes b = evp_block H c ?P ?S i \<and> sigBytes b = digest)"
    for fuel block i
    using that
  proof (induction fuel arbitrary: block i)
    case (Suc fuel)
    let ?h = "case block of Some b \<Rightarrow> hash_update hc b (hash_init hc) | None \<Rightarrow> hash_init hc"
    let ?b = "evpkdf_iterate hc c (fst (hash_finalize hc (Some salt) (hash_update hc password ?h)))"
    note step = evpkdf_step [OF assms(1-3) Suc.prems(2) refl]
    have cat: "wa_concat (wa_of_bytes (evp_bytes H c ?P ?S i)) ?b = wa_of_bytes (evp_bytes H c ?P ?S (Suc i))"
      using wa_concat_of_bytes [OF tidy_digest] step by (simp add: evp_bytes_def)
    show ?case
    proof (cases "length (words (wa_of_bytes (evp_bytes H c ?P ?S i))) < keySize")
      case True
      then show ?thesis
        using Suc.IH [of "Suc i" "Some ?b"] Suc.prems(1) step
        by (subst evpkdf_loop.simps) (simp only: if_True nat.case Let_def cat, simp)
    next
      case False
      then have big: "keySize * 4 \<le> length (evp_bytes H c ?P ?S i)" by (simp add: len d)
      moreover have "keySize * 4 \<le> length (evp_bytes H c ?P ?S keySize)" using d by (simp add: len)
      ultimately show ?thesis
        using False take_blocks [of "keySize * 4" "\<lambda>i. evp_block H c ?P ?S (Suc i)" i keySize] wa_bytes_resize [OF big]
        by (subst evpkdf_loop.simps) (simp add: evp_bytes_def)
    qed
  next
    case 0
    then have "i \<ge> keySize" by simp
    then have "keySize * 4 \<le> i * (4 * d)" using d(2) by (simp add: mult_le_mono)
    then have big: "keySize * 4 \<le> length (evp_bytes H c ?P ?S i)" by (simp add: len d)
    moreover have "keySize * 4 \<le> length (evp_bytes H c ?P ?S keySize)" using d by (simp add: len)
    moreover have "\<not> length (words (wa_of_bytes (evp_bytes H c ?P ?S i))) < keySize" using big by (simp add: len d)
    ultimately show ?case
      using take_blocks [of "keySize * 4" "\<lambda>i. evp_block H c ?P ?S (Suc i)" i keySize] wa_bytes_resize [OF big]
      by (subst evpkdf_loop.simps) (simp add: evp_bytes_def)
  qed
  from this [of fuel 0 None] assms(4) show ?thesis
    by (simp add: evpkdf_compute_def evp_bytes_def wa_of_bytes_def be_words_def WordArray_init_def)
qed

lemma hmac_rfc_length: "length (hmac_rfc H b key M) = digest"
  by (simp add: hmac_rfc_def H_digest)

lemma rfc2898_length: "length (rfc2898_U (hmac_rfc H b key) S i j) = digest"
    "length (rfc2898_T (hmac_rfc H b key) S i j) = digest"
proof -
  show U: "length (rfc2898_U (hmac_rfc H b key) S i j) = digest" for j by (cases j) (simp_all add: hmac_rfc_length)
  show "length (rfc2898_T (hmac_rfc H b key) S i j) = digest" by (induction j) (simp_all add: U hmac_rfc_length)
qed

lemma pbkdf2_iterate_spec:
  fixes key defines "F \<equiv> hmac_rfc H (4 * h_blockSize hc) key"
  assumes "wa_bytes block = rfc2898_U F S i 0" "digest \<le> 4 * length (words block)" "keyed key [] h"
  shows "wa_bytes (fst (pbkdf2_iterate hc c block h)) = rfc2898_T F S i (c - 1)"
    "keyed key [] (snd (pbkdf2_iterate hc c block h))"
proof -
  let ?step = "\<lambda>i (block, intermediate, hmac). let (intermediate, hmac) = hmac_finalize hc (Some intermediate) hmac
      in (pbkdf2_xor block intermediate, intermediate, hmac_reset hc hmac)"
  define good where "good j = (\<lambda>(b, m, h). wa_bytes b = rfc2898_T F S i j \<and> digest \<le> 4 * length (words b) \<and>
      wa_bytes m = rfc2898_U F S i j \<and> keyed key [] h)" for j
  have small: "4 * h_blockSize hc + digest < limit" using digest(3) limit by simp
  have step: "good (Suc j) (?step x v)" if v: "good j v" for j x v
  proof -
    obtain b m h where bmh: "v = (b, m, h)" by (metis prod_cases3)
    have m: "wa_bytes m = rfc2898_U F S i j" "sigBytes m = digest" "sigBytes b = digest" "keyed key [] h"
      "digest \<le> 4 * length (words b)" "wa_bytes b = rfc2898_T F S i j"
      using v length_wa_bytes [of m] length_wa_bytes [of b] by (simp_all add: good_def bmh rfc2898_length F_def)
    note fin = keyed_finalize [OF m(4) _ tidy_digest [OF m(2)] refl, simplified, unfolded m]
    have sig: "sigBytes (fst (hmac_finalize hc (Some m) h)) = digest"
      using fin(1) [OF small] hmac_rfc_length by (metis length_wa_bytes)
    show ?thesis
      using fin [OF small] m pbkdf2_xor_bytes [of b "fst (hmac_finalize hc (Some m) h)"] sig
      by (simp add: bmh good_def split_beta Let_def F_def [symmetric])
  qed
  have "good (length xs) (fold ?step xs (block, block, h))" for xs :: "nat list"
    by (induction xs rule: rev_induct) (use assms(2-4) step in \<open>simp_all add: good_def\<close>)
  from this [of "[1..<c]"] show "wa_bytes (fst (pbkdf2_iterate hc c block h)) = rfc2898_T F S i (c - 1)"
    "keyed key [] (snd (pbkdf2_iterate hc c block h))"
    by (simp_all add: pbkdf2_iterate_def good_def split_beta Let_def)
qed

lemma pbkdf2_step:
  fixes key i salt h
  defines "F \<equiv> hmac_rfc H (4 * h_blockSize hc) key"
    and "r \<equiv> hmac_finalize hc (Some (WordArray_init [of_nat (Suc i)] None)) (hmac_update hc salt h)"
  assumes "wa_tidy salt" "4 * h_blockSize hc + sigBytes salt + 4 < limit" "keyed key [] h"
  shows "wa_bytes (fst (pbkdf2_iterate hc c (fst r) (hmac_reset hc (snd r)))) = rfc2898_T F (wa_bytes salt) i (c - 1)"
    "keyed key [] (snd (pbkdf2_iterate hc c (fst r) (hmac_reset hc (snd r))))"
proof -
  let ?m = "WordArray_init [of_nat (Suc i)] None"
  have m: "wa_bytes ?m = word_bytes (of_nat (Suc i))" "wa_tidy ?m"
    by (simp_all add: wa_bytes_def WordArray_init_def wbyte_word_bytes word_bytes_def upt_4 wget_def wa_tidy_dvd)
  have k: "keyed key [salt] (hmac_update hc salt h)" using keyed_update [OF assms(5), of salt] by simp
  note fin = keyed_finalize [OF k _ m(2) refl, unfolded m(1), simplified]
  have len: "4 * h_blockSize hc + (sigBytes salt + length (word_bytes (of_nat (Suc i)))) < limit"
    using assms(4) by (simp add: word_bytes_def)
  note fin = fin [OF assms(3) len [simplified]]
  have "wa_bytes (fst r) = rfc2898_U F (wa_bytes salt) i 0" "digest \<le> 4 * length (words (fst r))"
    "keyed key [] (hmac_reset hc (snd r))" using fin by (simp_all add: r_def F_def)
  from pbkdf2_iterate_spec [OF this [unfolded F_def], of c]
  show "wa_bytes (fst (pbkdf2_iterate hc c (fst r) (hmac_reset hc (snd r)))) = rfc2898_T F (wa_bytes salt) i (c - 1)"
    "keyed key [] (snd (pbkdf2_iterate hc c (fst r) (hmac_reset hc (snd r))))" by (simp_all add: F_def)
qed

lemma pbkdf2:
  assumes "wa_tidy password" "sigBytes password < limit"
    and "wa_tidy salt" "4 * h_blockSize hc + sigBytes salt + 4 < limit" "keySize \<le> fuel"
  shows "\<exists>key. pbkdf2_compute hc keySize c fuel password salt = Some key \<and>
    wa_bytes key = take (keySize * 4)
      (rfc2898_bytes (hmac_rfc H (4 * h_blockSize hc) (wa_bytes password)) c (wa_bytes salt) keySize)"
proof -
  let ?F = "hmac_rfc H (4 * h_blockSize hc) (wa_bytes password)" and ?S = "wa_bytes salt"
  let ?D = "\<lambda>i. rfc2898_bytes ?F c ?S i" and ?f = "\<lambda>i. rfc2898_T ?F ?S i (c - 1)"
  have len: "length (?D i) = i * digest" for i
    unfolding rfc2898_bytes_def by (rule length_blocks) (rule rfc2898_length)
  obtain d where d: "digest = 4 * d" "0 < d" using digest(1,2) by (auto simp: dvd_def)
  have exit: "\<exists>key. pbkdf2_loop hc keySize c salt fuel x h (wa_of_bytes (?D i)) = Some key \<and>
      wa_bytes key = take (keySize * 4) (?D keySize)"
    if "\<not> length (words (wa_of_bytes (?D i))) < keySize" for fuel x h i
  proof -
    have big: "keySize * 4 \<le> length (?D i)" "keySize * 4 \<le> length (?D keySize)" using that d(2) by (simp_all add: len d(1))
    then show ?thesis
      using that take_blocks [of "keySize * 4" ?f i keySize] wa_bytes_resize [OF big(1)]
      by (subst pbkdf2_loop.simps) (simp add: rfc2898_bytes_def)
  qed
  have "\<exists>key. pbkdf2_loop hc keySize c salt fuel (of_nat (Suc i)) h (wa_of_bytes (?D i)) = Some key \<and>
      wa_bytes key = take (keySize * 4) (?D keySize)"
    if "keySize \<le> fuel + i" "keyed (wa_bytes password) [] h" for fuel i h
    using that
  proof (induction fuel arbitrary: i h)
    case 0
    then have "keySize * 1 \<le> i * d" using d(2) by (intro mult_le_mono) simp_all
    then show ?case by (intro exit) (simp add: len d(1))
  next
    case (Suc fuel)
    define r where "r = hmac_finalize hc (Some (WordArray_init [of_nat (Suc i)] None)) (hmac_update hc salt h)"
    define q where "q = pbkdf2_iterate hc c (fst r) (hmac_reset hc (snd r))"
    note step = pbkdf2_step [OF assms(3,4) Suc.prems(2), where i = i and c = c, folded r_def, folded q_def]
    have "wa_concat (wa_of_bytes (?D i)) (fst q) = wa_of_bytes (?D (Suc i))"
      using wa_concat_of_bytes [OF tidy_digest, of "fst q"] step(1) length_wa_bytes [of "fst q"]
      by (simp add: rfc2898_bytes_def rfc2898_length)
    then have "pbkdf2_loop hc keySize c salt (Suc fuel) (of_nat (Suc i)) h (wa_of_bytes (?D i)) =
        pbkdf2_loop hc keySize c salt fuel (of_nat (Suc (Suc i))) (snd q) (wa_of_bytes (?D (Suc i)))"
      if "length (words (wa_of_bytes (?D i))) < keySize"
      using that by (subst pbkdf2_loop.simps)
        (simp add: split_beta Let_def del: of_nat_Suc flip: r_def q_def, simp add: add.commute)
    with Suc.IH [of "Suc i" "snd q"] Suc.prems(1) step(2) exit show ?case by fastforce
  qed
  from this [of fuel 0] keyed_init [OF assms(1,2)] assms(5) show ?thesis
    by (simp add: pbkdf2_compute_def rfc2898_bytes_def wa_of_bytes_def be_words_def WordArray_init_def)
qed

end

end
