(* ===== verification/Sha1.thy ===== *)
theory Sha1
  imports Merkle_Damgard
begin

text \<open>
  Module \<^verbatim>\<open>sha1\<close> of CryptoJS (\<^verbatim>\<open>src/internal/jsre/deps/web3.js\<close>). JavaScript adds doubles; within a block the
  sums stay far below \<open>2 ^ 53\<close> and every use of one goes through a bit operation, so they are 32-bit
  words here.
\<close>

definition sha1_doReset :: "word32 list" where
  "sha1_doReset = [0x67452301, 0xefcdab89, 0x98badcfe, 0x10325476, 0xc3d2e1f0]"

type_synonym sha1_vars = "word32 list \<times> word32 \<times> word32 \<times> word32 \<times> word32 \<times> word32"

definition sha1_round :: "word32 list \<Rightarrow> nat \<Rightarrow> nat \<Rightarrow> sha1_vars \<Rightarrow> sha1_vars" where
  "sha1_round M offset i = (\<lambda>(W, a, b, c, d, e).
     let W = wset W i
           (if i < 16 then wget M (offset + i)
            else let n = wget W (i - 3) XOR wget W (i - 8) XOR wget W (i - 14) XOR wget W (i - 16)
                 in shl n 1 OR shr n 31);
         t = (shl a 5 OR shr a 27) + e + wget W i;
         t = t + (if i < 20 then ((b AND c) OR (NOT b AND d)) + 0x5a827999
                  else if i < 40 then (b XOR c XOR d) + 0x6ed9eba1
                  else if i < 60 then ((b AND c) OR (b AND d) OR (c AND d)) - 0x70e44324
                  else (b XOR c XOR d) - 0x359d3e2a)
     in (W, t, a, shl b 30 OR shr b 2, c, d))"

definition sha1_doProcessBlock :: "word32 list block_step" where
  "sha1_doProcessBlock M offset H =
     (let (W, a, b, c, d, e) =
            fold (sha1_round M offset) [0..<80] ([], wget H 0, wget H 1, wget H 2, wget H 3, wget H 4)
      in ([wget H 0 + a, wget H 1 + b, wget H 2 + c, wget H 3 + d, wget H 4 + e], M))"

definition sha1_doFinalize ::
    "word32 list BufferedBlockAlgorithm \<Rightarrow> WordArray \<times> word32 list BufferedBlockAlgorithm" where
  "sha1_doFinalize alg =
     (let data = alg_data alg;
          nBitsTotal = alg_nDataBytes alg * 8;
          nBitsLeft = sigBytes data * 8;
          ws = pad_bit (words data) nBitsLeft;
          ws = wset ws (ushr (nBitsLeft + 64) 9 * 16 + 14) (of_nat (nBitsTotal div 2 ^ 32));
          ws = wset ws (ushr (nBitsLeft + 64) 9 * 16 + 15) (of_nat nBitsTotal);
          alg = snd (bba_process 16 0 sha1_doProcessBlock False
                  (alg\<lparr>alg_data := \<lparr>words = ws, sigBytes = length ws * 4\<rparr>\<rparr>))
      in (WordArray_init (alg_state alg) None, alg))"

definition SHA1 :: "WordArray \<Rightarrow> WordArray" where
  "SHA1 message = fst (hasher_finalize sha1_doFinalize (Some message) (bba_reset sha1_doReset))"

subsection \<open>The hash function\<close>

definition sha1_absorb :: "word32 list \<Rightarrow> word32 list \<Rightarrow> word32 list" where
  "sha1_absorb block H = fst (sha1_doProcessBlock block 0 H)"

lemma sha1_round_block:
  "sha1_round M offset i = sha1_round (map (\<lambda>i. wget M (offset + i)) [0..<16]) 0 i"
  by (simp add: sha1_round_def wget_def [of "map _ _"] Let_def cong: if_cong)

interpretation sha1: md_hasher 16 sha1_doProcessBlock sha1_absorb 8 9
proof unfold_locales
  fix ws offset H
  have "fold (sha1_round ws offset) [0..<80] v = fold (sha1_round (map (\<lambda>i. wget ws (offset + i)) [0..<16]) 0) [0..<80] v" for v
    by (rule fold_cong [OF refl refl]) (rule sha1_round_block)
  then show "fst (sha1_doProcessBlock ws offset H) = sha1_absorb (map (\<lambda>i. wget ws (offset + i)) [0..<16]) H"
    by (simp add: sha1_absorb_def sha1_doProcessBlock_def split: prod.split)
  show "drop (offset + 16) (snd (sha1_doProcessBlock ws offset H)) = drop (offset + 16) ws"
    by (simp add: sha1_doProcessBlock_def split: prod.split)
qed simp_all

interpretation sha1: hash_function 16 sha1_doProcessBlock sha1_absorb 8 9 sha1_doReset be64 "\<lambda>H. WordArray_init H None"
  sha1_doFinalize
proof unfold_locales
  fix B a
  assume h: "sha1.holds sha1_doReset B a" and small: "8 * (length B + 8) < (2 :: nat) ^ 32"
  let ?n = "sigBytes (alg_data a) * 8"
  have n: "alg_nDataBytes a = length B" using h by (auto simp: sha1.holds_def)
  have at: "ushr (?n + 64) 9 * 16 + 14 = sha1.length_at ?n" "ushr (?n + 64) 9 * 16 + 15 = Suc (sha1.length_at ?n)"
    by (simp_all add: sha1.length_at_def)
  note state = sha1.finish [where len = be64, OF h small refl refl sha1.count_blocks be64_words [symmetric]]
  show "fst (sha1_doFinalize a) = WordArray_init (md_hash 16 8 be64 sha1_absorb sha1_doReset B) None"
    unfolding sha1_doFinalize_def Let_def at n sha1.padded_length(2) [OF h small refl] fst_conv
      mult.commute [of "length B" 8]
    by (subst state) simp_all
qed

end
