(* ===== verification/Sha256.thy ===== *)
theory Sha256
  imports Complex_Main Merkle_Damgard
begin

text \<open>
  Modules \<^verbatim>\<open>sha256\<close> and \<^verbatim>\<open>sha224\<close> of CryptoJS (\<^verbatim>\<open>src/internal/jsre/deps/web3.js\<close>), with the computation of the
  constant tables from square and cube roots of primes. The engine's \<^verbatim>\<open>Math.pow\<close> is an argument,
  with rational values since doubles are rational.
\<close>

subsection \<open>The constant tables\<close>

text \<open>\<^verbatim>\<open>factor <= Math.sqrt(n)\<close> is \<open>factor\<^sup>2 \<le> n\<close>.\<close>

function trial_division :: "nat \<Rightarrow> nat \<Rightarrow> bool" where
  "trial_division factor n =
     (if factor * factor \<le> n then if n mod factor = 0 then False else trial_division (factor + 1) n else True)"
  by pat_completeness auto
termination
proof (relation "measure (\<lambda>(factor, n). Suc n - factor)")
  fix factor n :: nat
  assume "factor * factor \<le> n"
  then have "factor \<le> n" by (metis le_trans le_square)
  then show "((factor + 1, n), (factor, n)) \<in> measure (\<lambda>(factor, n). Suc n - factor)" by auto
qed simp

declare trial_division.simps [simp del]

definition isPrime :: "nat \<Rightarrow> bool" where
  "isPrime n = trial_division 2 n"

definition getFractionalBits :: "rat \<Rightarrow> word32" where
  "getFractionalBits n = word_of_int \<lfloor>(n - of_int \<lfloor>n\<rfloor>) * 2 ^ 32\<rfloor>"

text \<open>\<open>pow n k\<close> stands for \<^verbatim>\<open>Math.pow(n, 1 / k)\<close>.\<close>

fun sha256_constants ::
    "nat \<Rightarrow> (nat \<Rightarrow> nat \<Rightarrow> rat) \<Rightarrow> nat \<Rightarrow> nat \<Rightarrow> word32 list \<Rightarrow> word32 list \<Rightarrow> (word32 list \<times> word32 list) option" where
  "sha256_constants fuel pow n nPrime H K =
     (if nPrime < 64
      then case fuel of 0 \<Rightarrow> None
        | Suc fuel \<Rightarrow>
            if isPrime n
            then sha256_constants fuel pow (n + 1) (nPrime + 1)
                   (if nPrime < 8 then wset H nPrime (getFractionalBits (pow n 2)) else H)
                   (wset K nPrime (getFractionalBits (pow n 3)))
            else sha256_constants fuel pow (n + 1) nPrime H K
      else Some (H, K))"

declare sha256_constants.simps [simp del]

subsection \<open>The hash\<close>

definition sha256_doReset :: "word32 list \<Rightarrow> word32 list" where
  "sha256_doReset H = H"

definition sha224_doReset :: "word32 list" where
  "sha224_doReset =
     [0xc1059ed8, 0x367cd507, 0x3070dd17, 0xf70e5939, 0xffc00b31, 0x68581511, 0x64f98fa7, 0xbefa4fa4]"

type_synonym sha256_vars =
  "word32 list \<times> word32 \<times> word32 \<times> word32 \<times> word32 \<times> word32 \<times> word32 \<times> word32 \<times> word32"

definition sha256_round :: "word32 list \<Rightarrow> word32 list \<Rightarrow> nat \<Rightarrow> nat \<Rightarrow> sha256_vars \<Rightarrow> sha256_vars" where
  "sha256_round K M offset i = (\<lambda>(W, a, b, c, d, e, f, g, h).
     let W = wset W i
           (if i < 16 then wget M (offset + i)
            else let gamma0x = wget W (i - 15);
                     gamma0 = (shl gamma0x 25 OR shr gamma0x 7) XOR (shl gamma0x 14 OR shr gamma0x 18) XOR shr gamma0x 3;
                     gamma1x = wget W (i - 2);
                     gamma1 = (shl gamma1x 15 OR shr gamma1x 17) XOR (shl gamma1x 13 OR shr gamma1x 19) XOR shr gamma1x 10
                 in gamma0 + wget W (i - 7) + gamma1 + wget W (i - 16));
         ch = (e AND f) XOR (NOT e AND g);
         maj = (a AND b) XOR (a AND c) XOR (b AND c);
         sigma0 = (shl a 30 OR shr a 2) XOR (shl a 19 OR shr a 13) XOR (shl a 10 OR shr a 22);
         sigma1 = (shl e 26 OR shr e 6) XOR (shl e 21 OR shr e 11) XOR (shl e 7 OR shr e 25);
         t1 = h + sigma1 + ch + wget K i + wget W i;
         t2 = sigma0 + maj
     in (W, t1 + t2, a, b, c, d + t1, e, f, g))"

definition sha256_doProcessBlock :: "word32 list \<Rightarrow> word32 list block_step" where
  "sha256_doProcessBlock K M offset H =
     (let (W, a, b, c, d, e, f, g, h) =
            fold (sha256_round K M offset) [0..<64]
              ([], wget H 0, wget H 1, wget H 2, wget H 3, wget H 4, wget H 5, wget H 6, wget H 7)
      in ([wget H 0 + a, wget H 1 + b, wget H 2 + c, wget H 3 + d,
           wget H 4 + e, wget H 5 + f, wget H 6 + g, wget H 7 + h], M))"

definition sha256_doFinalize ::
    "word32 list \<Rightarrow> word32 list BufferedBlockAlgorithm \<Rightarrow> WordArray \<times> word32 list BufferedBlockAlgorithm" where
  "sha256_doFinalize K alg =
     (let data = alg_data alg;
          nBitsTotal = alg_nDataBytes alg * 8;
          nBitsLeft = sigBytes data * 8;
          ws = pad_bit (words data) nBitsLeft;
          ws = wset ws (ushr (nBitsLeft + 64) 9 * 16 + 14) (of_nat (nBitsTotal div 2 ^ 32));
          ws = wset ws (ushr (nBitsLeft + 64) 9 * 16 + 15) (of_nat nBitsTotal);
          alg = snd (bba_process 16 0 (sha256_doProcessBlock K) False
                  (alg\<lparr>alg_data := \<lparr>words = ws, sigBytes = length ws * 4\<rparr>\<rparr>))
      in (WordArray_init (alg_state alg) None, alg))"

definition sha224_doFinalize ::
    "word32 list \<Rightarrow> word32 list BufferedBlockAlgorithm \<Rightarrow> WordArray \<times> word32 list BufferedBlockAlgorithm" where
  "sha224_doFinalize K alg =
     (let (hash, alg) = sha256_doFinalize K alg in (hash\<lparr>sigBytes := sigBytes hash - 4\<rparr>, alg))"

definition SHA256 :: "word32 list \<Rightarrow> word32 list \<Rightarrow> WordArray \<Rightarrow> WordArray" where
  "SHA256 H K message = fst (hasher_finalize (sha256_doFinalize K) (Some message) (bba_reset (sha256_doReset H)))"

definition SHA224 :: "word32 list \<Rightarrow> WordArray \<Rightarrow> WordArray" where
  "SHA224 K message = fst (hasher_finalize (sha224_doFinalize K) (Some message) (bba_reset sha224_doReset))"

subsection \<open>The hash functions\<close>

definition sha256_absorb :: "word32 list \<Rightarrow> word32 list \<Rightarrow> word32 list \<Rightarrow> word32 list" where
  "sha256_absorb K block H = fst (sha256_doProcessBlock K block 0 H)"

lemma sha256_round_block:
  "sha256_round K M offset i = sha256_round K (map (\<lambda>i. wget M (offset + i)) [0..<16]) 0 i"
  by (simp add: sha256_round_def wget_def [of "map _ _"] Let_def cong: if_cong)

interpretation sha256: md_hasher 16 "sha256_doProcessBlock K" "sha256_absorb K" 8 9
  for K
proof unfold_locales
  fix ws offset H
  have "fold (sha256_round K ws offset) [0..<64] v =
      fold (sha256_round K (map (\<lambda>i. wget ws (offset + i)) [0..<16]) 0) [0..<64] v" for v
    by (rule fold_cong [OF refl refl]) (rule sha256_round_block)
  then show "fst (sha256_doProcessBlock K ws offset H) = sha256_absorb K (map (\<lambda>i. wget ws (offset + i)) [0..<16]) H"
    by (simp add: sha256_absorb_def sha256_doProcessBlock_def split: prod.split)
  show "drop (offset + 16) (snd (sha256_doProcessBlock K ws offset H)) = drop (offset + 16) ws"
    by (simp add: sha256_doProcessBlock_def split: prod.split)
qed simp_all

lemma sha256_finalize:
  assumes h: "sha256.holds K h0 B a" and small: "8 * (length B + 8) < (2 :: nat) ^ 32"
  shows "fst (sha256_doFinalize K a) = WordArray_init (md_hash 16 8 be64 (sha256_absorb K) h0 B) None"
proof -
  let ?n = "sigBytes (alg_data a) * 8"
  have n: "alg_nDataBytes a = length B" using h by (auto simp: sha256.holds_def)
  have at: "ushr (?n + 64) 9 * 16 + 14 = sha256.length_at ?n" "ushr (?n + 64) 9 * 16 + 15 = Suc (sha256.length_at ?n)"
    by (simp_all add: sha256.length_at_def)
  note state = sha256.finish [where len = be64, OF h small refl refl sha256.count_blocks be64_words [symmetric]]
  show ?thesis
    unfolding sha256_doFinalize_def Let_def at n sha256.padded_length(2) [OF h small refl] fst_conv
      mult.commute [of "length B" 8]
    by (subst state) simp_all
qed

interpretation sha256: hash_function 16 "sha256_doProcessBlock K" "sha256_absorb K" 8 9 "sha256_doReset H" be64
  "\<lambda>H. WordArray_init H None" "sha256_doFinalize K"
  for K H
  by unfold_locales (rule sha256_finalize)

interpretation sha224: hash_function 16 "sha256_doProcessBlock K" "sha256_absorb K" 8 9 sha224_doReset be64
  "\<lambda>H. \<lparr>words = H, sigBytes = length H * 4 - 4\<rparr>" "sha224_doFinalize K"
  for K
proof unfold_locales
  fix B a
  assume "sha256.holds K sha224_doReset B a" "8 * (length B + 8) < (2 :: nat) ^ 32"
  from sha256_finalize [OF this] show "fst (sha224_doFinalize K a) =
      \<lparr>words = md_hash 16 8 be64 (sha256_absorb K) sha224_doReset B,
       sigBytes = length (md_hash 16 8 be64 (sha256_absorb K) sha224_doReset B) * 4 - 4\<rparr>"
    by (simp add: sha224_doFinalize_def WordArray_init_def split_beta)
qed

end
