(* ===== verification/X64.thy ===== *)
theory X64
  imports Js_Word
begin

text \<open>
  Module \<^verbatim>\<open>x64-core\<close> of CryptoJS (\<^verbatim>\<open>src/internal/jsre/deps/web3.js\<close>): a 64-bit word is a pair of 32-bit
  words. Its arithmetic is commented out in the source and written out again by \<^verbatim>\<open>sha512\<close> and \<^verbatim>\<open>sha3\<close>
  wherever they need it; the lemmas compare those expressions with the operations on \<open>64 word\<close>.
\<close>

subsection \<open>The code\<close>

datatype X64Word = X64Word (high: word32) (low: word32)

record X64WordArray =
  x64_words :: "X64Word list"
  x64_sigBytes :: nat

definition X64WordArray_init :: "X64Word list \<Rightarrow> nat option \<Rightarrow> X64WordArray" where
  "X64WordArray_init ws n = \<lparr>x64_words = ws, x64_sigBytes = (case n of Some k \<Rightarrow> k | None \<Rightarrow> length ws * 8)\<rparr>"

definition x64_toX32 :: "X64Word list \<Rightarrow> word32 list" where
  "x64_toX32 ws = concat (map (\<lambda>x. [high x, low x]) ws)"

text \<open>\<^verbatim>\<open>(a >>> 0) < (b >>> 0) ? 1 : 0\<close>\<close>

definition carry :: "word32 \<Rightarrow> word32 \<Rightarrow> word32" where
  "carry a b = (if a < b then 1 else 0)"

subsection \<open>The 64-bit word a pair stands for\<close>

type_synonym word64 = "64 word"

definition to64 :: "X64Word \<Rightarrow> word64" where
  "to64 x = push_bit 32 (ucast (high x)) OR ucast (low x)"

lemma bit_to64: "bit (to64 (X64Word h l)) k \<longleftrightarrow> (if k < 32 then bit l k else k < 64 \<and> bit h (k - 32))"
  by (auto simp: to64_def bit_or_iff bit_push_bit_iff bit_ucast_iff dest: word32_bit_len)

lemma to64_bitwise:
  "to64 (X64Word (h AND h') (l AND l')) = to64 (X64Word h l) AND to64 (X64Word h' l')"
  "to64 (X64Word (h OR h') (l OR l')) = to64 (X64Word h l) OR to64 (X64Word h' l')"
  "to64 (X64Word (h XOR h') (l XOR l')) = to64 (X64Word h l) XOR to64 (X64Word h' l')"
  "to64 (X64Word (NOT h) (NOT l)) = NOT (to64 (X64Word h l))"
  by (rule bit_word_eqI; auto simp: bit_to64 bit_and_iff bit_or_iff bit_xor_iff bit_not_iff)+

lemma to64_rotr:
  assumes "0 < n" "n < 32"
  shows "to64 (X64Word (shr h n OR shl l (32 - n)) (shr l n OR shl h (32 - n))) = word_rotr n (to64 (X64Word h l))"
proof (rule bit_word_eqI)
  fix k assume "k < LENGTH(64)"
  then have k: "k < 64" by simp
  have m: "(32 - n) mod 32 = 32 - n" "n mod 32 = n" using assms by auto
  have "(k + n) mod 64 = (if k + n < 64 then k + n else k + n - 64)" using k assms by (auto simp: mod_if)
  then show "bit (to64 (X64Word (shr h n OR shl l (32 - n)) (shr l n OR shl h (32 - n)))) k =
      bit (word_rotr n (to64 (X64Word h l))) k"
    using k assms
    by (auto simp: bit_to64 bit_word_rotr_iff bit_or_iff bit_shl bit_shr m add.commute dest: word32_bit_len
        intro: arg_cong [where f = "bit _"])
qed

lemma to64_rotl:
  assumes "0 < n" "n < 32"
  shows "to64 (X64Word (shl h n OR shr l (32 - n)) (shl l n OR shr h (32 - n))) = word_rotr (64 - n) (to64 (X64Word h l))"
proof (rule bit_word_eqI)
  fix k assume "k < LENGTH(64)"
  then have k: "k < 64" by simp
  have m: "(32 - n) mod 32 = 32 - n" "n mod 32 = n" using assms by auto
  have "(k + (64 - n)) mod 64 = (if n \<le> k then k - n else k + 64 - n)"
  proof (cases "n \<le> k")
    case True
    then have "k + (64 - n) = k - n + 64" using assms by simp
    then have "(k + (64 - n)) mod 64 = (k - n) mod 64" by (simp only: mod_add_self2)
    then show ?thesis using True k by simp
  qed (use assms k in simp)
  then show "bit (to64 (X64Word (shl h n OR shr l (32 - n)) (shl l n OR shr h (32 - n)))) k =
      bit (word_rotr (64 - n) (to64 (X64Word h l))) k"
    using k assms
    by (auto simp: bit_to64 bit_word_rotr_iff bit_or_iff bit_shl bit_shr m add.commute dest: word32_bit_len
        intro: arg_cong [where f = "bit _"])
qed

lemma to64_shr:
  assumes "0 < n" "n < 32"
  shows "to64 (X64Word (shr h n) (shr l n OR shl h (32 - n))) = drop_bit n (to64 (X64Word h l))"
proof (rule bit_word_eqI)
  fix k assume "k < LENGTH(64)"
  then have k: "k < 64" by simp
  have m: "(32 - n) mod 32 = 32 - n" "n mod 32 = n" using assms by auto
  show "bit (to64 (X64Word (shr h n) (shr l n OR shl h (32 - n)))) k = bit (drop_bit n (to64 (X64Word h l))) k"
    using k assms
    by (auto simp: bit_to64 bit_drop_bit_eq bit_or_iff bit_shl bit_shr m add.commute dest: word32_bit_len
        intro: arg_cong [where f = "bit _"])
qed

lemma uint_to64: "uint (to64 (X64Word h l)) = uint h * 2 ^ 32 + uint l"
proof -
  have sum: "to64 (X64Word h l) = push_bit 32 (ucast h) + ucast l"
    unfolding to64_def X64Word.sel
  proof (rule disjunctive_add [symmetric])
    fix n show "\<not> bit (push_bit 32 (ucast h :: word64)) n \<or> \<not> bit (ucast l :: word64) n"
      unfolding bit_push_bit_iff bit_ucast_iff using word32_bit_len [of l n] by linarith
  qed
  have lt: "uint h < 2 ^ 32" "uint l < 2 ^ 32" "0 \<le> uint h" "0 \<le> uint l"
    using unsigned_less [of h, where ?'a = int] unsigned_less [of l, where ?'a = int] by simp_all
  have uc: "uint (ucast x :: word64) = uint x" for x :: word32
    by (rule uint_up_ucast) (simp add: is_up)
  have "uint (push_bit 32 (ucast h :: word64)) = (uint h * 2 ^ 32) mod 2 ^ 64"
    unfolding unsigned_push_bit_eq uc by (simp add: take_bit_eq_mod push_bit_eq_mult)
  also have "\<dots> = uint h * 2 ^ 32" using lt by simp
  finally have "uint (to64 (X64Word h l)) = (uint h * 2 ^ 32 + uint l) mod 2 ^ 64"
    unfolding sum by (simp add: uint_word_ariths uc)
  then show ?thesis using lt by simp
qed

lemma half_carry:
  fixes x :: int
  assumes "0 \<le> x" "x < 2 * 2 ^ 32"
  shows "x mod 2 ^ 32 = (if x < 2 ^ 32 then x else x - 2 ^ 32)" "x div 2 ^ 32 = (if x < 2 ^ 32 then 0 else 1)"
proof (atomize (full), cases "x < 2 ^ 32")
  case False
  define y where "y = x - 2 ^ 32"
  have "x = y + 2 ^ 32" "0 \<le> y" "y < 2 ^ 32" using assms False by (simp_all add: y_def)
  then show "x mod 2 ^ 32 = (if x < 2 ^ 32 then x else x - 2 ^ 32) \<and> x div 2 ^ 32 = (if x < 2 ^ 32 then 0 else 1)"
    by simp
qed (use assms in simp)

lemma carry_eq: "uint (carry (a + b) a) = (uint a + uint b) div 2 ^ 32" "carry (a + b) a = carry (a + b) b"
proof -
  have a: "uint a < 2 ^ 32" "uint b < 2 ^ 32" "0 \<le> uint a" "0 \<le> uint b"
    using unsigned_less [of a, where ?'a = int] unsigned_less [of b, where ?'a = int] by simp_all
  have s: "uint (a + b) = (uint a + uint b) mod 2 ^ 32" by (simp add: uint_word_ariths)
  have m: "(uint a + uint b) mod 2 ^ 32 = (if uint a + uint b < 2 ^ 32 then uint a + uint b else uint a + uint b - 2 ^ 32)"
    and d: "(uint a + uint b) div 2 ^ 32 = (if uint a + uint b < 2 ^ 32 then 0 else 1)"
    using half_carry [of "uint a + uint b"] a by simp_all
  then show "uint (carry (a + b) a) = (uint a + uint b) div 2 ^ 32" "carry (a + b) a = carry (a + b) b"
    using a unfolding carry_def word_less_def s d by auto
qed

lemma add_mod_pair:
  fixes H L m :: int
  assumes "0 < m"
  shows "(H + L div m) mod m * m + L mod m = (H * m + L) mod (m * m)"
  using assms by (simp add: mod_mult2_eq' mod_mult2_eq zmod_zmult2_eq ac_simps)

lemma to64_add:
  "to64 (X64Word (h + h' + carry (l + l') l) (l + l')) = to64 (X64Word h l) + to64 (X64Word h' l')"
proof (rule iffD2 [OF word_uint_eq_iff])
  have "uint (to64 (X64Word (h + h' + carry (l + l') l) (l + l'))) =
      (uint h + uint h' + (uint l + uint l') div 2 ^ 32) mod 2 ^ 32 * 2 ^ 32 + (uint l + uint l') mod 2 ^ 32"
    unfolding uint_to64 by (simp add: uint_word_ariths carry_eq mod_add_left_eq)
  also have "\<dots> = ((uint h + uint h') * 2 ^ 32 + (uint l + uint l')) mod (2 ^ 32 * 2 ^ 32)"
    by (rule add_mod_pair) simp
  also have "\<dots> = uint (to64 (X64Word h l) + to64 (X64Word h' l'))"
    by (simp add: uint_word_ariths uint_to64 algebra_simps)
  finally show "uint (to64 (X64Word (h + h' + carry (l + l') l) (l + l'))) = uint (to64 (X64Word h l) + to64 (X64Word h' l'))" .
qed

lemma to64_add':
  "to64 (X64Word (h + h' + carry (l + l') l') (l + l')) = to64 (X64Word h l) + to64 (X64Word h' l')"
  unfolding carry_eq(2) [of l l', symmetric] by (rule to64_add)

end
