(* ===== verification/Roots.thy ===== *)
theory Roots
  imports Prelude
begin

text \<open>
  Integer roots, for the constants of SHA-2: FIPS 180-4 takes them from the fractional parts of the square and cube
  roots of the first primes. The root of \<open>m\<close> is found bit by bit.
\<close>

definition floor_root :: "nat \<Rightarrow> nat \<Rightarrow> nat \<Rightarrow> nat" where
  "floor_root k m b = fold (\<lambda>i r. if (r + 2 ^ i) ^ k \<le> m then r + 2 ^ i else r) (rev [0..<b]) 0"

definition small_root :: "nat \<Rightarrow> nat \<Rightarrow> nat" where
  "small_root k n = length (filter (\<lambda>i. i ^ k \<le> n) [1, 2, 3, 4, 5, 6, 7])"

definition sha2_primes :: "nat list" where
  "sha2_primes =
     [2, 3, 5, 7, 11, 13, 17, 19, 23, 29, 31, 37, 41, 43, 47, 53,
      59, 61, 67, 71, 73, 79, 83, 89, 97, 101, 103, 107, 109, 113, 127, 131,
      137, 139, 149, 151, 157, 163, 167, 173, 179, 181, 191, 193, 197, 199, 211, 223,
      227, 229, 233, 239, 241, 251, 257, 263, 269, 271, 277, 281, 283, 293, 307, 311,
      313, 317, 331, 337, 347, 349, 353, 359, 367, 373, 379, 383, 389, 397, 401, 409]"

lemma small_root_le: "small_root k n \<le> 7"
  using length_filter_le [of "\<lambda>i. i ^ k \<le> n" "[1, 2, 3, 4, 5, 6, 7]"] by (simp add: small_root_def)

lemma floor_root_fold:
  fixes m r :: nat
  assumes "r ^ k \<le> m" "m < (r + 2 ^ b) ^ k"
  shows "let s = fold (\<lambda>i r. if (r + 2 ^ i) ^ k \<le> m then r + 2 ^ i else r) (rev [0..<b]) r
    in s ^ k \<le> m \<and> m < (s + 1) ^ k"
  using assms
proof (induction b arbitrary: r)
  case (Suc b)
  have "m < (r + 2 ^ b + 2 ^ b) ^ k" using Suc.prems(2) by (simp add: mult_2 add.assoc)
  then show ?case using Suc by (simp add: Let_def not_le)
qed simp

lemma floor_root:
  fixes m :: nat
  assumes "0 < k" "m < (2 ^ b) ^ k"
  shows "floor_root k m b ^ k \<le> m" "m < (floor_root k m b + 1) ^ k"
  using floor_root_fold [of 0 k m b] assms by (simp_all add: floor_root_def Let_def zero_power)

lemma floor_root_unique:
  fixes m r :: nat
  assumes "0 < k" "m < (2 ^ b) ^ k" "r ^ k \<le> m" "m < (r + 1) ^ k"
  shows "floor_root k m b = r"
proof (rule antisym)
  note s = floor_root [OF assms(1,2)]
  have "floor_root k m b < r + 1" using le_less_trans [OF s(1) assms(4)] by (rule power_less_imp_less_base) simp
  then show "floor_root k m b \<le> r" by simp
  have "r < floor_root k m b + 1" using le_less_trans [OF assms(3) s(2)] by (rule power_less_imp_less_base) simp
  then show "r \<le> floor_root k m b" by simp
qed

end
