(* ===== verification/Sha512.thy ===== *)
theory Sha512
  imports Merkle_Damgard X64 Roots
begin

text \<open>
  Modules \<^verbatim>\<open>sha512\<close> and \<^verbatim>\<open>sha384\<close> of CryptoJS (\<^verbatim>\<open>src/internal/jsre/deps/web3.js\<close>). The code works on pairs of
  32-bit words with the carries written out; the block function is shown to be that of FIPS 180-4
  on 64-bit words. The code keeps the array \<^verbatim>\<open>W\<close> from one block to the next; every entry is written before
  it is read, so it starts from zeros here.
\<close>

subsection \<open>The code\<close>

definition sha512_K :: "X64Word list" where
  "sha512_K =
    [X64Word 0x428a2f98 0xd728ae22, X64Word 0x71374491 0x23ef65cd, X64Word 0xb5c0fbcf 0xec4d3b2f, X64Word 0xe9b5dba5 0x8189dbbc,
     X64Word 0x3956c25b 0xf348b538, X64Word 0x59f111f1 0xb605d019, X64Word 0x923f82a4 0xaf194f9b, X64Word 0xab1c5ed5 0xda6d8118,
     X64Word 0xd807aa98 0xa3030242, X64Word 0x12835b01 0x45706fbe, X64Word 0x243185be 0x4ee4b28c, X64Word 0x550c7dc3 0xd5ffb4e2,
     X64Word 0x72be5d74 0xf27b896f, X64Word 0x80deb1fe 0x3b1696b1, X64Word 0x9bdc06a7 0x25c71235, X64Word 0xc19bf174 0xcf692694,
     X64Word 0xe49b69c1 0x9ef14ad2, X64Word 0xefbe4786 0x384f25e3, X64Word 0x0fc19dc6 0x8b8cd5b5, X64Word 0x240ca1cc 0x77ac9c65,
     X64Word 0x2de92c6f 0x592b0275, X64Word 0x4a7484aa 0x6ea6e483, X64Word 0x5cb0a9dc 0xbd41fbd4, X64Word 0x76f988da 0x831153b5,
     X64Word 0x983e5152 0xee66dfab, X64Word 0xa831c66d 0x2db43210, X64Word 0xb00327c8 0x98fb213f, X64Word 0xbf597fc7 0xbeef0ee4,
     X64Word 0xc6e00bf3 0x3da88fc2, X64Word 0xd5a79147 0x930aa725, X64Word 0x06ca6351 0xe003826f, X64Word 0x14292967 0x0a0e6e70,
     X64Word 0x27b70a85 0x46d22ffc, X64Word 0x2e1b2138 0x5c26c926, X64Word 0x4d2c6dfc 0x5ac42aed, X64Word 0x53380d13 0x9d95b3df,
     X64Word 0x650a7354 0x8baf63de, X64Word 0x766a0abb 0x3c77b2a8, X64Word 0x81c2c92e 0x47edaee6, X64Word 0x92722c85 0x1482353b,
     X64Word 0xa2bfe8a1 0x4cf10364, X64Word 0xa81a664b 0xbc423001, X64Word 0xc24b8b70 0xd0f89791, X64Word 0xc76c51a3 0x0654be30,
     X64Word 0xd192e819 0xd6ef5218, X64Word 0xd6990624 0x5565a910, X64Word 0xf40e3585 0x5771202a, X64Word 0x106aa070 0x32bbd1b8,
     X64Word 0x19a4c116 0xb8d2d0c8, X64Word 0x1e376c08 0x5141ab53, X64Word 0x2748774c 0xdf8eeb99, X64Word 0x34b0bcb5 0xe19b48a8,
     X64Word 0x391c0cb3 0xc5c95a63, X64Word 0x4ed8aa4a 0xe3418acb, X64Word 0x5b9cca4f 0x7763e373, X64Word 0x682e6ff3 0xd6b2b8a3,
     X64Word 0x748f82ee 0x5defb2fc, X64Word 0x78a5636f 0x43172f60, X64Word 0x84c87814 0xa1f0ab72, X64Word 0x8cc70208 0x1a6439ec,
     X64Word 0x90befffa 0x23631e28, X64Word 0xa4506ceb 0xde82bde9, X64Word 0xbef9a3f7 0xb2c67915, X64Word 0xc67178f2 0xe372532b,
     X64Word 0xca273ece 0xea26619c, X64Word 0xd186b8c7 0x21c0c207, X64Word 0xeada7dd6 0xcde0eb1e, X64Word 0xf57d4f7f 0xee6ed178,
     X64Word 0x06f067aa 0x72176fba, X64Word 0x0a637dc5 0xa2c898a6, X64Word 0x113f9804 0xbef90dae, X64Word 0x1b710b35 0x131c471b,
     X64Word 0x28db77f5 0x23047d84, X64Word 0x32caab7b 0x40c72493, X64Word 0x3c9ebe0a 0x15c9bebc, X64Word 0x431d67c4 0x9c100d4c,
     X64Word 0x4cc5d4be 0xcb3e42b6, X64Word 0x597f299c 0xfc657e2a, X64Word 0x5fcb6fab 0x3ad6faec, X64Word 0x6c44198c 0x4a475817]"

definition sha512_doReset :: "X64Word list" where
  "sha512_doReset =
    [X64Word 0x6a09e667 0xf3bcc908, X64Word 0xbb67ae85 0x84caa73b, X64Word 0x3c6ef372 0xfe94f82b, X64Word 0xa54ff53a 0x5f1d36f1,
     X64Word 0x510e527f 0xade682d1, X64Word 0x9b05688c 0x2b3e6c1f, X64Word 0x1f83d9ab 0xfb41bd6b, X64Word 0x5be0cd19 0x137e2179]"

definition sha384_doReset :: "X64Word list" where
  "sha384_doReset =
    [X64Word 0xcbbb9d5d 0xc1059ed8, X64Word 0x629a292a 0x367cd507, X64Word 0x9159015a 0x3070dd17, X64Word 0x152fecd8 0xf70e5939,
     X64Word 0x67332667 0xffc00b31, X64Word 0x8eb44a87 0x68581511, X64Word 0xdb0c2e0d 0x64f98fa7, X64Word 0x47b5481d 0xbefa4fa4]"

definition sha512_extend :: "word32 list \<Rightarrow> nat \<Rightarrow> nat \<Rightarrow> X64Word list \<Rightarrow> X64Word" where
  "sha512_extend M offset i W =
     (if i < 16 then X64Word (wget M (offset + i * 2)) (wget M (offset + i * 2 + 1))
      else
        let gamma0xh = high (W ! (i - 15)); gamma0xl = low (W ! (i - 15));
            gamma0h = (shr gamma0xh 1 OR shl gamma0xl 31) XOR (shr gamma0xh 8 OR shl gamma0xl 24) XOR shr gamma0xh 7;
            gamma0l = (shr gamma0xl 1 OR shl gamma0xh 31) XOR (shr gamma0xl 8 OR shl gamma0xh 24) XOR
                      (shr gamma0xl 7 OR shl gamma0xh 25);
            gamma1xh = high (W ! (i - 2)); gamma1xl = low (W ! (i - 2));
            gamma1h = (shr gamma1xh 19 OR shl gamma1xl 13) XOR (shl gamma1xh 3 OR shr gamma1xl 29) XOR shr gamma1xh 6;
            gamma1l = (shr gamma1xl 19 OR shl gamma1xh 13) XOR (shl gamma1xl 3 OR shr gamma1xh 29) XOR
                      (shr gamma1xl 6 OR shl gamma1xh 26);
            Wi7h = high (W ! (i - 7)); Wi7l = low (W ! (i - 7));
            Wi16h = high (W ! (i - 16)); Wi16l = low (W ! (i - 16));
            Wil = gamma0l + Wi7l;
            Wih = gamma0h + Wi7h + carry Wil gamma0l;
            Wil = Wil + gamma1l;
            Wih = Wih + gamma1h + carry Wil gamma1l;
            Wil = Wil + Wi16l;
            Wih = Wih + Wi16h + carry Wil Wi16l
        in X64Word Wih Wil)"

type_synonym sha512_vars =
  "X64Word list \<times> X64Word \<times> X64Word \<times> X64Word \<times> X64Word \<times> X64Word \<times> X64Word \<times> X64Word \<times> X64Word"

definition sha512_round :: "word32 list \<Rightarrow> nat \<Rightarrow> nat \<Rightarrow> sha512_vars \<Rightarrow> sha512_vars" where
  "sha512_round M offset i = (\<lambda>(W, a, b, c, d, e, f, g, h).
      let ah = high a; al = low a; bh = high b; bl = low b; ch = high c; cl = low c; dh = high d; dl = low d;
          eh = high e; el = low e; fh = high f; fl = low f; gh = high g; gl = low g; hh = high h; hl = low h;
          Wi = sha512_extend M offset i W;
          W = W[i := Wi];
          Wih = high Wi; Wil = low Wi;
          chh = (eh AND fh) XOR (NOT eh AND gh);
          chl = (el AND fl) XOR (NOT el AND gl);
          majh = (ah AND bh) XOR (ah AND ch) XOR (bh AND ch);
          majl = (al AND bl) XOR (al AND cl) XOR (bl AND cl);
          sigma0h = (shr ah 28 OR shl al 4) XOR (shl ah 30 OR shr al 2) XOR (shl ah 25 OR shr al 7);
          sigma0l = (shr al 28 OR shl ah 4) XOR (shl al 30 OR shr ah 2) XOR (shl al 25 OR shr ah 7);
          sigma1h = (shr eh 14 OR shl el 18) XOR (shr eh 18 OR shl el 14) XOR (shl eh 23 OR shr el 9);
          sigma1l = (shr el 14 OR shl eh 18) XOR (shr el 18 OR shl eh 14) XOR (shl el 23 OR shr eh 9);
          Kih = high (sha512_K ! i); Kil = low (sha512_K ! i);
          t1l = hl + sigma1l;
          t1h = hh + sigma1h + carry t1l hl;
          t1l = t1l + chl;
          t1h = t1h + chh + carry t1l chl;
          t1l = t1l + Kil;
          t1h = t1h + Kih + carry t1l Kil;
          t1l = t1l + Wil;
          t1h = t1h + Wih + carry t1l Wil;
          t2l = sigma0l + majl;
          t2h = sigma0h + majh + carry t2l sigma0l;
          el' = dl + t1l;
          eh' = dh + t1h + carry el' dl;
          al' = t1l + t2l;
          ah' = t1h + t2h + carry al' t1l
      in (W, X64Word ah' al', X64Word ah al, X64Word bh bl, X64Word ch cl,
          X64Word eh' el', X64Word eh el, X64Word fh fl, X64Word gh gl))"

definition sha512_sum :: "X64Word \<Rightarrow> X64Word \<Rightarrow> X64Word" where
  "sha512_sum H0 a = (let H0l = low H0 + low a in X64Word (high H0 + high a + carry H0l (low a)) H0l)"

definition sha512_doProcessBlock :: "X64Word list block_step" where
  "sha512_doProcessBlock M offset H =
     (let (W, a, b, c, d, e, f, g, h) =
            fold (sha512_round M offset) [0..<80]
              (replicate 80 (X64Word 0 0), H ! 0, H ! 1, H ! 2, H ! 3, H ! 4, H ! 5, H ! 6, H ! 7)
      in ([sha512_sum (H ! 0) a, sha512_sum (H ! 1) b, sha512_sum (H ! 2) c, sha512_sum (H ! 3) d,
           sha512_sum (H ! 4) e, sha512_sum (H ! 5) f, sha512_sum (H ! 6) g, sha512_sum (H ! 7) h], M))"

definition sha512_doFinalize ::
    "X64Word list BufferedBlockAlgorithm \<Rightarrow> WordArray \<times> X64Word list BufferedBlockAlgorithm" where
  "sha512_doFinalize alg =
     (let data = alg_data alg;
          nBitsTotal = alg_nDataBytes alg * 8;
          nBitsLeft = sigBytes data * 8;
          ws = pad_bit (words data) nBitsLeft;
          ws = wset ws (ushr (nBitsLeft + 128) 10 * 32 + 30) (of_nat (nBitsTotal div 2 ^ 32));
          ws = wset ws (ushr (nBitsLeft + 128) 10 * 32 + 31) (of_nat nBitsTotal);
          alg = snd (bba_process 32 0 sha512_doProcessBlock False
                  (alg\<lparr>alg_data := \<lparr>words = ws, sigBytes = length ws * 4\<rparr>\<rparr>))
      in (WordArray_init (x64_toX32 (alg_state alg)) (Some (length (alg_state alg) * 8)), alg))"

definition sha384_doFinalize ::
    "X64Word list BufferedBlockAlgorithm \<Rightarrow> WordArray \<times> X64Word list BufferedBlockAlgorithm" where
  "sha384_doFinalize alg =
     (let (hash, alg) = sha512_doFinalize alg in (hash\<lparr>sigBytes := sigBytes hash - 16\<rparr>, alg))"

definition SHA512 :: "WordArray \<Rightarrow> WordArray" where
  "SHA512 message = fst (hasher_finalize sha512_doFinalize (Some message) (bba_reset sha512_doReset))"

definition SHA384 :: "WordArray \<Rightarrow> WordArray" where
  "SHA384 message = fst (hasher_finalize sha384_doFinalize (Some message) (bba_reset sha384_doReset))"

subsection \<open>FIPS 180-4\<close>

text \<open>The first 64 bits of the fractional parts of the cube roots of the first 80 primes.\<close>

definition fips512_K :: "word64 list" where
  "fips512_K = map (\<lambda>p. of_nat (floor_root 3 (p * 2 ^ 192) 67)) sha2_primes"

definition fips512_extend :: "(nat \<Rightarrow> word64) \<Rightarrow> nat \<Rightarrow> word64 list \<Rightarrow> word64" where
  "fips512_extend m i W =
     (if i < 16 then m i
      else (word_rotr 1 (W ! (i - 15)) XOR word_rotr 8 (W ! (i - 15)) XOR drop_bit 7 (W ! (i - 15))) + W ! (i - 7) +
           (word_rotr 19 (W ! (i - 2)) XOR word_rotr 61 (W ! (i - 2)) XOR drop_bit 6 (W ! (i - 2))) + W ! (i - 16))"

type_synonym fips512_vars =
  "word64 list \<times> word64 \<times> word64 \<times> word64 \<times> word64 \<times> word64 \<times> word64 \<times> word64 \<times> word64"

definition fips512_round :: "(nat \<Rightarrow> word64) \<Rightarrow> nat \<Rightarrow> fips512_vars \<Rightarrow> fips512_vars" where
  "fips512_round m i = (\<lambda>(W, a, b, c, d, e, f, g, h).
     let w = fips512_extend m i W;
         t1 = h + (word_rotr 14 e XOR word_rotr 18 e XOR word_rotr 41 e) + ((e AND f) XOR (NOT e AND g)) +
              fips512_K ! i + w;
         t2 = (word_rotr 28 a XOR word_rotr 34 a XOR word_rotr 39 a) + ((a AND b) XOR (a AND c) XOR (b AND c))
     in (W[i := w], t1 + t2, a, b, c, d + t1, e, f, g))"

definition fips512_block :: "(nat \<Rightarrow> word64) \<Rightarrow> word64 list \<Rightarrow> word64 list" where
  "fips512_block m H =
     (let (W, a, b, c, d, e, f, g, h) =
            fold (fips512_round m) [0..<80]
              (replicate 80 0, H ! 0, H ! 1, H ! 2, H ! 3, H ! 4, H ! 5, H ! 6, H ! 7)
      in [H ! 0 + a, H ! 1 + b, H ! 2 + c, H ! 3 + d, H ! 4 + e, H ! 5 + f, H ! 6 + g, H ! 7 + h])"

subsection \<open>The code computes it\<close>

lemma sha512_rotations:
  "to64 (X64Word (shr h 1 OR shl l 31) (shr l 1 OR shl h 31)) = word_rotr 1 (to64 (X64Word h l))"
  "to64 (X64Word (shr h 8 OR shl l 24) (shr l 8 OR shl h 24)) = word_rotr 8 (to64 (X64Word h l))"
  "to64 (X64Word (shr h 19 OR shl l 13) (shr l 19 OR shl h 13)) = word_rotr 19 (to64 (X64Word h l))"
  "to64 (X64Word (shl h 3 OR shr l 29) (shl l 3 OR shr h 29)) = word_rotr 61 (to64 (X64Word h l))"
  "to64 (X64Word (shr h 28 OR shl l 4) (shr l 28 OR shl h 4)) = word_rotr 28 (to64 (X64Word h l))"
  "to64 (X64Word (shl h 30 OR shr l 2) (shl l 30 OR shr h 2)) = word_rotr 34 (to64 (X64Word h l))"
  "to64 (X64Word (shl h 25 OR shr l 7) (shl l 25 OR shr h 7)) = word_rotr 39 (to64 (X64Word h l))"
  "to64 (X64Word (shr h 14 OR shl l 18) (shr l 14 OR shl h 18)) = word_rotr 14 (to64 (X64Word h l))"
  "to64 (X64Word (shr h 18 OR shl l 14) (shr l 18 OR shl h 14)) = word_rotr 18 (to64 (X64Word h l))"
  "to64 (X64Word (shl h 23 OR shr l 9) (shl l 23 OR shr h 9)) = word_rotr 41 (to64 (X64Word h l))"
  "to64 (X64Word (shr h 7) (shr l 7 OR shl h 25)) = drop_bit 7 (to64 (X64Word h l))"
  "to64 (X64Word (shr h 6) (shr l 6 OR shl h 26)) = drop_bit 6 (to64 (X64Word h l))"
  using to64_rotr [of 1 h l] to64_rotr [of 8 h l] to64_rotr [of 19 h l] to64_rotl [of 3 h l] to64_rotr [of 28 h l]
    to64_rotl [of 30 h l] to64_rotl [of 25 h l] to64_rotr [of 14 h l] to64_rotr [of 18 h l] to64_rotl [of 23 h l]
    to64_shr [of 7 h l] to64_shr [of 6 h l]
  by simp_all

lemmas to64_rules = sha512_rotations to64_bitwise(1,3,4) to64_add to64_add'

lemma sha512_extend_64:
  assumes "i < 80" "length W = 80"
  shows "to64 (sha512_extend M offset i W) =
    fips512_extend (\<lambda>j. to64 (X64Word (wget M (offset + j * 2)) (wget M (offset + j * 2 + 1)))) i (map to64 W)"
proof (cases "i < 16")
  case True
  then show ?thesis by (simp add: sha512_extend_def fips512_extend_def)
next
  case False
  have nth: "map to64 W ! (i - k) = to64 (X64Word (high (W ! (i - k))) (low (W ! (i - k))))" for k
    using assms by simp
  show ?thesis
    unfolding sha512_extend_def fips512_extend_def Let_def nth if_not_P [OF False] to64_rules ..
qed

lemma sha512_K_length: "length sha512_K = 80"
  by (simp add: sha512_K_def)

definition cube_root_bits :: "nat \<Rightarrow> nat \<Rightarrow> bool" where
  "cube_root_bits p w \<longleftrightarrow>
     (let r = small_root 3 p * 2 ^ 64 + w in r ^ 3 \<le> p * 2 ^ 192 \<and> p * 2 ^ 192 < (r + 1) ^ 3)"

lemma cube_root_bits:
  assumes "cube_root_bits p (unat x)"
  shows "of_nat (floor_root 3 (p * 2 ^ 192) 67) = (x :: word64)"
proof -
  define c where "c = small_root 3 p"
  have c: "c \<le> 7" "(c * 2 ^ 64 + unat x) ^ 3 \<le> p * 2 ^ 192" "p * 2 ^ 192 < (c * 2 ^ 64 + unat x + 1) ^ 3"
    using assms small_root_le by (simp_all only: cube_root_bits_def c_def Let_def)
  have "unat x < 2 ^ 64" using unsigned_less [of x, where ?'a = nat] by simp
  moreover have "c * 2 ^ 64 \<le> 7 * 2 ^ 64" using c(1) by simp
  ultimately have "c * 2 ^ 64 + unat x + 1 \<le> 2 ^ 67" by simp
  then have "(c * 2 ^ 64 + unat x + 1) ^ 3 \<le> (2 ^ 67) ^ 3" by (rule power_mono) simp
  then have "p * 2 ^ 192 < (2 ^ 67) ^ 3" using c(3) by (rule order.strict_trans2 [rotated])
  from floor_root_unique [OF _ this c(2,3)] have "floor_root 3 (p * 2 ^ 192) 67 = c * 2 ^ 64 + unat x" by simp
  moreover have "(of_nat (c * 2 ^ 64) :: word64) = 0" by (simp only: word_of_nat_eq_0_iff) simp
  ultimately show ?thesis by (simp only: of_nat_add) simp
qed

lemma sha512_K_roots: "list_all2 (\<lambda>p x. cube_root_bits p (unat (to64 x))) sha2_primes sha512_K"
  by (simp add: sha2_primes_def sha512_K_def to64_def push_bit_eq_mult cube_root_bits_def small_root_def)

lemma sha512_K_64: "map to64 sha512_K = fips512_K"
proof -
  have "list_all2 (\<lambda>p x. of_nat (floor_root 3 (p * 2 ^ 192) 67) = to64 x) sha2_primes sha512_K"
    using sha512_K_roots by (rule list_all2_mono) (rule cube_root_bits)
  then show ?thesis unfolding fips512_K_def by (induction rule: list_all2_induct) simp_all
qed

fun vars64 :: "sha512_vars \<Rightarrow> fips512_vars" where
  "vars64 (W, a, b, c, d, e, f, g, h) =
     (map to64 W, to64 a, to64 b, to64 c, to64 d, to64 e, to64 f, to64 g, to64 h)"

lemma sha512_round_64:
  assumes "i < 80" "length (fst v) = 80"
  shows "vars64 (sha512_round M offset i v) =
    fips512_round (\<lambda>j. to64 (X64Word (wget M (offset + j * 2)) (wget M (offset + j * 2 + 1)))) i (vars64 v)"
    and "length (fst (sha512_round M offset i v)) = 80"
proof -
  obtain W a b c d e f g h where v: "v = (W, a, b, c, d, e, f, g, h)" by (cases v) auto
  have W: "length W = 80" using assms(2) v by simp
  have K: "fips512_K ! i = to64 (X64Word (high (sha512_K ! i)) (low (sha512_K ! i)))"
    unfolding sha512_K_64 [symmetric] using assms(1) sha512_K_length by simp
  define w where "w = sha512_extend M offset i W"
  have w: "fips512_extend (\<lambda>j. to64 (X64Word (wget M (offset + j * 2)) (wget M (offset + j * 2 + 1)))) i (map to64 W) =
      to64 (X64Word (high w) (low w))"
    using sha512_extend_64 [OF assms(1) W] by (simp add: w_def)
  have x: "to64 x = to64 (X64Word (high x) (low x))" for x by simp
  show "vars64 (sha512_round M offset i v) =
      fips512_round (\<lambda>j. to64 (X64Word (wget M (offset + j * 2)) (wget M (offset + j * 2 + 1)))) i (vars64 v)"
    unfolding v sha512_round_def fips512_round_def vars64.simps prod.case Let_def w K map_update
      w_def [symmetric] to64_rules x [of a] x [of b] x [of c] x [of d] x [of e] x [of f] x [of g] x [of h] x [of w]
    by (simp only: X64Word.collapse)
  show "length (fst (sha512_round M offset i v)) = 80" by (simp add: v sha512_round_def Let_def W)
qed

lemma sha512_rounds_64:
  assumes "n \<le> 80" "length (fst v) = 80"
  shows "vars64 (fold (sha512_round M offset) [0..<n] v) =
      fold (fips512_round (\<lambda>j. to64 (X64Word (wget M (offset + j * 2)) (wget M (offset + j * 2 + 1))))) [0..<n] (vars64 v) \<and>
    length (fst (fold (sha512_round M offset) [0..<n] v)) = 80"
  using assms by (induction n) (simp_all add: sha512_round_64)

definition sha512_absorb :: "word32 list \<Rightarrow> X64Word list \<Rightarrow> X64Word list" where
  "sha512_absorb block H = fst (sha512_doProcessBlock block 0 H)"

definition fips512_absorb :: "word32 list \<Rightarrow> word64 list \<Rightarrow> word64 list" where
  "fips512_absorb block = fips512_block (\<lambda>j. to64 (X64Word (wget block (j * 2)) (wget block (j * 2 + 1))))"

lemma to64_sum: "to64 (sha512_sum x y) = to64 x + to64 y"
  using to64_add' [of "high x" "high y" "low x" "low y"] by (simp add: sha512_sum_def Let_def)

lemma length_sha512_absorb: "length (sha512_absorb block H) = 8"
  by (simp add: sha512_absorb_def sha512_doProcessBlock_def split: prod.split)

lemma sha512_absorb_64:
  assumes "length H = 8"
  shows "map to64 (sha512_absorb block H) = fips512_absorb block (map to64 H)"
proof -
  let ?v = "(replicate 80 (X64Word 0 0), H ! 0, H ! 1, H ! 2, H ! 3, H ! 4, H ! 5, H ! 6, H ! 7)"
  obtain W a b c d e f g h where r: "fold (sha512_round block 0) [0..<80] ?v = (W, a, b, c, d, e, f, g, h)"
    by (metis prod_cases6 prod_cases3)
  have zero: "to64 (X64Word 0 0) = 0" by (simp add: to64_def)
  have f: "fold (fips512_round (\<lambda>j. to64 (X64Word (wget block (j * 2)) (wget block (j * 2 + 1))))) [0..<80]
      (replicate 80 0, map to64 H ! 0, map to64 H ! 1, map to64 H ! 2, map to64 H ! 3, map to64 H ! 4, map to64 H ! 5,
       map to64 H ! 6, map to64 H ! 7) = vars64 (W, a, b, c, d, e, f, g, h)"
    using sha512_rounds_64 [of 80 ?v block 0] assms unfolding r by (simp add: zero)
  show ?thesis
    unfolding sha512_absorb_def sha512_doProcessBlock_def fips512_absorb_def fips512_block_def r f Let_def vars64.simps
      prod.case fst_conv
    using assms by (simp add: to64_sum)
qed

lemma sha512_extend_block:
  "sha512_extend M offset i W = sha512_extend (map (\<lambda>i. wget M (offset + i)) [0..<32]) 0 i W"
proof (cases "i < 16")
  case True
  then show ?thesis by (simp add: sha512_extend_def wget_def [of "map _ _"] add.assoc)
next
  case False
  show ?thesis unfolding sha512_extend_def if_not_P [OF False] ..
qed

interpretation sha512: md_hasher 32 sha512_doProcessBlock sha512_absorb 16 10
proof unfold_locales
  fix ws offset H
  let ?block = "map (\<lambda>i. wget ws (offset + i)) [0..<32]"
  have "fold (sha512_round ws offset) [0..<80] v = fold (sha512_round ?block 0) [0..<80] v" for v
    by (rule fold_cong [OF refl refl]) (simp only: sha512_round_def sha512_extend_block [of ws offset])
  then show "fst (sha512_doProcessBlock ws offset H) = sha512_absorb ?block H"
    by (simp add: sha512_absorb_def sha512_doProcessBlock_def split: prod.split)
  show "drop (offset + 32) (snd (sha512_doProcessBlock ws offset H)) = drop (offset + 32) ws"
    by (simp add: sha512_doProcessBlock_def split: prod.split)
qed simp_all

lemma sha512_finalize:
  assumes h: "sha512.holds h0 B a" and small: "8 * (length B + 16) < (2 :: nat) ^ 32"
  shows "fst (sha512_doFinalize a) =
    (let H = md_hash 32 16 be64 sha512_absorb h0 B in WordArray_init (x64_toX32 H) (Some (length H * 8)))"
proof -
  let ?n = "sigBytes (alg_data a) * 8"
  have n: "alg_nDataBytes a = length B" using h by (auto simp: sha512.holds_def)
  have at: "ushr (?n + 128) 10 * 32 + 30 = sha512.length_at ?n" "ushr (?n + 128) 10 * 32 + 31 = Suc (sha512.length_at ?n)"
    by (simp_all add: sha512.length_at_def)
  note state = sha512.finish [where len = be64, OF h small refl refl sha512.count_blocks be64_words [symmetric]]
  show ?thesis
    unfolding sha512_doFinalize_def Let_def at n sha512.padded_length(2) [OF h small refl] fst_conv
      mult.commute [of "length B" 8]
    by (subst state, simp)+ simp
qed

interpretation sha512: hash_function 32 sha512_doProcessBlock sha512_absorb 16 10 sha512_doReset be64
  "\<lambda>H. WordArray_init (x64_toX32 H) (Some (length H * 8))" sha512_doFinalize
  by unfold_locales (use sha512_finalize in \<open>simp add: Let_def\<close>)

interpretation sha384: hash_function 32 sha512_doProcessBlock sha512_absorb 16 10 sha384_doReset be64
  "\<lambda>H. WordArray_init (x64_toX32 H) (Some (length H * 8 - 16))" sha384_doFinalize
proof unfold_locales
  fix B a
  assume "sha512.holds sha384_doReset B a" "8 * (length B + 16) < (2 :: nat) ^ 32"
  from sha512_finalize [OF this] show "fst (sha384_doFinalize a) =
      WordArray_init (x64_toX32 (md_hash 32 16 be64 sha512_absorb sha384_doReset B))
        (Some (length (md_hash 32 16 be64 sha512_absorb sha384_doReset B) * 8 - 16))"
    by (simp add: sha384_doFinalize_def WordArray_init_def split_beta Let_def)
qed

lemma sha512_md_hash_64:
  assumes "length h0 = 8"
  shows "map to64 (md_hash 32 16 be64 sha512_absorb h0 B) = md_hash 32 16 be64 fips512_absorb (map to64 h0) B \<and>
    length (md_hash 32 16 be64 sha512_absorb h0 B) = 8"
proof -
  have "map to64 (absorb_bytes 32 sha512_absorb m P h0) = absorb_bytes 32 fips512_absorb m P (map to64 h0) \<and>
      length (absorb_bytes 32 sha512_absorb m P h0) = 8" for m P
    using assms by (induction m) (simp_all add: absorb_bytes_def sha512_absorb_64 length_sha512_absorb)
  then show ?thesis by (simp add: md_hash_def Let_def)
qed

end
