(* ===== verification/Sha2_Tables.thy ===== *)
theory Sha2_Tables
  imports Sha256 Sha512
begin

text \<open>
  The tables of SHA-256. \<^verbatim>\<open>sha256\<close> computes them with \<^verbatim>\<open>Math.pow\<close> when it is loaded; FIPS 180-4 takes them
  from the first 32 bits of the fractional parts of the square roots of the first 8 primes and of the cube roots of
  the first 64.
\<close>

definition fips_H256 :: "int list" where
  "fips_H256 = map (\<lambda>p. int (floor_root 2 (p * 2 ^ 64) 35) mod 2 ^ 32) (take 8 sha2_primes)"

definition fips_K256 :: "int list" where
  "fips_K256 = map (\<lambda>p. int (floor_root 3 (p * 2 ^ 96) 35) mod 2 ^ 32) (take 64 sha2_primes)"

definition root_near :: "rat \<Rightarrow> nat \<Rightarrow> nat \<Rightarrow> bool" where
  "root_near p n k \<longleftrightarrow> 1 \<le> p \<and> (p - 1 / 2 ^ 42) ^ k \<le> of_nat n \<and> of_nat n \<le> (p + 1 / 2 ^ 42) ^ k"

definition clear_of_rounding :: "nat \<Rightarrow> nat \<Rightarrow> int \<Rightarrow> bool" where
  "clear_of_rounding k n w \<longleftrightarrow>
     (let r = int (small_root k n) * 2 ^ 32 + w
      in (1024 * r + 1) ^ k < int n * 2 ^ (42 * k) \<and> int n * 2 ^ (42 * k) < (1024 * r + 1023) ^ k)"

lemma power_scale: "((of_int a :: rat) / 2 ^ m) ^ k = of_int (a ^ k) / 2 ^ (m * k)"
  by (simp add: power_divide power_mult)

lemma getFractionalBits_root:
  assumes near: "root_near p n k" and clear: "clear_of_rounding k n w" and "0 \<le> w"
  shows "getFractionalBits p = word_of_int w"
proof -
  define r where "r = int (small_root k n) * 2 ^ 32 + w"
  have r0: "0 \<le> r" using assms(3) by (simp add: r_def small_root_def)
  have c: "(1024 * r + 1) ^ k < int n * 2 ^ (42 * k)" "int n * 2 ^ (42 * k) < (1024 * r + 1023) ^ k"
    using clear by (simp_all add: clear_of_rounding_def Let_def r_def)
  have scale: "of_int (int n * 2 ^ (42 * k)) / 2 ^ (42 * k) = (of_nat n :: rat)" by simp
  have "(of_int (1024 * r + 1) / 2 ^ 42) ^ k < (of_nat n :: rat)"
    unfolding power_scale scale [symmetric] using c(1) by (intro divide_strict_right_mono) (simp_all only: of_int_less_iff, simp)
  then have "(of_int (1024 * r + 1) / 2 ^ 42) ^ k < (p + 1 / 2 ^ 42) ^ k" using near unfolding root_near_def by linarith
  then have lo: "of_int (1024 * r + 1) / 2 ^ 42 < p + 1 / 2 ^ 42"
    by (rule power_less_imp_less_base) (use near in \<open>simp add: root_near_def\<close>)
  have "(of_nat n :: rat) < (of_int (1024 * r + 1023) / 2 ^ 42) ^ k"
    unfolding power_scale scale [symmetric] using c(2) by (intro divide_strict_right_mono) (simp_all only: of_int_less_iff, simp)
  then have "(p - 1 / 2 ^ 42) ^ k < (of_int (1024 * r + 1023) / 2 ^ 42) ^ k" using near unfolding root_near_def by linarith
  then have hi: "p - 1 / 2 ^ 42 < of_int (1024 * r + 1023) / 2 ^ 42"
    by (rule power_less_imp_less_base) (use r0 in simp)
  have "\<lfloor>p * 2 ^ 32\<rfloor> = r" using lo hi by (intro floor_unique) (simp_all add: field_simps)
  moreover have "(p - of_int \<lfloor>p\<rfloor>) * 2 ^ 32 = p * 2 ^ 32 - of_int (\<lfloor>p\<rfloor> * 2 ^ 32)" by (simp add: left_diff_distrib)
  ultimately have "\<lfloor>(p - of_int \<lfloor>p\<rfloor>) * 2 ^ 32\<rfloor> = r - \<lfloor>p\<rfloor> * 2 ^ 32" by (simp only: floor_diff_of_int)
  moreover have "r - \<lfloor>p\<rfloor> * 2 ^ 32 = w + 2 ^ 32 * (int (small_root k n) - \<lfloor>p\<rfloor>)" by (simp add: r_def algebra_simps)
  ultimately have "getFractionalBits p = word_of_int (w + 2 ^ 32 * (int (small_root k n) - \<lfloor>p\<rfloor>))"
    by (simp only: getFractionalBits_def)
  also have "\<dots> = word_of_int w"
  proof -
    have "word_of_int (w + 2 ^ 32 * z) = (word_of_int w :: word32)" for z
      unfolding word_of_int_eq_iff take_bit_eq_mod by simp
    then show ?thesis .
  qed
  finally show ?thesis .
qed

lemma sha256_constants_run:
  "sha256_constants 310 pow 2 0 [] [] =
     Some (map (\<lambda>n. getFractionalBits (pow n 2)) (take 8 sha2_primes),
           map (\<lambda>n. getFractionalBits (pow n 3)) (take 64 sha2_primes))"
  by (simp add: sha256_constants.simps isPrime_def trial_division.simps wset_def sha2_primes_def)

text \<open>The high halves of the constants of SHA-512 are those of SHA-256.\<close>

lemma clear_high:
  "list_all2 (\<lambda>n x. clear_of_rounding 2 n (uint (high x))) (take 8 sha2_primes) sha512_doReset"
  "list_all2 (\<lambda>n x. clear_of_rounding 3 n (uint (high x))) (take 64 sha2_primes) (take 64 sha512_K)"
  by (simp_all add: sha2_primes_def sha512_doReset_def sha512_K_def clear_of_rounding_def small_root_def)

lemma clear_root:
  assumes clear: "clear_of_rounding k n (uint x)" and k: "0 < k"
  shows "int (floor_root k (n * 2 ^ (32 * k)) 35) mod 2 ^ 32 = uint (x :: word32)"
proof -
  define r where "r = small_root k n * 2 ^ 32 + unat x"
  have r: "int (small_root k n) * 2 ^ 32 + uint x = int r" by (simp add: r_def)
  have c: "(1024 * int r + 1) ^ k < int n * 2 ^ (42 * k)" "int n * 2 ^ (42 * k) < (1024 * int r + 1023) ^ k"
    using clear by (simp_all only: clear_of_rounding_def Let_def r)
  have split: "n * 2 ^ (42 * k) = n * 2 ^ (32 * k) * 1024 ^ k"
  proof -
    have "42 * k = 32 * k + 10 * k" by simp
    then have "(2 :: nat) ^ (42 * k) = 2 ^ (32 * k) * (2 ^ 10) ^ k" by (simp only: power_add power_mult)
    then show ?thesis by simp
  qed
  have "(1024 * r) ^ k \<le> (1024 * r + 1) ^ k" by (rule power_mono) simp_all
  also have "(1024 * r + 1) ^ k < n * 2 ^ (42 * k)" using c(1) by (simp add: add.commute flip: of_nat_less_iff [where ?'a = int])
  finally have "r ^ k * 1024 ^ k < n * 2 ^ (32 * k) * 1024 ^ k"
    unfolding split power_mult_distrib mult.commute [of "1024 ^ k"] .
  then have lo: "r ^ k \<le> n * 2 ^ (32 * k)" by simp
  have "n * 2 ^ (42 * k) < (1024 * r + 1023) ^ k" using c(2) by (simp add: add.commute flip: of_nat_less_iff [where ?'a = int])
  also have "\<dots> \<le> (1024 * (r + 1)) ^ k" by (rule power_mono) simp_all
  finally have "n * 2 ^ (32 * k) * 1024 ^ k < (r + 1) ^ k * 1024 ^ k"
    unfolding split power_mult_distrib mult.commute [of "1024 ^ k"] .
  then have hi: "n * 2 ^ (32 * k) < (r + 1) ^ k" by simp
  have x: "unat x < 2 ^ 32" using unsigned_less [of x, where ?'a = nat] by simp
  then have "r + 1 \<le> 2 ^ 35" using small_root_le [of k n] by (simp add: r_def)
  then have "(r + 1) ^ k \<le> (2 ^ 35) ^ k" by (rule power_mono) simp
  with floor_root_unique [OF k _ lo hi] hi have "floor_root k (n * 2 ^ (32 * k)) 35 = r" by simp
  moreover have "int r mod 2 ^ 32 = uint x"
    using unsigned_less [of x, where ?'a = int] by (simp add: r_def mod_pos_pos_trivial)
  ultimately show ?thesis by simp
qed

lemma fips_tables:
  "fips_H256 = map (uint \<circ> high) sha512_doReset" "fips_K256 = map (uint \<circ> high) (take 64 sha512_K)"
proof -
  have "map (\<lambda>n. int (floor_root k (n * 2 ^ (32 * k)) 35) mod 2 ^ 32) ns = map (uint \<circ> high) xs"
    if "list_all2 (\<lambda>n x. clear_of_rounding k n (uint (high x))) ns xs" "0 < k" for k ns xs
    using that by (induction rule: list_all2_induct) (simp_all only: list.map clear_root comp_apply)
  from this [OF clear_high(1)] this [OF clear_high(2)]
  show "fips_H256 = map (uint \<circ> high) sha512_doReset" "fips_K256 = map (uint \<circ> high) (take 64 sha512_K)"
    by (simp_all only: fips_H256_def fips_K256_def) simp_all
qed

lemma clear_fips:
  "list_all2 (\<lambda>n w. clear_of_rounding 2 n w \<and> 0 \<le> w) (take 8 sha2_primes) fips_H256"
  "list_all2 (\<lambda>n w. clear_of_rounding 3 n w \<and> 0 \<le> w) (take 64 sha2_primes) fips_K256"
  unfolding fips_tables list_all2_map2 using clear_high by simp_all

lemma roots_table:
  assumes "list_all2 (\<lambda>n w. clear_of_rounding k n w \<and> 0 \<le> w) ns ws" "\<And>n. n \<in> set ns \<Longrightarrow> root_near (pow n k) n k"
  shows "map (\<lambda>n. getFractionalBits (pow n k)) ns = map word_of_int ws"
  using assms by (induction rule: list_all2_induct) (auto intro: getFractionalBits_root)

lemma sha2_primes_bound: "list_all (\<lambda>n. 2 \<le> n \<and> n \<le> 311) (take 64 sha2_primes)"
  by (simp add: sha2_primes_def)

text \<open>An instance of \<^verbatim>\<open>Math.pow\<close>.\<close>

definition exact_pow :: "nat \<Rightarrow> nat \<Rightarrow> rat" where
  "exact_pow n k = of_nat (floor_root k (n * 2 ^ (43 * k)) 64) / 2 ^ 43"

lemma exact_pow_near:
  assumes "2 \<le> n" "n \<le> 311" "k = 2 \<or> k = 3"
  shows "root_near (exact_pow n k) n k"
proof -
  define m where "m = n * 2 ^ (43 * k)"
  define s where "s = floor_root k m 64"
  have "n * 2 ^ (43 * k) \<le> 311 * 2 ^ (43 * k)" using assms(2) by simp
  also have "\<dots> < (2 ^ 64) ^ k" using assms(3) by auto
  finally have "m < (0 + 2 ^ 64) ^ k" by (simp add: m_def)
  then have s: "s ^ k \<le> m" "m < (s + 1) ^ k"
    using floor_root [of k m 64] assms(3) by (auto simp: s_def)
  have "(2 ^ 43) ^ k \<le> m" using assms(1) by (simp add: m_def power_mult)
  also note s(2)
  finally have "2 ^ 43 < s + 1" by (rule power_less_imp_less_base) simp
  then have "(of_nat (2 ^ 43) :: rat) \<le> of_nat s" by (simp only: of_nat_le_iff)
  then have one: "1 \<le> exact_pow n k" by (simp add: exact_pow_def s_def m_def)
  have div: "of_nat m / (2 ^ 43) ^ k = (of_nat n :: rat)" by (simp add: m_def power_mult)
  have "exact_pow n k ^ k = of_nat (s ^ k) / (2 ^ 43) ^ k" by (simp add: exact_pow_def s_def m_def power_divide)
  also have "\<dots> \<le> of_nat m / (2 ^ 43) ^ k" using s(1) by (intro divide_right_mono) (simp_all only: of_nat_le_iff, simp)
  finally have lo: "exact_pow n k ^ k \<le> of_nat n" by (simp only: div)
  have "of_nat m / (2 ^ 43) ^ k \<le> (of_nat ((s + 1) ^ k) :: rat) / (2 ^ 43) ^ k"
    using s(2) by (intro divide_right_mono) (simp_all only: of_nat_le_iff less_imp_le, simp)
  also have "\<dots> = (exact_pow n k + 1 / 2 ^ 43) ^ k"
    by (simp add: exact_pow_def s_def m_def add_divide_distrib add.commute flip: power_divide)
  finally have hi: "of_nat n \<le> (exact_pow n k + 1 / 2 ^ 43) ^ k" by (simp only: div)
  have "(exact_pow n k - 1 / 2 ^ 42) ^ k \<le> exact_pow n k ^ k" using one by (intro power_mono) simp_all
  moreover have "(exact_pow n k + 1 / 2 ^ 43) ^ k \<le> (exact_pow n k + 1 / 2 ^ 42) ^ k" using one by (intro power_mono) simp_all
  ultimately show ?thesis unfolding root_near_def using one lo hi by linarith
qed

text \<open>
  C20: the tables \<^verbatim>\<open>sha256\<close> computes when it is loaded are those of FIPS 180-4 on every engine whose \<^verbatim>\<open>Math.pow\<close>
  gives the square and cube roots of the numbers up to 311 to within \<open>2 ^ - 42\<close>, and the loop over the
  primes ends.
\<close>

theorem sha256_tables:
  assumes "\<And>n k. 2 \<le> n \<Longrightarrow> n \<le> 311 \<Longrightarrow> k = 2 \<or> k = 3 \<Longrightarrow> root_near (pow n k) n k"
  shows "sha256_constants 310 pow 2 0 [] [] = Some (map word_of_int fips_H256, map word_of_int fips_K256)"
proof -
  have near: "root_near (pow n k) n k" if "n \<in> set (take 64 sha2_primes)" "k = 2 \<or> k = 3" for n k
    using assms that sha2_primes_bound by (auto simp: list_all_iff)
  have "map (\<lambda>n. getFractionalBits (pow n 2)) (take 8 sha2_primes) = map word_of_int fips_H256"
    by (rule roots_table [OF clear_fips(1)]) (use near set_take_subset_set_take [of 8 64 sha2_primes] in auto)
  moreover have "map (\<lambda>n. getFractionalBits (pow n 3)) (take 64 sha2_primes) = map word_of_int fips_K256"
    by (rule roots_table [OF clear_fips(2)]) (rule near, assumption, simp)
  ultimately show ?thesis unfolding sha256_constants_run by simp
qed

theorem sha256_tables_witness:
  "sha256_constants 310 exact_pow 2 0 [] [] = Some (map word_of_int fips_H256, map word_of_int fips_K256)"
  using sha256_tables [of exact_pow] exact_pow_near by blast

end
