(* ===== verification/Md5.thy ===== *)
theory Md5
  imports Complex_Main Merkle_Damgard
begin

text \<open>
  Module \<^verbatim>\<open>md5\<close> of CryptoJS (\<^verbatim>\<open>src/internal/jsre/deps/web3.js\<close>). The table is computed from \<^verbatim>\<open>Math.sin\<close>, whose
  accuracy the language leaves to the engine; the engine's sine is an argument, with rational
  values since doubles are rational.
\<close>

subsection \<open>The code\<close>

definition md5_T :: "(nat \<Rightarrow> rat) \<Rightarrow> word32 list" where
  "md5_T sine = map (\<lambda>i. word_of_int \<lfloor>\<bar>sine (i + 1)\<bar> * 2 ^ 32\<rfloor>) [0..<64]"

definition md5_doReset :: "word32 list" where
  "md5_doReset = [0x67452301, 0xefcdab89, 0x98badcfe, 0x10325476]"

definition FF :: "word32 \<Rightarrow> word32 \<Rightarrow> word32 \<Rightarrow> word32 \<Rightarrow> word32 \<Rightarrow> nat \<Rightarrow> word32 \<Rightarrow> word32" where
  "FF a b c d x s t = (let n = a + ((b AND c) OR (NOT b AND d)) + x + t in (shl n s OR shr n (32 - s)) + b)"

definition GG :: "word32 \<Rightarrow> word32 \<Rightarrow> word32 \<Rightarrow> word32 \<Rightarrow> word32 \<Rightarrow> nat \<Rightarrow> word32 \<Rightarrow> word32" where
  "GG a b c d x s t = (let n = a + ((b AND d) OR (c AND NOT d)) + x + t in (shl n s OR shr n (32 - s)) + b)"

definition HH :: "word32 \<Rightarrow> word32 \<Rightarrow> word32 \<Rightarrow> word32 \<Rightarrow> word32 \<Rightarrow> nat \<Rightarrow> word32 \<Rightarrow> word32" where
  "HH a b c d x s t = (let n = a + (b XOR c XOR d) + x + t in (shl n s OR shr n (32 - s)) + b)"

definition II :: "word32 \<Rightarrow> word32 \<Rightarrow> word32 \<Rightarrow> word32 \<Rightarrow> word32 \<Rightarrow> nat \<Rightarrow> word32 \<Rightarrow> word32" where
  "II a b c d x s t = (let n = a + (c XOR (b OR NOT d)) + x + t in (shl n s OR shr n (32 - s)) + b)"

type_synonym md5_vars = "word32 \<times> word32 \<times> word32 \<times> word32"

definition md5_round1 :: "word32 list \<Rightarrow> (nat \<Rightarrow> word32) \<Rightarrow> md5_vars \<Rightarrow> md5_vars" where
  "md5_round1 T m = (\<lambda>(a, b, c, d).
     (let a = FF a b c d (m 0) 7 (wget T 0);
          d = FF d a b c (m 1) 12 (wget T 1);
          c = FF c d a b (m 2) 17 (wget T 2);
          b = FF b c d a (m 3) 22 (wget T 3);
          a = FF a b c d (m 4) 7 (wget T 4);
          d = FF d a b c (m 5) 12 (wget T 5);
          c = FF c d a b (m 6) 17 (wget T 6);
          b = FF b c d a (m 7) 22 (wget T 7);
          a = FF a b c d (m 8) 7 (wget T 8);
          d = FF d a b c (m 9) 12 (wget T 9);
          c = FF c d a b (m 10) 17 (wget T 10);
          b = FF b c d a (m 11) 22 (wget T 11);
          a = FF a b c d (m 12) 7 (wget T 12);
          d = FF d a b c (m 13) 12 (wget T 13);
          c = FF c d a b (m 14) 17 (wget T 14);
          b = FF b c d a (m 15) 22 (wget T 15)
      in (a, b, c, d)))"

definition md5_round2 :: "word32 list \<Rightarrow> (nat \<Rightarrow> word32) \<Rightarrow> md5_vars \<Rightarrow> md5_vars" where
  "md5_round2 T m = (\<lambda>(a, b, c, d).
     (let a = GG a b c d (m 1) 5 (wget T 16);
          d = GG d a b c (m 6) 9 (wget T 17);
          c = GG c d a b (m 11) 14 (wget T 18);
          b = GG b c d a (m 0) 20 (wget T 19);
          a = GG a b c d (m 5) 5 (wget T 20);
          d = GG d a b c (m 10) 9 (wget T 21);
          c = GG c d a b (m 15) 14 (wget T 22);
          b = GG b c d a (m 4) 20 (wget T 23);
          a = GG a b c d (m 9) 5 (wget T 24);
          d = GG d a b c (m 14) 9 (wget T 25);
          c = GG c d a b (m 3) 14 (wget T 26);
          b = GG b c d a (m 8) 20 (wget T 27);
          a = GG a b c d (m 13) 5 (wget T 28);
          d = GG d a b c (m 2) 9 (wget T 29);
          c = GG c d a b (m 7) 14 (wget T 30);
          b = GG b c d a (m 12) 20 (wget T 31)
      in (a, b, c, d)))"

definition md5_round3 :: "word32 list \<Rightarrow> (nat \<Rightarrow> word32) \<Rightarrow> md5_vars \<Rightarrow> md5_vars" where
  "md5_round3 T m = (\<lambda>(a, b, c, d).
     (let a = HH a b c d (m 5) 4 (wget T 32);
          d = HH d a b c (m 8) 11 (wget T 33);
          c = HH c d a b (m 11) 16 (wget T 34);
          b = HH b c d a (m 14) 23 (wget T 35);
          a = HH a b c d (m 1) 4 (wget T 36);
          d = HH d a b c (m 4) 11 (wget T 37);
          c = HH c d a b (m 7) 16 (wget T 38);
          b = HH b c d a (m 10) 23 (wget T 39);
          a = HH a b c d (m 13) 4 (wget T 40);
          d = HH d a b c (m 0) 11 (wget T 41);
          c = HH c d a b (m 3) 16 (wget T 42);
          b = HH b c d a (m 6) 23 (wget T 43);
          a = HH a b c d (m 9) 4 (wget T 44);
          d = HH d a b c (m 12) 11 (wget T 45);
          c = HH c d a b (m 15) 16 (wget T 46);
          b = HH b c d a (m 2) 23 (wget T 47)
      in (a, b, c, d)))"

definition md5_round4 :: "word32 list \<Rightarrow> (nat \<Rightarrow> word32) \<Rightarrow> md5_vars \<Rightarrow> md5_vars" where
  "md5_round4 T m = (\<lambda>(a, b, c, d).
     (let a = II a b c d (m 0) 6 (wget T 48);
          d = II d a b c (m 7) 10 (wget T 49);
          c = II c d a b (m 14) 15 (wget T 50);
          b = II b c d a (m 5) 21 (wget T 51);
          a = II a b c d (m 12) 6 (wget T 52);
          d = II d a b c (m 3) 10 (wget T 53);
          c = II c d a b (m 10) 15 (wget T 54);
          b = II b c d a (m 1) 21 (wget T 55);
          a = II a b c d (m 8) 6 (wget T 56);
          d = II d a b c (m 15) 10 (wget T 57);
          c = II c d a b (m 6) 15 (wget T 58);
          b = II b c d a (m 13) 21 (wget T 59);
          a = II a b c d (m 4) 6 (wget T 60);
          d = II d a b c (m 11) 10 (wget T 61);
          c = II c d a b (m 2) 15 (wget T 62);
          b = II b c d a (m 9) 21 (wget T 63)
      in (a, b, c, d)))"

definition md5_doProcessBlock :: "word32 list \<Rightarrow> word32 list block_step" where
  "md5_doProcessBlock T M offset H =
     (let M = swap_block offset M;
          m = (\<lambda>i. wget M (offset + i));
          (a, b, c, d) =
            md5_round4 T m (md5_round3 T m (md5_round2 T m (md5_round1 T m (wget H 0, wget H 1, wget H 2, wget H 3))))
      in ([wget H 0 + a, wget H 1 + b, wget H 2 + c, wget H 3 + d], M))"

definition md5_doFinalize ::
    "word32 list \<Rightarrow> word32 list BufferedBlockAlgorithm \<Rightarrow> WordArray \<times> word32 list BufferedBlockAlgorithm" where
  "md5_doFinalize T alg =
     (let data = alg_data alg;
          nBitsTotal = alg_nDataBytes alg * 8;
          nBitsLeft = sigBytes data * 8;
          ws = pad_bit (words data) nBitsLeft;
          ws = wset ws (ushr (nBitsLeft + 64) 9 * 16 + 15) (bswap (of_nat (nBitsTotal div 2 ^ 32)));
          ws = wset ws (ushr (nBitsLeft + 64) 9 * 16 + 14) (bswap (of_nat nBitsTotal));
          alg = snd (bba_process 16 0 (md5_doProcessBlock T) False
                  (alg\<lparr>alg_data := \<lparr>words = ws, sigBytes = (length ws + 1) * 4\<rparr>\<rparr>));
          H = map bswap (alg_state alg)
      in (WordArray_init H None, alg\<lparr>alg_state := H\<rparr>))"

definition MD5 :: "word32 list \<Rightarrow> WordArray \<Rightarrow> WordArray" where
  "MD5 T message = fst (hasher_finalize (md5_doFinalize T) (Some message) (bba_reset md5_doReset))"

subsection \<open>The hash function\<close>

definition md5_absorb :: "word32 list \<Rightarrow> word32 list \<Rightarrow> word32 list \<Rightarrow> word32 list" where
  "md5_absorb T block H = fst (md5_doProcessBlock T block 0 H)"

lemma md5_round_cong:
  assumes "\<And>i. i < 16 \<Longrightarrow> m i = m' i"
  shows "md5_round1 T m = md5_round1 T m'" "md5_round2 T m = md5_round2 T m'"
    "md5_round3 T m = md5_round3 T m'" "md5_round4 T m = md5_round4 T m'"
proof -
  have e: "m 0 = m' 0" "m 1 = m' 1" "m 2 = m' 2" "m 3 = m' 3" "m 4 = m' 4" "m 5 = m' 5" "m 6 = m' 6" "m 7 = m' 7" "m 8 = m' 8" "m 9 = m' 9" "m 10 = m' 10" "m 11 = m' 11" "m 12 = m' 12" "m 13 = m' 13" "m 14 = m' 14" "m 15 = m' 15"
    by (rule assms, simp)+
  show "md5_round1 T m = md5_round1 T m'" "md5_round2 T m = md5_round2 T m'"
    "md5_round3 T m = md5_round3 T m'" "md5_round4 T m = md5_round4 T m'"
    unfolding md5_round1_def md5_round2_def md5_round3_def md5_round4_def e by (rule refl)+
qed

interpretation md5: md_hasher 16 "md5_doProcessBlock T" "md5_absorb T" 8 9
  for T
proof unfold_locales
  fix ws offset H
  let ?block = "map (\<lambda>i. wget ws (offset + i)) [0..<16]"
  have "wget (swap_block offset ws) (offset + i) = wget (swap_block 0 ?block) (0 + i)" if "i < 16" for i
    using that by (simp add: wget_swap_block wget_def [of ?block])
  then have cong: "md5_round1 T (\<lambda>i. wget (swap_block offset ws) (offset + i)) = md5_round1 T (\<lambda>i. wget (swap_block 0 ?block) (0 + i))"
      "md5_round2 T (\<lambda>i. wget (swap_block offset ws) (offset + i)) = md5_round2 T (\<lambda>i. wget (swap_block 0 ?block) (0 + i))"
      "md5_round3 T (\<lambda>i. wget (swap_block offset ws) (offset + i)) = md5_round3 T (\<lambda>i. wget (swap_block 0 ?block) (0 + i))"
      "md5_round4 T (\<lambda>i. wget (swap_block offset ws) (offset + i)) = md5_round4 T (\<lambda>i. wget (swap_block 0 ?block) (0 + i))"
    by (intro md5_round_cong, blast)+
  show "fst (md5_doProcessBlock T ws offset H) = md5_absorb T ?block H"
    unfolding md5_absorb_def md5_doProcessBlock_def Let_def cong by (simp add: split_beta)
  show "drop (offset + 16) (snd (md5_doProcessBlock T ws offset H)) = drop (offset + 16) ws"
    by (simp add: md5_doProcessBlock_def Let_def split_beta drop_swap_block)
qed simp_all

interpretation md5: hash_function 16 "md5_doProcessBlock T" "md5_absorb T" 8 9 md5_doReset le64
  "\<lambda>H. WordArray_init (map bswap H) None" "md5_doFinalize T"
  for T
proof unfold_locales
  fix B a
  assume h: "md5.holds T md5_doReset B a" and small: "8 * (length B + 8) < (2 :: nat) ^ 32"
  let ?n = "sigBytes (alg_data a) * 8"
  have n: "alg_nDataBytes a = length B" using h by (auto simp: md5.holds_def)
  have at: "ushr (?n + 64) 9 * 16 + 14 = md5.length_at ?n" "ushr (?n + 64) 9 * 16 + 15 = Suc (md5.length_at ?n)"
    by (simp_all add: md5.length_at_def)
  have len: "length (wset (wset (pad_bit (words (alg_data a)) ?n) (Suc (md5.length_at ?n)) y) (md5.length_at ?n) x) =
      md5.length_at ?n + 2" for x y
    using md5.padded_length(2) [OF h small refl] by simp
  have swap: "wget (wset (wset ws (Suc j) y) j x) i = wget (wset (wset ws j x) (Suc j) y) i" for ws j x y i
    by simp
  note state = md5.finish [where len = le64, OF h small refl swap md5.count_blocks le64_words [symmetric]]
  show "fst (md5_doFinalize T a) = WordArray_init (map bswap (md_hash 16 8 le64 (md5_absorb T) md5_doReset B)) None"
    unfolding md5_doFinalize_def Let_def at n len fst_conv mult.commute [of "length B" 8]
    by (subst state) simp_all
qed

end
