(* ===== verification/Ripemd160.thy ===== *)
theory Ripemd160
  imports Merkle_Damgard
begin

text \<open>
  Module \<^verbatim>\<open>ripemd160\<close> of CryptoJS (\<^verbatim>\<open>src/internal/jsre/deps/web3.js\<close>). Its \<^verbatim>\<open>_doFinalize\<close> writes only the low half
  of the length; the other half is read as 0, which is right as long as the message has fewer than
  \<open>2 ^ 32\<close> bits.
\<close>

subsection \<open>The code\<close>

definition ripemd_zl :: "nat list" where
  "ripemd_zl =
    [0, 1, 2, 3, 4, 5, 6, 7, 8, 9, 10, 11, 12, 13, 14, 15,
     7, 4, 13, 1, 10, 6, 15, 3, 12, 0, 9, 5, 2, 14, 11, 8,
     3, 10, 14, 4, 9, 15, 8, 1, 2, 7, 0, 6, 13, 11, 5, 12,
     1, 9, 11, 10, 0, 8, 12, 4, 13, 3, 7, 15, 14, 5, 6, 2,
     4, 0, 5, 9, 7, 12, 2, 10, 14, 1, 3, 8, 11, 6, 15, 13]"

definition ripemd_zr :: "nat list" where
  "ripemd_zr =
    [5, 14, 7, 0, 9, 2, 11, 4, 13, 6, 15, 8, 1, 10, 3, 12,
     6, 11, 3, 7, 0, 13, 5, 10, 14, 15, 8, 12, 4, 9, 1, 2,
     15, 5, 1, 3, 7, 14, 6, 9, 11, 8, 12, 2, 10, 0, 4, 13,
     8, 6, 4, 1, 3, 11, 15, 0, 5, 12, 2, 13, 9, 7, 10, 14,
     12, 15, 10, 4, 1, 5, 8, 7, 6, 2, 13, 14, 0, 3, 9, 11]"

definition ripemd_sl :: "nat list" where
  "ripemd_sl =
    [11, 14, 15, 12, 5, 8, 7, 9, 11, 13, 14, 15, 6, 7, 9, 8,
     7, 6, 8, 13, 11, 9, 7, 15, 7, 12, 15, 9, 11, 7, 13, 12,
     11, 13, 6, 7, 14, 9, 13, 15, 14, 8, 13, 6, 5, 12, 7, 5,
     11, 12, 14, 15, 14, 15, 9, 8, 9, 14, 5, 6, 8, 6, 5, 12,
     9, 15, 5, 11, 6, 8, 13, 12, 5, 12, 13, 14, 11, 8, 5, 6]"

definition ripemd_sr :: "nat list" where
  "ripemd_sr =
    [8, 9, 9, 11, 13, 15, 15, 5, 7, 7, 8, 11, 14, 14, 12, 6,
     9, 13, 15, 7, 12, 8, 9, 11, 7, 7, 12, 7, 6, 15, 13, 11,
     9, 7, 15, 11, 8, 6, 6, 14, 12, 13, 5, 14, 13, 13, 7, 5,
     15, 5, 8, 11, 14, 14, 6, 14, 6, 9, 12, 9, 12, 5, 15, 8,
     8, 5, 12, 9, 12, 5, 14, 6, 8, 13, 6, 5, 15, 13, 11, 11]"

definition ripemd_hl :: "word32 list" where
  "ripemd_hl = [0x00000000, 0x5A827999, 0x6ED9EBA1, 0x8F1BBCDC, 0xA953FD4E]"

definition ripemd_hr :: "word32 list" where
  "ripemd_hr = [0x50A28BE6, 0x5C4DD124, 0x6D703EF3, 0x7A6D76E9, 0x00000000]"

definition ripemd_doReset :: "word32 list" where
  "ripemd_doReset = [0x67452301, 0xEFCDAB89, 0x98BADCFE, 0x10325476, 0xC3D2E1F0]"

definition ripemd_f1 :: "word32 \<Rightarrow> word32 \<Rightarrow> word32 \<Rightarrow> word32" where
  "ripemd_f1 x y z = x XOR y XOR z"

definition ripemd_f2 :: "word32 \<Rightarrow> word32 \<Rightarrow> word32 \<Rightarrow> word32" where
  "ripemd_f2 x y z = (x AND y) OR (NOT x AND z)"

definition ripemd_f3 :: "word32 \<Rightarrow> word32 \<Rightarrow> word32 \<Rightarrow> word32" where
  "ripemd_f3 x y z = (x OR NOT y) XOR z"

definition ripemd_f4 :: "word32 \<Rightarrow> word32 \<Rightarrow> word32 \<Rightarrow> word32" where
  "ripemd_f4 x y z = (x AND z) OR (y AND NOT z)"

definition ripemd_f5 :: "word32 \<Rightarrow> word32 \<Rightarrow> word32 \<Rightarrow> word32" where
  "ripemd_f5 x y z = x XOR (y OR NOT z)"

definition ripemd_rotl :: "word32 \<Rightarrow> nat \<Rightarrow> word32" where
  "ripemd_rotl x n = shl x n OR shr x (32 - n)"

type_synonym ripemd_line = "word32 \<times> word32 \<times> word32 \<times> word32 \<times> word32"

definition ripemd_left :: "(nat \<Rightarrow> word32) \<Rightarrow> nat \<Rightarrow> ripemd_line \<Rightarrow> ripemd_line" where
  "ripemd_left m i = (\<lambda>(al, bl, cl, dl, el).
     let t = al + m (ripemd_zl ! i);
         t = t + (if i < 16 then ripemd_f1 bl cl dl + wget ripemd_hl 0
                  else if i < 32 then ripemd_f2 bl cl dl + wget ripemd_hl 1
                  else if i < 48 then ripemd_f3 bl cl dl + wget ripemd_hl 2
                  else if i < 64 then ripemd_f4 bl cl dl + wget ripemd_hl 3
                  else ripemd_f5 bl cl dl + wget ripemd_hl 4);
         t = ripemd_rotl t (ripemd_sl ! i);
         t = t + el
     in (el, t, bl, ripemd_rotl cl 10, dl))"

definition ripemd_right :: "(nat \<Rightarrow> word32) \<Rightarrow> nat \<Rightarrow> ripemd_line \<Rightarrow> ripemd_line" where
  "ripemd_right m i = (\<lambda>(ar, br, cr, dr, er).
     let t = ar + m (ripemd_zr ! i);
         t = t + (if i < 16 then ripemd_f5 br cr dr + wget ripemd_hr 0
                  else if i < 32 then ripemd_f4 br cr dr + wget ripemd_hr 1
                  else if i < 48 then ripemd_f3 br cr dr + wget ripemd_hr 2
                  else if i < 64 then ripemd_f2 br cr dr + wget ripemd_hr 3
                  else ripemd_f1 br cr dr + wget ripemd_hr 4);
         t = ripemd_rotl t (ripemd_sr ! i);
         t = t + er
     in (er, t, br, ripemd_rotl cr 10, dr))"

definition ripemd_doProcessBlock :: "word32 list block_step" where
  "ripemd_doProcessBlock M offset H =
     (let M = swap_block offset M;
          m = (\<lambda>i. wget M (offset + i));
          init = (wget H 0, wget H 1, wget H 2, wget H 3, wget H 4);
          ((al, bl, cl, dl, el), (ar, br, cr, dr, er)) =
            fold (\<lambda>i (l, r). (ripemd_left m i l, ripemd_right m i r)) [0..<80] (init, init)
      in ([wget H 1 + cl + dr, wget H 2 + dl + er, wget H 3 + el + ar, wget H 4 + al + br, wget H 0 + bl + cr], M))"

definition ripemd_doFinalize ::
    "word32 list BufferedBlockAlgorithm \<Rightarrow> WordArray \<times> word32 list BufferedBlockAlgorithm" where
  "ripemd_doFinalize alg =
     (let data = alg_data alg;
          nBitsTotal = alg_nDataBytes alg * 8;
          nBitsLeft = sigBytes data * 8;
          ws = pad_bit (words data) nBitsLeft;
          ws = wset ws (ushr (nBitsLeft + 64) 9 * 16 + 14) (bswap (of_nat nBitsTotal));
          alg = snd (bba_process 16 0 ripemd_doProcessBlock False
                  (alg\<lparr>alg_data := \<lparr>words = ws, sigBytes = (length ws + 1) * 4\<rparr>\<rparr>));
          H = map bswap (alg_state alg)
      in (WordArray_init H None, alg\<lparr>alg_state := H\<rparr>))"

definition RIPEMD160 :: "WordArray \<Rightarrow> WordArray" where
  "RIPEMD160 message = fst (hasher_finalize ripemd_doFinalize (Some message) (bba_reset ripemd_doReset))"

subsection \<open>The hash function\<close>

definition ripemd_absorb :: "word32 list \<Rightarrow> word32 list \<Rightarrow> word32 list" where
  "ripemd_absorb block H = fst (ripemd_doProcessBlock block 0 H)"

lemma ripemd_index: "i < 80 \<Longrightarrow> ripemd_zl ! i < 16 \<and> ripemd_zr ! i < 16"
proof -
  have "list_all (\<lambda>z. z < 16) ripemd_zl" "list_all (\<lambda>z. z < 16) ripemd_zr"
    "length ripemd_zl = 80" "length ripemd_zr = 80"
    by (simp_all add: ripemd_zl_def ripemd_zr_def)
  then show "i < 80 \<Longrightarrow> ?thesis" by (simp add: list_all_length)
qed

lemma ripemd_lines_cong:
  assumes "\<And>i. i < 16 \<Longrightarrow> m i = m' i"
  shows "fold (\<lambda>i (l, r). (ripemd_left m i l, ripemd_right m i r)) [0..<80] v =
    fold (\<lambda>i (l, r). (ripemd_left m' i l, ripemd_right m' i r)) [0..<80] v"
proof (rule fold_cong [OF refl refl])
  fix i assume "i \<in> set [0..<80]"
  then have "m (ripemd_zl ! i) = m' (ripemd_zl ! i)" "m (ripemd_zr ! i) = m' (ripemd_zr ! i)"
    using ripemd_index [of i] assms by simp_all
  then show "(\<lambda>(l, r). (ripemd_left m i l, ripemd_right m i r)) = (\<lambda>(l, r). (ripemd_left m' i l, ripemd_right m' i r))"
    unfolding ripemd_left_def ripemd_right_def by simp
qed

interpretation ripemd: md_hasher 16 ripemd_doProcessBlock ripemd_absorb 8 9
proof unfold_locales
  fix ws offset H
  let ?block = "map (\<lambda>i. wget ws (offset + i)) [0..<16]"
  have "fold (\<lambda>i (l, r). (ripemd_left (\<lambda>i. wget (swap_block offset ws) (offset + i)) i l,
        ripemd_right (\<lambda>i. wget (swap_block offset ws) (offset + i)) i r)) [0..<80] v =
      fold (\<lambda>i (l, r). (ripemd_left (\<lambda>i. wget (swap_block 0 ?block) (0 + i)) i l,
        ripemd_right (\<lambda>i. wget (swap_block 0 ?block) (0 + i)) i r)) [0..<80] v" for v
    by (rule ripemd_lines_cong) (simp add: wget_swap_block wget_def [of ?block])
  then show "fst (ripemd_doProcessBlock ws offset H) = ripemd_absorb ?block H"
    unfolding ripemd_absorb_def ripemd_doProcessBlock_def Let_def by (simp only: split_beta fst_conv)
  show "drop (offset + 16) (snd (ripemd_doProcessBlock ws offset H)) = drop (offset + 16) ws"
    by (simp add: ripemd_doProcessBlock_def Let_def split_beta drop_swap_block)
qed simp_all

lemma wget_wset_end: "length ws = j \<Longrightarrow> wget ws i = wget (wset ws j 0) i"
  unfolding wget_wset by (simp add: wget_def)

lemma le64_low:
  assumes "n < 2 ^ 32"
  shows "le64 n = word_bytes (bswap (of_nat n)) @ word_bytes 0"
proof -
  have "n div 2 ^ 32 = 0" using assms by simp
  moreover have "bswap 0 = 0" by (simp add: bswap_def shl_def shr_def)
  ultimately show ?thesis unfolding le64_words by simp
qed

interpretation ripemd: hash_function 16 ripemd_doProcessBlock ripemd_absorb 8 9 ripemd_doReset le64
  "\<lambda>H. WordArray_init (map bswap H) None" ripemd_doFinalize
proof unfold_locales
  fix B a
  assume h: "ripemd.holds ripemd_doReset B a" and small: "8 * (length B + 8) < (2 :: nat) ^ 32"
  let ?n = "sigBytes (alg_data a) * 8"
  have n: "alg_nDataBytes a = length B" using h by (auto simp: ripemd.holds_def)
  have at: "ushr (?n + 64) 9 * 16 + 14 = ripemd.length_at ?n" by (simp add: ripemd.length_at_def)
  have zero: "wget (wset (pad_bit (words (alg_data a)) ?n) (ripemd.length_at ?n) x) i =
      wget (wset (wset (pad_bit (words (alg_data a)) ?n) (ripemd.length_at ?n) x) (Suc (ripemd.length_at ?n)) 0) i" for x i
    by (rule wget_wset_end [OF ripemd.padded_length(1) [OF h small refl]])
  have low: "word_bytes (bswap (of_nat (8 * length B))) @ word_bytes 0 = le64 (8 * length B)"
    using le64_low [of "8 * length B"] small by simp
  note state = ripemd.finish [where len = le64, OF h small refl zero ripemd.count_blocks low]
  show "fst (ripemd_doFinalize a) = WordArray_init (map bswap (md_hash 16 8 le64 ripemd_absorb ripemd_doReset B)) None"
    unfolding ripemd_doFinalize_def Let_def at n ripemd.padded_length(1) [OF h small refl] fst_conv
      mult.commute [of "length B" 8]
    by (subst state) simp_all
qed

end
