(* ===== verification/Sha3.thy ===== *)
theory Sha3
  imports Merkle_Damgard X64
begin

text \<open>
  Module \<^verbatim>\<open>sha3\<close> of CryptoJS (\<^verbatim>\<open>src/internal/jsre/deps/web3.js\<close>), the hash behind \<^verbatim>\<open>web3.sha3\<close>: Keccak with its
  original padding. The code computes its tables and works on pairs of 32-bit words; it is compared
  with Keccak-f[1600] on 64-bit lanes. The array \<^verbatim>\<open>T\<close> of the code is written before it is read in every
  round, so it is local to a round here.
\<close>

subsection \<open>The tables\<close>

text \<open>\<^verbatim>\<open>RHO_OFFSETS[0]\<close> is never set and never read.\<close>

definition RHO_OFFSETS :: "nat list" where
  "RHO_OFFSETS =
     fst (fold (\<lambda>t (rho, x, y). (rho[x + 5 * y := ((t + 1) * (t + 2) div 2) mod 64], y mod 5, (2 * x + 3 * y) mod 5))
       [0..<24] (replicate 25 0, 1, 0))"

definition PI_INDEXES :: "nat list" where
  "PI_INDEXES =
     fold (\<lambda>x p. fold (\<lambda>y p. p[x + 5 * y := y + ((2 * x + 3 * y) mod 5) * 5]) [0..<5] p) [0..<5] (replicate 25 0)"

definition lfsr_step :: "nat \<Rightarrow> word32 \<times> word32 \<times> word32 \<Rightarrow> word32 \<times> word32 \<times> word32" where
  "lfsr_step j = (\<lambda>(LFSR, msw, lsw).
     let (msw, lsw) =
           (if LFSR AND 0x01 \<noteq> 0
            then let bitPosition = 2 ^ j - 1
                 in if bitPosition < 32 then (msw, lsw XOR shl 1 bitPosition)
                    else (msw XOR shl 1 (bitPosition - 32), lsw)
            else (msw, lsw))
     in (if LFSR AND 0x80 \<noteq> 0 then shl LFSR 1 XOR 0x71 else shl LFSR 1, msw, lsw))"

definition ROUND_CONSTANTS :: "X64Word list" where
  "ROUND_CONSTANTS =
     snd (fold (\<lambda>i (LFSR, cs).
            let (LFSR, msw, lsw) = fold lfsr_step [0..<7] (LFSR, 0, 0) in (LFSR, cs @ [X64Word msw lsw]))
          [0..<24] (0x01, []))"

subsection \<open>The permutation\<close>

definition sha3_theta_sums :: "X64Word list \<Rightarrow> X64Word list" where
  "sha3_theta_sums state =
     map (\<lambda>x. fold (\<lambda>y t. let lane = state ! (x + 5 * y) in X64Word (high t XOR high lane) (low t XOR low lane))
                [0..<5] (X64Word 0 0)) [0..<5]"

definition sha3_theta :: "X64Word list \<Rightarrow> X64Word list" where
  "sha3_theta state =
     (let T = sha3_theta_sums state
      in fold (\<lambda>x state.
           let Tx4 = T ! ((x + 4) mod 5);
               Tx1Msw = high (T ! ((x + 1) mod 5));
               Tx1Lsw = low (T ! ((x + 1) mod 5));
               tMsw = high Tx4 XOR (shl Tx1Msw 1 OR shr Tx1Lsw 31);
               tLsw = low Tx4 XOR (shl Tx1Lsw 1 OR shr Tx1Msw 31)
           in fold (\<lambda>y state. state[x + 5 * y :=
                      X64Word (high (state ! (x + 5 * y)) XOR tMsw) (low (state ! (x + 5 * y)) XOR tLsw)]) [0..<5] state)
         [0..<5] state)"

definition sha3_rotate :: "nat \<Rightarrow> X64Word \<Rightarrow> X64Word" where
  "sha3_rotate rhoOffset lane =
     (let laneMsw = high lane; laneLsw = low lane
      in if rhoOffset < 32
         then X64Word (shl laneMsw rhoOffset OR shr laneLsw (32 - rhoOffset))
                      (shl laneLsw rhoOffset OR shr laneMsw (32 - rhoOffset))
         else X64Word (shl laneLsw (rhoOffset - 32) OR shr laneMsw (64 - rhoOffset))
                      (shl laneMsw (rhoOffset - 32) OR shr laneLsw (64 - rhoOffset)))"

definition sha3_rho_pi :: "X64Word list \<Rightarrow> X64Word list" where
  "sha3_rho_pi state =
     (fold (\<lambda>laneIndex T. T[PI_INDEXES ! laneIndex := sha3_rotate (RHO_OFFSETS ! laneIndex) (state ! laneIndex)])
        [1..<25] (replicate 25 (X64Word 0 0)))[0 := state ! 0]"

definition sha3_chi :: "X64Word list \<Rightarrow> X64Word list \<Rightarrow> X64Word list" where
  "sha3_chi T state =
     fold (\<lambda>x state. fold (\<lambda>y state.
         let laneIndex = x + 5 * y;
             TLane = T ! laneIndex;
             Tx1Lane = T ! ((x + 1) mod 5 + 5 * y);
             Tx2Lane = T ! ((x + 2) mod 5 + 5 * y)
         in state[laneIndex := X64Word (high TLane XOR (NOT (high Tx1Lane) AND high Tx2Lane))
                                       (low TLane XOR (NOT (low Tx1Lane) AND low Tx2Lane))])
       [0..<5] state) [0..<5] state"

definition sha3_iota :: "nat \<Rightarrow> X64Word list \<Rightarrow> X64Word list" where
  "sha3_iota round state =
     (let c = ROUND_CONSTANTS ! round
      in state[0 := X64Word (high (state ! 0) XOR high c) (low (state ! 0) XOR low c)])"

definition sha3_round :: "nat \<Rightarrow> X64Word list \<Rightarrow> X64Word list" where
  "sha3_round round state =
     (let state = sha3_theta state; T = sha3_rho_pi state in sha3_iota round (sha3_chi T state))"

subsection \<open>The hash\<close>

definition sha3_blockSize :: "nat \<Rightarrow> nat" where
  "sha3_blockSize outputLength = (1600 - 2 * outputLength) div 32"

definition sha3_doReset :: "X64Word list" where
  "sha3_doReset = replicate 25 (X64Word 0 0)"

definition sha3_absorb_lanes :: "nat \<Rightarrow> word32 list \<Rightarrow> nat \<Rightarrow> X64Word list \<Rightarrow> X64Word list" where
  "sha3_absorb_lanes nBlockSizeLanes M offset state =
     fold (\<lambda>i state.
         let M2i = bswap (wget M (offset + 2 * i));
             M2i1 = bswap (wget M (offset + 2 * i + 1))
         in state[i := X64Word (high (state ! i) XOR M2i1) (low (state ! i) XOR M2i)])
       [0..<nBlockSizeLanes] state"

definition sha3_doProcessBlock :: "nat \<Rightarrow> X64Word list block_step" where
  "sha3_doProcessBlock outputLength M offset state =
     (fold sha3_round [0..<24] (sha3_absorb_lanes (sha3_blockSize outputLength div 2) M offset state), M)"

definition sha3_squeeze :: "nat \<Rightarrow> X64Word list \<Rightarrow> WordArray" where
  "sha3_squeeze outputLength state =
     WordArray_init
       (concat (map (\<lambda>i. [bswap (low (state ! i)), bswap (high (state ! i))]) [0..<(outputLength div 8 + 7) div 8]))
       (Some (outputLength div 8))"

definition sha3_doFinalize ::
    "nat \<Rightarrow> X64Word list BufferedBlockAlgorithm \<Rightarrow> WordArray \<times> X64Word list BufferedBlockAlgorithm" where
  "sha3_doFinalize outputLength alg =
     (let data = alg_data alg;
          nBitsLeft = sigBytes data * 8;
          blockSizeBits = sha3_blockSize outputLength * 32;
          ws = wset (words data) (ushr nBitsLeft 5)
                 (wget (words data) (ushr nBitsLeft 5) OR shl 0x1 (24 - nBitsLeft mod 32));
          lastWord = ushr ((nBitsLeft + 1 + (blockSizeBits - 1)) div blockSizeBits * blockSizeBits) 5 - 1;
          ws = wset ws lastWord (wget ws lastWord OR 0x80);
          alg = snd (bba_process (sha3_blockSize outputLength) 0 (sha3_doProcessBlock outputLength) False
                  (alg\<lparr>alg_data := \<lparr>words = ws, sigBytes = length ws * 4\<rparr>\<rparr>))
      in (sha3_squeeze outputLength (alg_state alg), alg))"

definition SHA3 :: "nat \<Rightarrow> WordArray \<Rightarrow> WordArray" where
  "SHA3 outputLength message =
     fst (hasher_finalize (sha3_doFinalize outputLength) (Some message) (bba_reset sha3_doReset))"

subsection \<open>Keccak-f[1600]\<close>

definition keccak_rho :: "nat list" where
  "keccak_rho = [0, 1, 62, 28, 27, 36, 44, 6, 55, 20, 3, 10, 43, 25, 39, 41, 45, 15, 21, 8, 18, 2, 61, 56, 14]"

definition keccak_RC :: "word64 list" where
  "keccak_RC =
    [0x0000000000000001, 0x0000000000008082, 0x800000000000808a, 0x8000000080008000,
     0x000000000000808b, 0x0000000080000001, 0x8000000080008081, 0x8000000000008009,
     0x000000000000008a, 0x0000000000000088, 0x0000000080008009, 0x000000008000000a,
     0x000000008000808b, 0x800000000000008b, 0x8000000000008089, 0x8000000000008003,
     0x8000000000008002, 0x8000000000000080, 0x000000000000800a, 0x800000008000000a,
     0x8000000080008081, 0x8000000000008080, 0x0000000080000001, 0x8000000080008008]"

text \<open>Lane \<open>(x, y)\<close> of a state is entry \<open>x + 5 * y\<close>.\<close>

definition keccak_lanes :: "(nat \<Rightarrow> nat \<Rightarrow> word64) \<Rightarrow> word64 list" where
  "keccak_lanes f = map (\<lambda>i. f (i mod 5) (i div 5)) [0..<25]"

definition keccak_theta :: "word64 list \<Rightarrow> word64 list" where
  "keccak_theta A =
     (let C = (\<lambda>x. A ! x XOR A ! (x + 5) XOR A ! (x + 10) XOR A ! (x + 15) XOR A ! (x + 20))
      in keccak_lanes (\<lambda>x y. A ! (x + 5 * y) XOR C ((x + 4) mod 5) XOR word_rotl 1 (C ((x + 1) mod 5))))"

text \<open>Lane \<open>(x, y)\<close> moves to \<open>(y, 2 x + 3 y)\<close>, so lane \<open>(x, y)\<close> comes from \<open>(x + 3 y, x)\<close>.\<close>

definition keccak_rho_pi :: "word64 list \<Rightarrow> word64 list" where
  "keccak_rho_pi A =
     keccak_lanes (\<lambda>x y. let i = (x + 3 * y) mod 5 + 5 * x in word_rotl (keccak_rho ! i) (A ! i))"

definition keccak_chi :: "word64 list \<Rightarrow> word64 list" where
  "keccak_chi B =
     keccak_lanes (\<lambda>x y. B ! (x + 5 * y) XOR (NOT (B ! ((x + 1) mod 5 + 5 * y)) AND B ! ((x + 2) mod 5 + 5 * y)))"

definition keccak_round :: "nat \<Rightarrow> word64 list \<Rightarrow> word64 list" where
  "keccak_round r A =
     (let B = keccak_chi (keccak_rho_pi (keccak_theta A)) in B[0 := B ! 0 XOR keccak_RC ! r])"

definition keccak_f :: "word64 list \<Rightarrow> word64 list" where
  "keccak_f A = fold keccak_round [0..<24] A"

subsection \<open>The tables are those of Keccak\<close>

lemma RHO_OFFSETS_eq: "RHO_OFFSETS = keccak_rho"
  unfolding RHO_OFFSETS_def keccak_rho_def by code_simp

lemma PI_INDEXES_eq:
  "PI_INDEXES = [0, 10, 20, 5, 15, 16, 1, 11, 21, 6, 7, 17, 2, 12, 22, 23, 8, 18, 3, 13, 14, 24, 9, 19, 4]"
  unfolding PI_INDEXES_def by code_simp

lemma upt_sha3: "[0..<7] = [0, 1, 2, 3, 4, 5, 6]" "[0..<5] = [0, 1, 2, 3, 4]"
  "[0..<24] = [0, 1, 2, 3, 4, 5, 6, 7, 8, 9, 10, 11, 12, 13, 14, 15, 16, 17, 18, 19, 20, 21, 22, 23]"
  "[1..<25] = [1, 2, 3, 4, 5, 6, 7, 8, 9, 10, 11, 12, 13, 14, 15, 16, 17, 18, 19, 20, 21, 22, 23, 24]"
  "[0..<25] = [0, 1, 2, 3, 4, 5, 6, 7, 8, 9, 10, 11, 12, 13, 14, 15, 16, 17, 18, 19, 20, 21, 22, 23, 24]"
  by code_simp+

lemma replicate_25: "replicate 25 x = [x, x, x, x, x, x, x, x, x, x, x, x, x, x, x, x, x, x, x, x, x, x, x, x, x]"
  by (simp add: numeral_eq_Suc)

lemma ROUND_CONSTANTS_eq: "map to64 ROUND_CONSTANTS = keccak_RC" "length ROUND_CONSTANTS = 24"
  unfolding ROUND_CONSTANTS_def keccak_RC_def upt_sha3
  by (simp_all add: lfsr_step_def shl_def to64_def push_bit_eq_mult)

subsection \<open>The rounds are those of Keccak\<close>

lemma word_rotl_rotr: "0 < n \<Longrightarrow> n < 64 \<Longrightarrow> word_rotl n (w :: word64) = word_rotr (64 - n) w"
  by (simp add: word_rotl_eq_word_rotr)

lemma word_rotr_64: "word_rotr (64 + n) (w :: word64) = word_rotr n w"
proof (rule bit_word_eqI)
  fix k
  have "(64 + n + k) mod 64 = (n + k) mod 64" by (simp only: add.assoc mod_add_self1)
  then show "bit (word_rotr (64 + n) w) k = bit (word_rotr n w) k"
    by (simp add: bit_word_rotr_iff ac_simps)
qed

lemma to64_swap: "to64 (X64Word l h) = word_rotl 32 (to64 (X64Word h l))"
proof (rule bit_word_eqI)
  fix k assume "k < LENGTH(64)"
  then have k: "k < 64" by simp
  show "bit (to64 (X64Word l h)) k = bit (word_rotl 32 (to64 (X64Word h l))) k"
  proof (cases "k < 32")
    case True
    then show ?thesis using k by (simp add: word_rotl_rotr bit_word_rotr_iff bit_to64)
  next
    case False
    then have "(k + 32) mod 64 = k - 32" "k - 32 < 32" using k by (auto simp: mod_if)
    then show ?thesis using False k by (simp add: word_rotl_rotr bit_word_rotr_iff bit_to64)
  qed
qed

lemma to64_sha3_rotate:
  assumes "0 < r" "r < 64" "r \<noteq> 32"
  shows "to64 (sha3_rotate r x) = word_rotl r (to64 x)"
proof (cases "r < 32")
  case True
  then show ?thesis
    using assms to64_rotl [of r "high x" "low x"] by (simp add: sha3_rotate_def word_rotl_rotr Let_def)
next
  case False
  then have n: "0 < r - 32" "r - 32 < 32" "32 - (r - 32) = 64 - r" using assms by auto
  have "to64 (sha3_rotate r x) = word_rotl (r - 32) (to64 (X64Word (low x) (high x)))"
    using False n to64_rotl [of "r - 32" "low x" "high x"] by (simp add: sha3_rotate_def word_rotl_rotr Let_def)
  also have "\<dots> = word_rotr (64 - (r - 32) + 32) (to64 x)"
    using n by (simp add: to64_swap word_rotl_rotr word_rotr_word_rotr_eq)
  also have "64 - (r - 32) + 32 = 64 + (64 - r)" using n by simp
  finally show ?thesis unfolding word_rotr_64 using assms by (simp only: word_rotl_rotr)
qed

lemma lanes_25: "length A = 25 \<Longrightarrow> A = [A ! 0, A ! 1, A ! 2, A ! 3, A ! 4, A ! 5, A ! 6, A ! 7, A ! 8, A ! 9, A ! 10, A ! 11,
    A ! 12, A ! 13, A ! 14, A ! 15, A ! 16, A ! 17, A ! 18, A ! 19, A ! 20, A ! 21, A ! 22, A ! 23, A ! 24]"
  using map_nth [of A] by (simp add: upt_sha3)

lemma obtain_lanes:
  assumes "length A = 25"
  obtains a0 a1 a2 a3 a4 a5 a6 a7 a8 a9 a10 a11 a12 a13 a14 a15 a16 a17 a18 a19 a20 a21 a22 a23 a24
  where "A = [a0, a1, a2, a3, a4, a5, a6, a7, a8, a9, a10, a11, a12, a13, a14, a15, a16, a17, a18, a19, a20, a21, a22, a23, a24]"
  by (rule that) (rule lanes_25 [OF assms])

lemma to64_rotl_1:
  "to64 (X64Word (shl h 1 OR shr l 31) (shl l 1 OR shr h 31)) = word_rotl 1 (to64 (X64Word h l))"
  using to64_rotl [of 1 h l] by (simp add: word_rotl_rotr)

lemma to64_zero: "to64 (X64Word 0 0) = 0"
  by (simp add: to64_def)

lemma to64_theta_sums:
  assumes "length st = 25"
  shows "map to64 (sha3_theta_sums st) =
    map (\<lambda>x. map to64 st ! x XOR map to64 st ! (x + 5) XOR map to64 st ! (x + 10) XOR map to64 st ! (x + 15) XOR
      map to64 st ! (x + 20)) [0..<5]"
  using assms by (simp add: sha3_theta_sums_def upt_sha3 Let_def to64_bitwise(3) xor.assoc)

lemma nth_map_lanes: "length A = n \<Longrightarrow> i < n \<Longrightarrow> map f A ! i = f (A ! i)"
  by simp

lemma to64_theta:
  assumes "length st = 25"
  shows "map to64 (sha3_theta st) = keccak_theta (map to64 st)"
proof -
  define T where "T = sha3_theta_sums st"
  define C where "C x = map to64 st ! x XOR map to64 st ! (x + 5) XOR map to64 st ! (x + 10) XOR map to64 st ! (x + 15) XOR
      map to64 st ! (x + 20)" for x
  have T: "to64 (T ! x) = C x" if "x < 5" for x
  proof -
    have "map to64 T = map (\<lambda>x. C x) [0..<5]" unfolding T_def C_def by (rule to64_theta_sums [OF assms])
    then have "map to64 T ! x = map C [0..<5] ! x" by simp
    then show ?thesis using that by (simp add: T_def sha3_theta_sums_def)
  qed
  have xor: "to64 (X64Word (high a XOR (high b XOR (shl (high c) 1 OR shr (low c) 31))) (low a XOR (low b XOR (shl (low c) 1 OR shr (high c) 31)))) =
      to64 a XOR to64 b XOR word_rotl 1 (to64 c)" for a b c
    unfolding to64_bitwise(3) to64_rotl_1 by simp
  obtain a0 a1 a2 a3 a4 a5 a6 a7 a8 a9 a10 a11 a12 a13 a14 a15 a16 a17 a18 a19 a20 a21 a22 a23 a24
    where st: "st = [a0, a1, a2, a3, a4, a5, a6, a7, a8, a9, a10, a11, a12, a13, a14, a15, a16, a17, a18, a19, a20, a21, a22, a23, a24]"
    using assms by (rule obtain_lanes)
  have "map to64 (sha3_theta st) = keccak_lanes (\<lambda>x y. map to64 st ! (x + 5 * y) XOR C ((x + 4) mod 5) XOR word_rotl 1 (C ((x + 1) mod 5)))"
    unfolding sha3_theta_def T_def [symmetric] keccak_lanes_def
    by (simp add: st upt_sha3 Let_def xor [simplified] T [symmetric] numeral_2_eq_2 [symmetric])
  then show ?thesis by (simp add: keccak_theta_def C_def)
qed

lemma keccak_rho_bounds: "0 < i \<Longrightarrow> i < 25 \<Longrightarrow> 0 < keccak_rho ! i \<and> keccak_rho ! i < 64 \<and> keccak_rho ! i \<noteq> 32"
proof -
  have "\<forall>i \<in> set [1..<25]. 0 < keccak_rho ! i \<and> keccak_rho ! i < 64 \<and> keccak_rho ! i \<noteq> 32"
    unfolding upt_sha3 keccak_rho_def by simp
  then show "0 < i \<Longrightarrow> i < 25 \<Longrightarrow> ?thesis" by simp
qed

lemma to64_rho_pi:
  assumes "length st = 25"
  shows "map to64 (sha3_rho_pi st) = keccak_rho_pi (map to64 st)"
proof -
  have rot: "to64 (sha3_rotate (keccak_rho ! i) (st ! i)) = word_rotl (keccak_rho ! i) (map to64 st ! i)" if "0 < i" "i < 25" for i
    using to64_sha3_rotate keccak_rho_bounds [OF that] that assms by simp
  have zero: "to64 (st ! 0) = word_rotl (keccak_rho ! 0) (map to64 st ! 0)"
  proof -
    have "word_rotl 0 w = w" for w :: word64 by (rule bit_word_eqI) (simp add: bit_word_rotl_iff)
    then show ?thesis using assms by (simp add: keccak_rho_def)
  qed
  show ?thesis
    unfolding sha3_rho_pi_def keccak_rho_pi_def keccak_lanes_def RHO_OFFSETS_eq PI_INDEXES_eq
    by (simp only: upt_sha3 fold.simps comp_def id_apply) (simp add: replicate_25 rot zero Let_def)
qed

lemma to64_chi:
  assumes "length T = 25" "length st = 25"
  shows "map to64 (sha3_chi T st) = keccak_chi (map to64 T)"
proof -
  have chi: "to64 (X64Word (high a XOR (NOT (high b) AND high c)) (low a XOR (NOT (low b) AND low c))) =
      to64 a XOR (NOT (to64 b) AND to64 c)" for a b c
    unfolding to64_bitwise(1,3,4) by simp
  obtain a0 a1 a2 a3 a4 a5 a6 a7 a8 a9 a10 a11 a12 a13 a14 a15 a16 a17 a18 a19 a20 a21 a22 a23 a24
    where st: "st = [a0, a1, a2, a3, a4, a5, a6, a7, a8, a9, a10, a11, a12, a13, a14, a15, a16, a17, a18, a19, a20, a21, a22, a23, a24]"
    using assms(2) by (rule obtain_lanes)
  show ?thesis
    unfolding sha3_chi_def keccak_chi_def keccak_lanes_def
    using assms(1) by (simp add: st upt_sha3 Let_def chi)
qed

lemma length_fold_update: "length (fold (\<lambda>i T. T[f i := g i T]) is T) = length T"
  by (induction "is" arbitrary: T) simp_all

lemma length_sha3_steps [simp]:
  "length (sha3_rho_pi st) = 25" "length (sha3_chi T st) = length st" "length (sha3_theta st) = length st"
  by (simp_all add: sha3_rho_pi_def length_fold_update sha3_chi_def sha3_theta_def upt_sha3 Let_def)

lemma to64_round:
  assumes "length st = 25" "r < 24"
  shows "map to64 (sha3_round r st) = keccak_round r (map to64 st) \<and> length (sha3_round r st) = 25"
proof -
  define B where "B = sha3_chi (sha3_rho_pi (sha3_theta st)) (sha3_theta st)"
  have len: "length B = 25" using assms by (simp add: B_def)
  have B: "map to64 B = keccak_chi (keccak_rho_pi (keccak_theta (map to64 st)))"
    using assms by (simp add: B_def to64_chi to64_rho_pi to64_theta)
  have c: "keccak_RC ! r = to64 (ROUND_CONSTANTS ! r)"
    unfolding ROUND_CONSTANTS_eq(1) [symmetric] using assms(2) ROUND_CONSTANTS_eq(2) by simp
  have "map to64 (sha3_iota r B) = (map to64 B)[0 := map to64 B ! 0 XOR keccak_RC ! r]"
    unfolding sha3_iota_def Let_def map_update to64_bitwise(3) X64Word.collapse c using len by simp
  then show ?thesis
    using len unfolding sha3_round_def keccak_round_def Let_def B_def [symmetric] B [symmetric]
    by (simp add: sha3_iota_def Let_def)
qed

lemma to64_rounds:
  assumes "length st = 25"
  shows "map to64 (fold sha3_round [0..<24] st) = keccak_f (map to64 st) \<and> length (fold sha3_round [0..<24] st) = 25"
proof -
  have "n \<le> 24 \<Longrightarrow> map to64 (fold sha3_round [0..<n] st) = fold keccak_round [0..<n] (map to64 st) \<and>
      length (fold sha3_round [0..<n] st) = 25" for n
    using assms by (induction n) (simp_all add: to64_round)
  from this [of 24] show ?thesis by (simp add: keccak_f_def)
qed

end
