(* ===== verification/Keccak.thy ===== *)
theory Keccak
  imports Sha3
begin

text \<open>
  The sponge around Keccak-f: what \<^verbatim>\<open>sha3\<close> of CryptoJS absorbs and how it pads. The locale \<open>sha3_output\<close>
  fixes one of the four output lengths for which the code is meant, and is interpreted on each of
  them.
\<close>

subsection \<open>The sponge\<close>

text \<open>The padding of the original Keccak: a bit 1, zeros, and a last bit 1, in blocks of \<open>b\<close> bytes.\<close>

definition keccak_tail :: "nat \<Rightarrow> nat \<Rightarrow> bytes" where
  "keccak_tail b n =
     (if b - n mod b = 1 then [0x81] else 0x01 # replicate (b - n mod b - 2) 0 @ [0x80])"

definition keccak_pad :: "nat \<Rightarrow> bytes \<Rightarrow> bytes" where
  "keccak_pad b B = B @ keccak_tail b (length B)"

text \<open>Absorbing a block: its words are read as little-endian lanes.\<close>

definition keccak_absorb :: "word32 list \<Rightarrow> word64 list \<Rightarrow> word64 list" where
  "keccak_absorb block A =
     keccak_f (map (\<lambda>i. if i < length block div 2
        then A ! i XOR to64 (X64Word (bswap (wget block (2 * i + 1))) (bswap (wget block (2 * i)))) else A ! i) [0..<25])"

definition keccak_sponge :: "nat \<Rightarrow> bytes \<Rightarrow> word64 list" where
  "keccak_sponge n B =
     (let P = keccak_pad (4 * n) B in absorb_bytes n keccak_absorb (length P div (4 * n)) P (replicate 25 0))"

definition le_bytes64 :: "word64 \<Rightarrow> bytes" where
  "le_bytes64 w = map (\<lambda>i. ucast (drop_bit (8 * i) w)) [0..<8]"

definition keccak_digest :: "nat \<Rightarrow> nat \<Rightarrow> bytes \<Rightarrow> bytes" where
  "keccak_digest n k B = take k (concat (map le_bytes64 (keccak_sponge n B)))"

definition sha3_absorb :: "nat \<Rightarrow> word32 list \<Rightarrow> X64Word list \<Rightarrow> X64Word list" where
  "sha3_absorb outputLength block state = fst (sha3_doProcessBlock outputLength block 0 state)"

subsection \<open>Absorbing\<close>

lemma sha3_absorb_lanes_nth:
  assumes "n \<le> 25" "length st = 25"
  shows "length (sha3_absorb_lanes n M offset st) = 25 \<and>
    (\<forall>i < 25. sha3_absorb_lanes n M offset st ! i =
      (if i < n then X64Word (high (st ! i) XOR bswap (wget M (offset + 2 * i + 1))) (low (st ! i) XOR bswap (wget M (offset + 2 * i)))
       else st ! i))"
  using assms(1)
proof (induction n)
  case 0
  then show ?case using assms(2) by (simp add: sha3_absorb_lanes_def)
next
  case (Suc n)
  have "sha3_absorb_lanes (Suc n) M offset st = (let s = sha3_absorb_lanes n M offset st in
      s[n := X64Word (high (s ! n) XOR bswap (wget M (offset + 2 * n + 1))) (low (s ! n) XOR bswap (wget M (offset + 2 * n)))])"
    by (simp add: sha3_absorb_lanes_def Let_def)
  then show ?case using Suc by (auto simp: Let_def nth_list_update less_Suc_eq)
qed

lemma sha3_absorb_64:
  assumes "length st = 25" "length block \<le> 50" "sha3_blockSize outputLength = length block"
  shows "map to64 (sha3_absorb outputLength block st) = keccak_absorb block (map to64 st) \<and>
    length (sha3_absorb outputLength block st) = 25"
proof -
  define s where "s = sha3_absorb_lanes (length block div 2) block 0 st"
  have n: "length block div 2 \<le> 25" using assms(2) by simp
  note s = sha3_absorb_lanes_nth [OF n assms(1), of block 0, folded s_def]
  have "map to64 s = map (\<lambda>i. if i < length block div 2
      then map to64 st ! i XOR to64 (X64Word (bswap (wget block (2 * i + 1))) (bswap (wget block (2 * i)))) else map to64 st ! i) [0..<25]"
  proof (rule nth_equalityI)
    fix i assume "i < length (map to64 s)"
    then have i: "i < 25" using s by simp
    then show "map to64 s ! i = map (\<lambda>i. if i < length block div 2
      then map to64 st ! i XOR to64 (X64Word (bswap (wget block (2 * i + 1))) (bswap (wget block (2 * i)))) else map to64 st ! i) [0..<25] ! i"
      using s assms(1) by (simp add: to64_bitwise(3) del: upt_rec_numeral)
  qed (use s in simp)
  then show ?thesis
    using to64_rounds [of s] s assms(3)
    by (simp add: sha3_absorb_def sha3_doProcessBlock_def keccak_absorb_def flip: s_def)
qed

subsection \<open>Padding\<close>

lemma or_last_byte: "wset ws j (wget ws j OR 0x80) = or_byte ws (4 * j + 3) (ucast (0x80 :: byte))"
  by (simp add: or_byte_def shl_def)

lemma keccak_words:
  assumes "0 < n" "b = 4 * n" "q = length R div b + 1"
  shows "or_byte (or_byte (be_words R) (length R) (ucast (0x01 :: byte))) (4 * (q * n - 1) + 3) (ucast (0x80 :: byte)) =
    be_words (keccak_pad b R)" (is "?W = _")
proof (rule words_eqI)
  define r where "r = length R"
  have b: "0 < b" using assms by simp
  have rb: "r = (q - 1) * b + r mod b" "r mod b < b" using b by (simp_all add: assms(3) r_def)
  have q: "1 \<le> q" by (simp add: assms(3))
  have qb: "q * b = r + (b - r mod b)"
  proof -
    have "q * b = (q - 1) * b + b" using q by (metis Suc_diff_1 add.commute mult_Suc less_eq_Suc_le One_nat_def)
    then show ?thesis using rb by simp
  qed
  have lenP: "length (keccak_pad b R) = q * b"
    using qb rb(2) by (auto simp: keccak_pad_def keccak_tail_def r_def)
  have qn: "0 < q * n" "q * b = 4 * (q * n)" using q assms(1,2) by simp_all
  then have last: "4 * (q * n - 1) + 3 = q * b - 1" by linarith
  have len: "(q * b + 3) div 4 = q * n" using assms(2) by simp
  have "length ?W = q * n"
  proof -
    have "(4 * (q * n - 1) + 3) div 4 = q * n - 1" by simp
    moreover have "r < 4 * (q * n)" using qb rb(2) qn(2) by linarith
    then have "(r + 3) div 4 \<le> q * n" "r div 4 < q * n" by linarith+
    ultimately show ?thesis using qn(1) by (simp add: r_def)
  qed
  then show "length ?W = length (be_words (keccak_pad b R))" using lenP len by simp
  fix i
  define z where "z = b - r mod b"
  have z: "0 < z" "q * b - 1 = r + z - 1" using rb(2) qb by (simp_all add: z_def)
  have pad: "keccak_pad b R = R @ (if z = 1 then [0x81] else 0x01 # replicate (z - 2) 0 @ [0x80])"
    by (simp add: keccak_pad_def keccak_tail_def z_def r_def)
  show "wbyte ?W i = wbyte (be_words (keccak_pad b R)) i"
    unfolding last z(2) wbyte_or_byte wbyte_be_words pad
  proof (cases "z = 1")
    case True
    then show "(if i = r + z - 1 then (if r + z - 1 = length R then byte_at R (length R) OR 1 else byte_at R (r + z - 1)) OR 128
        else if i = length R then byte_at R (length R) OR 1 else byte_at R i) =
        byte_at (R @ (if z = 1 then [129] else 1 # replicate (z - 2) 0 @ [128])) i"
      by (simp add: byte_at_def nth_append r_def)
  next
    case False
    then obtain y where y: "z = y + 2" using z(1) by (metis One_nat_def add_2_eq_Suc' gr0_conv_Suc not0_implies_Suc)
    then show "(if i = r + z - 1 then (if r + z - 1 = length R then byte_at R (length R) OR 1 else byte_at R (r + z - 1)) OR 128
        else if i = length R then byte_at R (length R) OR 1 else byte_at R i) =
        byte_at (R @ (if z = 1 then [129] else 1 # replicate (z - 2) 0 @ [128])) i"
      by (auto simp: y byte_at_def nth_append nth_Cons' r_def)
  qed
qed

subsection \<open>Hashing\<close>

subsection \<open>Squeezing\<close>

lemma squeeze_lane: "word_bytes (bswap (low x)) @ word_bytes (bswap (high x)) = le_bytes64 (to64 x)"
proof (cases x)
  case (X64Word h l)
  have lo: "ucast (drop_bit k l) = (ucast (drop_bit k (to64 x)) :: byte)" if "k \<le> 24" for k
    by (rule bit_word_eqI) (use that in \<open>auto simp: X64Word bit_to64 bit_ucast_iff bit_drop_bit_eq\<close>)
  have hi: "ucast (drop_bit k h) = (ucast (drop_bit (k + 32) (to64 x)) :: byte)" if "k \<le> 24" for k
    by (rule bit_word_eqI) (use that in \<open>auto simp: X64Word bit_to64 bit_ucast_iff bit_drop_bit_eq\<close>)
  show ?thesis
    unfolding word_bytes_bswap by (simp add: word_bytes_def le_bytes64_def upt_4 upt_8 X64Word)
      (use lo [of 0] lo [of 8] lo [of 16] lo [of 24] hi [of 0] hi [of 8] hi [of 16] hi [of 24] in \<open>simp add: X64Word\<close>)
qed

lemma wa_bytes_words:
  assumes "k \<le> 4 * length ws"
  shows "wa_bytes \<lparr>words = ws, sigBytes = k\<rparr> = take k (concat (map word_bytes ws))"
proof (rule nth_equalityI)
  have len: "length (concat (map word_bytes ws)) = 4 * length ws" for ws by (induction ws) simp_all
  show "length (wa_bytes \<lparr>words = ws, sigBytes = k\<rparr>) = length (take k (concat (map word_bytes ws)))"
    using assms by (simp add: len)
  have nth: "concat (map word_bytes ws) ! i = word_bytes (ws ! (i div 4)) ! (i mod 4)" if "i < 4 * length ws" for i ws
    using that
  proof (induction ws arbitrary: i)
    case (Cons w ws)
    then show ?case
      by (cases "i < 4") (simp_all add: nth_append le_div_geq le_mod_geq)
  qed simp
  fix i assume "i < length (wa_bytes \<lparr>words = ws, sigBytes = k\<rparr>)"
  then show "wa_bytes \<lparr>words = ws, sigBytes = k\<rparr> ! i = take k (concat (map word_bytes ws)) ! i"
    using assms nth [of i ws] by (simp add: wa_bytes_def wbyte_word_bytes wget_def div_less_iff_less_mult)
qed

lemma squeeze_bytes:
  assumes "length st = 25" "k \<le> 64"
  shows "wa_bytes (sha3_squeeze (8 * k) st) = take k (concat (map le_bytes64 (map to64 st)))"
proof -
  define m where "m = (k + 7) div 8"
  define f where "f x = [bswap (low x), bswap (high x)]" for x
  have m: "m \<le> 25" "k \<le> 8 * m" using assms(2) by (simp_all add: m_def)
  have ws: "concat (map (\<lambda>i. f (st ! i)) [0..<m]) = concat (map f (take m st))"
    using m(1) assms(1) by (intro arg_cong [where f = concat] nth_equalityI) simp_all
  have lane: "concat (map word_bytes (concat (map f xs))) = concat (map le_bytes64 (map to64 xs))"
      "length (concat (map f xs)) = 2 * length xs" for xs
    by (induction xs) (simp_all add: f_def squeeze_lane)
  have len: "length (concat (map le_bytes64 xs)) = 8 * length xs" for xs by (induction xs) (simp_all add: le_bytes64_def)
  have "wa_bytes (sha3_squeeze (8 * k) st) = take k (concat (map le_bytes64 (map to64 (take m st))))"
    unfolding sha3_squeeze_def WordArray_init_def using m assms(1) ws
    by (simp add: wa_bytes_words lane flip: f_def m_def)
  also have "\<dots> = take k (concat (map le_bytes64 (map to64 (take m st @ drop m st))))"
    using m assms(1) by (simp add: len del: append_take_drop_id map_map)
  finally show ?thesis by simp
qed

locale sha3_output =
  fixes outputLength :: nat
  assumes outputLength: "outputLength \<in> {224, 256, 384, 512}"
begin

definition n :: nat where
  "n = sha3_blockSize outputLength"

lemma n_values: "0 < n" "n \<le> 50" "2 * (n div 2) = n"
  using outputLength by (auto simp: n_def sha3_blockSize_def)

sublocale block_algorithm n "sha3_doProcessBlock outputLength" "sha3_absorb outputLength"
proof
  show "0 < n" by (rule n_values)
  fix ws offset h
  let ?block = "map (\<lambda>i. wget ws (offset + i)) [0..<n]"
  have "sha3_absorb_lanes (n div 2) ws offset h = sha3_absorb_lanes (n div 2) ?block 0 h"
    unfolding sha3_absorb_lanes_def
  proof (rule fold_cong [OF refl refl])
    fix i assume "i \<in> set [0..<n div 2]"
    then have "2 * i < n" "2 * i + 1 < n" using n_values(3) by auto
    then show "(\<lambda>state. let M2i = bswap (wget ws (offset + 2 * i)); M2i1 = bswap (wget ws (offset + 2 * i + 1))
          in state[i := X64Word (high (state ! i) XOR M2i1) (low (state ! i) XOR M2i)]) =
        (\<lambda>state. let M2i = bswap (wget ?block (0 + 2 * i)); M2i1 = bswap (wget ?block (0 + 2 * i + 1))
          in state[i := X64Word (high (state ! i) XOR M2i1) (low (state ! i) XOR M2i)])"
      by (simp add: wget_def [of ?block] add.assoc)
  qed
  then show "fst (sha3_doProcessBlock outputLength ws offset h) = sha3_absorb outputLength ?block h"
    by (simp add: sha3_absorb_def sha3_doProcessBlock_def n_def)
  show "drop (offset + n) (snd (sha3_doProcessBlock outputLength ws offset h)) = drop (offset + n) ws"
    by (simp add: sha3_doProcessBlock_def)
qed

lemma pad_state:
  assumes h: "holds h0 B a" and small: "8 * (length B + 4 * n) < 2 ^ 32"
  shows "\<exists>alg. sha3_doFinalize outputLength a = (sha3_squeeze outputLength (alg_state alg), alg) \<and>
    alg_state alg = absorb_bytes n (sha3_absorb outputLength) (length (keccak_pad (4 * n) B) div (4 * n)) (keccak_pad (4 * n) B) h0"
proof -
  define b where "b = 4 * n"
  have b: "0 < b" using n_values(1) by (simp add: b_def)
  obtain k where k: "k * b \<le> length B" "alg_state a = absorb_bytes n (sha3_absorb outputLength) k B h0"
      "alg_data a = wa_of_bytes (drop (k * b) B)"
    using h by (auto simp: holds_def b_def)
  define R q where "R = drop (k * b) B" and "q = length R div b + 1"
  have B: "length B = length R + k * b" using k(1) by (simp add: R_def)
  have small': "8 * (length R + b) < 2 ^ 32" using small B by (simp add: b_def)
  have qb: "q * b \<le> length R + b" using div_times_less_eq_dividend [of "length R" b] by (simp add: q_def)
  have one: "wset (be_words R) (ushr (8 * length R) 5) (wget (be_words R) (ushr (8 * length R) 5) OR shl 1 (24 - 8 * length R mod 32)) =
      or_byte (be_words R) (length R) (ucast (0x01 :: byte))"
  proof -
    have "8 * length R div 32 = length R div 4" using div_mult_mult1 [of 8 "length R" 4] by simp
    then have "ushr (8 * length R) 5 = length R div 4" using small' by (simp add: ushr_def)
    moreover have "8 * length R mod 32 = length R mod 4 * 8" using mult_mod_right [of 8 "length R" 4] by (simp add: mult.commute)
    ultimately show ?thesis by (simp add: or_byte_def)
  qed
  have last: "ushr ((8 * length R + 1 + (n * 32 - 1)) div (n * 32) * (n * 32)) 5 = q * n"
  proof -
    have "8 * length R + 1 + (n * 32 - 1) = 8 * (length R + b)" "n * 32 = 8 * b" using n_values(1) by (simp_all add: b_def)
    then have "(8 * length R + 1 + (n * 32 - 1)) div (n * 32) = (length R + b) div b" by (simp only: div_mult_mult1)
    also have "\<dots> = q" using b by (simp add: q_def div_add_self2)
    finally have eq: "(8 * length R + 1 + (n * 32 - 1)) div (n * 32) * (n * 32) = q * n * 32" by (simp only: mult.assoc)
    have "q * n * 32 < 2 ^ 32" using qb small' by (simp add: b_def)
    then show ?thesis unfolding eq by (simp add: ushr_def)
  qed
  define alg where "alg = snd (bba_process n 0 (sha3_doProcessBlock outputLength) False
      (a\<lparr>alg_data := \<lparr>words = be_words (keccak_pad b R), sigBytes = length (be_words (keccak_pad b R)) * 4\<rparr>\<rparr>))"
  have "sha3_doFinalize outputLength a = (sha3_squeeze outputLength (alg_state alg), alg)"
    unfolding sha3_doFinalize_def Let_def n_def [symmetric] k(3) words_of_bytes R_def [symmetric] sigBytes_of_bytes
      mult.commute [of "length R" 8] last one or_last_byte
      keccak_words [OF n_values(1) b_def q_def] alg_def ..
  moreover have "alg_state alg = absorb_bytes n (sha3_absorb outputLength) (length (keccak_pad b B) div b) (keccak_pad b B) h0"
  proof -
    have pad: "keccak_pad b B = B @ keccak_tail b (length R)" "keccak_pad b R = R @ keccak_tail b (length R)"
      by (simp_all add: keccak_pad_def keccak_tail_def B)
    have "length R mod b < b" using b by simp
    then have "length (keccak_pad b R) = length R + (b - length R mod b)"
      by (auto simp: keccak_pad_def keccak_tail_def)
    also have "\<dots> = q * b"
    proof -
      have "length R div b * b + length R mod b = length R" by (rule div_mult_mod_eq)
      then have "length R + (b - length R mod b) = length R div b * b + b" using \<open>length R mod b < b\<close> by linarith
      then show ?thesis by (simp add: q_def)
    qed
    finally have lenR: "length (keccak_pad b R) = q * b" .
    have "length (keccak_pad b B) = (k + q) * b" using lenR B pad by (simp add: add_mult_distrib)
    then have lenB: "length (keccak_pad b B) div b = k + q" using b by simp
    have "length (be_words (keccak_pad b R)) = (4 * (q * n) + 3) div 4" unfolding length_be_words lenR by (simp add: b_def)
    then have "length (be_words (keccak_pad b R)) = q * n" by simp
    then have "length (be_words (keccak_pad b R)) * 4 div b = q" using b by (simp add: b_def)
    then have "alg_state alg = absorb_bytes n (sha3_absorb outputLength) q (keccak_pad b R) (alg_state a)"
      unfolding alg_def using process_state_spec [of "a\<lparr>alg_data := \<lparr>words = be_words (keccak_pad b R),
          sigBytes = length (be_words (keccak_pad b R)) * 4\<rparr>\<rparr>" "keccak_pad b R"] by (simp add: b_def)
    moreover have "drop (k * b) (keccak_pad b B) = keccak_pad b R" unfolding pad using k(1) by (simp add: R_def)
    ultimately show ?thesis
      unfolding lenB unfolding pad(1) k(2) using absorb_bytes_append [of k B q "keccak_tail b (length R)" h0] k(1) pad(1) by (simp add: b_def)
  qed
  ultimately show ?thesis by (auto simp: b_def)
qed

lemma sponge_64:
  assumes "length h0 = 25"
  shows "map to64 (absorb_bytes n (sha3_absorb outputLength) m P h0) = absorb_bytes n keccak_absorb m P (map to64 h0) \<and>
    length (absorb_bytes n (sha3_absorb outputLength) m P h0) = 25"
proof (induction m)
  case (Suc m)
  define st where "st = absorb_bytes n (sha3_absorb outputLength) m P h0"
  have "length (block_at n P m) = n" by (simp add: block_at_def)
  then have "map to64 (sha3_absorb outputLength (block_at n P m) st) = keccak_absorb (block_at n P m) (map to64 st) \<and>
      length (sha3_absorb outputLength (block_at n P m) st) = 25"
    using Suc n_values(2) by (intro sha3_absorb_64) (simp_all add: n_def st_def)
  then show ?case unfolding absorb_bytes_Suc using Suc by (simp only: st_def)
qed (simp add: absorb_bytes_def assms)

text \<open>The state that is squeezed is that of the sponge, however the message was cut into updates.\<close>

lemma sponge:
  assumes "list_all wa_tidy ms" "wa_tidy m"
    and "B = concat (map wa_bytes ms) @ wa_bytes m" "8 * (length B + 4 * n) < 2 ^ 32"
  shows "\<exists>st. map to64 st = keccak_sponge n B \<and> length st = 25 \<and>
    fst (hasher_finalize (sha3_doFinalize outputLength) (Some m)
      (fold (hasher_update n (sha3_doProcessBlock outputLength)) ms (bba_reset sha3_doReset))) = sha3_squeeze outputLength st"
proof -
  note h = holds_append [OF taken_holds [OF taken_updates [OF assms(1), of sha3_doReset]] assms(2), folded assms(3)]
  obtain alg where "sha3_doFinalize outputLength (bba_append m (fold (hasher_update n (sha3_doProcessBlock outputLength)) ms
        (bba_reset sha3_doReset))) = (sha3_squeeze outputLength (alg_state alg), alg)"
      "alg_state alg = absorb_bytes n (sha3_absorb outputLength) (length (keccak_pad (4 * n) B) div (4 * n)) (keccak_pad (4 * n) B) sha3_doReset"
    using pad_state [OF h assms(4)] by blast
  moreover have "length sha3_doReset = 25" "map to64 sha3_doReset = replicate 25 0"
    by (simp_all add: sha3_doReset_def to64_zero)
  ultimately show ?thesis
    using sponge_64 [of sha3_doReset "length (keccak_pad (4 * n) B) div (4 * n)" "keccak_pad (4 * n) B"]
    by (intro exI [of _ "alg_state alg"]) (simp add: hasher_finalize_def keccak_sponge_def Let_def)
qed

end

context sha3_output
begin

lemma digest:
  assumes "list_all wa_tidy ms" "wa_tidy m"
    and "B = concat (map wa_bytes ms) @ wa_bytes m" "8 * (length B + 4 * n) < 2 ^ 32"
  shows "wa_bytes (fst (hasher_finalize (sha3_doFinalize outputLength) (Some m)
      (fold (hasher_update n (sha3_doProcessBlock outputLength)) ms (bba_reset sha3_doReset)))) =
    keccak_digest n (outputLength div 8) B"
proof -
  have "outputLength = 8 * (outputLength div 8)" "outputLength div 8 \<le> 64" using outputLength by auto
  with sponge [OF assms] squeeze_bytes [of _ "outputLength div 8"] show ?thesis
    by (metis keccak_digest_def)
qed

end

interpretation sha3_224: sha3_output 224
  by unfold_locales simp

interpretation sha3_256: sha3_output 256
  by unfold_locales simp

interpretation sha3_384: sha3_output 384
  by unfold_locales simp

interpretation sha3_512: sha3_output 512
  by unfold_locales simp

end
