(* ===== verification/Hashers.thy ===== *)
theory Hashers
  imports Kdf Sha1 Sha2_Tables Md5 Ripemd160 Keccak
begin

text \<open>
  The hash functions of CryptoJS (\<^verbatim>\<open>src/internal/jsre/deps/web3.js\<close>) as hashers that HMAC and the key derivations can
  be run with. Each of them satisfies the contract \<open>hash_object\<close>, so that the lemmas on HMAC, EvpKDF and PBKDF2 hold
  of every one.
\<close>

subsection \<open>The hashers\<close>

definition sha1_hasher :: "word32 list Hasher" where
  "sha1_hasher = \<lparr>h_blockSize = 16, h_doReset = sha1_doReset, h_doProcessBlock = sha1_doProcessBlock,
     h_doFinalize = sha1_doFinalize\<rparr>"

definition sha256_hasher :: "word32 list \<Rightarrow> word32 list \<Rightarrow> word32 list Hasher" where
  "sha256_hasher H K = \<lparr>h_blockSize = 16, h_doReset = sha256_doReset H, h_doProcessBlock = sha256_doProcessBlock K,
     h_doFinalize = sha256_doFinalize K\<rparr>"

definition sha224_hasher :: "word32 list \<Rightarrow> word32 list Hasher" where
  "sha224_hasher K = \<lparr>h_blockSize = 16, h_doReset = sha224_doReset, h_doProcessBlock = sha256_doProcessBlock K,
     h_doFinalize = sha224_doFinalize K\<rparr>"

definition md5_hasher :: "word32 list \<Rightarrow> word32 list Hasher" where
  "md5_hasher T = \<lparr>h_blockSize = 16, h_doReset = md5_doReset, h_doProcessBlock = md5_doProcessBlock T,
     h_doFinalize = md5_doFinalize T\<rparr>"

definition ripemd160_hasher :: "word32 list Hasher" where
  "ripemd160_hasher = \<lparr>h_blockSize = 16, h_doReset = ripemd_doReset, h_doProcessBlock = ripemd_doProcessBlock,
     h_doFinalize = ripemd_doFinalize\<rparr>"

definition sha512_hasher :: "X64Word list Hasher" where
  "sha512_hasher = \<lparr>h_blockSize = 32, h_doReset = sha512_doReset, h_doProcessBlock = sha512_doProcessBlock,
     h_doFinalize = sha512_doFinalize\<rparr>"

definition sha384_hasher :: "X64Word list Hasher" where
  "sha384_hasher = \<lparr>h_blockSize = 32, h_doReset = sha384_doReset, h_doProcessBlock = sha512_doProcessBlock,
     h_doFinalize = sha384_doFinalize\<rparr>"

definition sha3_hasher :: "nat \<Rightarrow> X64Word list Hasher" where
  "sha3_hasher outputLength = \<lparr>h_blockSize = sha3_blockSize outputLength, h_doReset = sha3_doReset,
     h_doProcessBlock = sha3_doProcessBlock outputLength, h_doFinalize = sha3_doFinalize outputLength\<rparr>"

subsection \<open>They satisfy the contract\<close>

lemma absorb_bytes_invariant:
  "P h0 \<Longrightarrow> (\<And>b h. P h \<Longrightarrow> P (absorb b h)) \<Longrightarrow> P (absorb_bytes n absorb m B h0)"
  by (induction m) (simp_all add: absorb_bytes_Suc, simp add: absorb_bytes_def)

lemma md_hash_invariant:
  "P h0 \<Longrightarrow> (\<And>b h. P h \<Longrightarrow> P (absorb b h)) \<Longrightarrow> P (md_hash n r len absorb h0 B)"
  unfolding md_hash_def Let_def by (rule absorb_bytes_invariant)

context hash_function
begin

lemma object:
  assumes hc: "hc = \<lparr>h_blockSize = blockSize, h_doReset = h0, h_doProcessBlock = doProcessBlock, h_doFinalize = doFinalize\<rparr>"
    and P: "P h0" "\<And>b h. P h \<Longrightarrow> P (absorb b h)"
    and out: "\<And>h. P h \<Longrightarrow> sigBytes (out h) = digest \<and> digest \<le> 4 * length (words (out h))"
    and digest: "0 < digest" "4 dvd digest" "digest \<le> 4 * blockSize" "blockSize \<le> 32" "reserved \<le> 16"
  shows "hash_object hc (\<lambda>B. wa_bytes (out (md_hash blockSize reserved len absorb h0 B))) digest (2 ^ 28)"
proof
  have size: "sigBytes (out (md_hash blockSize reserved len absorb h0 B)) = digest"
    "digest \<le> 4 * length (words (out (md_hash blockSize reserved len absorb h0 B)))" for B
    using out [OF md_hash_invariant [where P = P and absorb = absorb, OF P]] by blast+
  show "length (wa_bytes (out (md_hash blockSize reserved len absorb h0 B))) = digest" for B
    by (simp add: size)
  fix ms :: "WordArray list" and m B
  let ?r = "fst (hash_finalize hc (Some m) (fold (hash_update hc) ms (hash_init hc)))"
  assume a: "list_all wa_tidy ms" "wa_tidy m" "B = concat (map wa_bytes ms) @ wa_bytes m" "length B < 2 ^ 28"
  have "8 * (length B + reserved) < 2 ^ 32" using a(4) digest(5) by simp
  from streaming [OF a(1-3) this] have "?r = out (md_hash blockSize reserved len absorb h0 B)"
    by (simp add: hc hash_finalize_def hash_update_def hash_init_def)
  then show "wa_bytes ?r = wa_bytes (out (md_hash blockSize reserved len absorb h0 B)) \<and>
      wa_tidy ?r \<and> digest \<le> 4 * length (words ?r)"
    using size digest(2) by (simp add: wa_tidy_dvd)
qed (use digest in \<open>simp_all add: hc\<close>)

end

context sha3_output
begin

lemma object:
  "hash_object (sha3_hasher outputLength) (keccak_digest n (outputLength div 8)) (outputLength div 8) (2 ^ 28)"
proof
  let ?hc = "sha3_hasher outputLength"
  have out: "0 < outputLength div 8" "4 dvd outputLength div 8" "outputLength div 8 \<le> 4 * n" "8 * n < 2 ^ 28"
      "outputLength div 8 \<le> 4 * (2 * ((outputLength div 8 + 7) div 8))" "outputLength div 8 \<le> 200"
    using outputLength by (auto simp: n_def sha3_blockSize_def)
  have lanes: "length (absorb_bytes n keccak_absorb m P (replicate 25 0)) = 25" for m P
  proof -
    have "length sha3_doReset = 25" "map to64 sha3_doReset = replicate 25 0"
      by (simp_all add: sha3_doReset_def to64_zero)
    with sponge_64 [of sha3_doReset m P] show ?thesis by (metis length_map)
  qed
  show "length (keccak_digest n (outputLength div 8) B) = outputLength div 8" for B
  proof -
    have "length (concat (map le_bytes64 xs)) = 8 * length xs" for xs by (induction xs) (simp_all add: le_bytes64_def)
    then show ?thesis using lanes out(6) by (simp add: keccak_digest_def keccak_sponge_def Let_def)
  qed
  show "0 < outputLength div 8" "4 dvd outputLength div 8" "outputLength div 8 \<le> 4 * h_blockSize ?hc"
    "8 * h_blockSize ?hc < 2 ^ 28"
    using out by (simp_all add: sha3_hasher_def n_def)
  fix ms :: "WordArray list" and m B
  let ?r = "fst (hash_finalize ?hc (Some m) (fold (hash_update ?hc) ms (hash_init ?hc)))"
  assume a: "list_all wa_tidy ms" "wa_tidy m" "B = concat (map wa_bytes ms) @ wa_bytes m" "length B < 2 ^ 28"
  have small: "8 * (length B + 4 * n) < 2 ^ 32" using a(4) n_values(2) by simp
  have r: "?r = fst (hasher_finalize (sha3_doFinalize outputLength) (Some m)
      (fold (hasher_update n (sha3_doProcessBlock outputLength)) ms (bba_reset sha3_doReset)))"
    by (simp add: sha3_hasher_def hash_finalize_def hash_update_def hash_init_def n_def)
  obtain st where "?r = sha3_squeeze outputLength st" using sponge [OF a(1-3) small] r by auto
  moreover have "length (concat (map (\<lambda>i. [f i, g i]) [0..<k])) = 2 * k" for f g :: "nat \<Rightarrow> word32" and k by (induction k) simp_all
  ultimately have "sigBytes ?r = outputLength div 8" "outputLength div 8 \<le> 4 * length (words ?r)"
    using out(5) by (simp_all add: sha3_squeeze_def WordArray_init_def)
  then show "wa_bytes ?r = keccak_digest n (outputLength div 8) B \<and> wa_tidy ?r \<and>
      outputLength div 8 \<le> 4 * length (words ?r)"
    using digest [OF a(1-3) small] out(2) r by (simp add: wa_tidy_dvd)
qed

end

interpretation sha1_object: hash_object sha1_hasher
  "\<lambda>B. wa_bytes (WordArray_init (md_hash 16 8 be64 sha1_absorb sha1_doReset B) None)" 20 "2 ^ 28"
  by (rule sha1.object [where P = "\<lambda>h. length h = 5"])
    (simp_all add: sha1_hasher_def sha1_doReset_def sha1_absorb_def sha1_doProcessBlock_def WordArray_init_def split: prod.split)

interpretation sha256_object: hash_object "sha256_hasher (map word_of_int fips_H256) K"
  "\<lambda>B. wa_bytes (WordArray_init (md_hash 16 8 be64 (sha256_absorb K) (sha256_doReset (map word_of_int fips_H256)) B) None)"
  32 "2 ^ 28"
  for K
  by (rule sha256.object [where P = "\<lambda>h. length h = 8"])
    (simp_all add: sha256_hasher_def sha256_doReset_def fips_H256_def sha2_primes_def sha256_absorb_def sha256_doProcessBlock_def
      WordArray_init_def split: prod.split)

interpretation sha224_object: hash_object "sha224_hasher K"
  "\<lambda>B. wa_bytes \<lparr>words = md_hash 16 8 be64 (sha256_absorb K) sha224_doReset B,
     sigBytes = length (md_hash 16 8 be64 (sha256_absorb K) sha224_doReset B) * 4 - 4\<rparr>" 28 "2 ^ 28"
  for K
  by (rule sha224.object [where P = "\<lambda>h. length h = 8"])
    (simp_all add: sha224_hasher_def sha224_doReset_def sha256_absorb_def sha256_doProcessBlock_def split: prod.split)

interpretation md5_object: hash_object "md5_hasher T"
  "\<lambda>B. wa_bytes (WordArray_init (map bswap (md_hash 16 8 le64 (md5_absorb T) md5_doReset B)) None)" 16 "2 ^ 28"
  for T
  by (rule md5.object [where P = "\<lambda>h. length h = 4"])
    (simp_all add: md5_hasher_def md5_doReset_def md5_absorb_def md5_doProcessBlock_def WordArray_init_def
      Let_def split: prod.split)

interpretation ripemd160_object: hash_object ripemd160_hasher
  "\<lambda>B. wa_bytes (WordArray_init (map bswap (md_hash 16 8 le64 ripemd_absorb ripemd_doReset B)) None)" 20 "2 ^ 28"
  by (rule ripemd.object [where P = "\<lambda>h. length h = 5"])
    (simp_all add: ripemd160_hasher_def ripemd_doReset_def ripemd_absorb_def ripemd_doProcessBlock_def WordArray_init_def
      Let_def split: prod.split)

lemma length_x64_toX32 [simp]: "length (x64_toX32 ws) = 2 * length ws"
  by (induction ws) (simp_all add: x64_toX32_def)

interpretation sha512_object: hash_object sha512_hasher
  "\<lambda>B. wa_bytes (WordArray_init (x64_toX32 (md_hash 32 16 be64 sha512_absorb sha512_doReset B))
     (Some (length (md_hash 32 16 be64 sha512_absorb sha512_doReset B) * 8)))" 64 "2 ^ 28"
  by (rule sha512.object [where P = "\<lambda>h. length h = 8"])
    (simp_all add: sha512_hasher_def sha512_doReset_def sha512_absorb_def sha512_doProcessBlock_def WordArray_init_def
      Let_def split: prod.split)

interpretation sha384_object: hash_object sha384_hasher
  "\<lambda>B. wa_bytes (WordArray_init (x64_toX32 (md_hash 32 16 be64 sha512_absorb sha384_doReset B))
     (Some (length (md_hash 32 16 be64 sha512_absorb sha384_doReset B) * 8 - 16)))" 48 "2 ^ 28"
  by (rule sha384.object [where P = "\<lambda>h. length h = 8"])
    (simp_all add: sha384_hasher_def sha384_doReset_def sha512_absorb_def sha512_doProcessBlock_def WordArray_init_def
      Let_def split: prod.split)

interpretation sha3_224_object: hash_object "sha3_hasher 224" "keccak_digest 36 28" 28 "2 ^ 28"
  using sha3_224.object by (simp add: sha3_224.n_def sha3_blockSize_def)

interpretation sha3_256_object: hash_object "sha3_hasher 256" "keccak_digest 34 32" 32 "2 ^ 28"
  using sha3_256.object by (simp add: sha3_256.n_def sha3_blockSize_def)

interpretation sha3_384_object: hash_object "sha3_hasher 384" "keccak_digest 26 48" 48 "2 ^ 28"
  using sha3_384.object by (simp add: sha3_384.n_def sha3_blockSize_def)

interpretation sha3_512_object: hash_object "sha3_hasher 512" "keccak_digest 18 64" 64 "2 ^ 28"
  using sha3_512.object by (simp add: sha3_512.n_def sha3_blockSize_def)

end
