(* ===== verification/Cipher_Formats.thy ===== *)
theory Cipher_Formats
  imports Block_Ciphers Base64 Hashers
begin

text \<open>
  The serialisable ciphers of \<^verbatim>\<open>cipher-core\<close> and \<^verbatim>\<open>format-hex\<close> (\<^verbatim>\<open>src/internal/jsre/deps/web3.js\<close>), for block ciphers: the two
  formats of a ciphertext, the OpenSSL key derivation, and encryption under a key or a password. A password stands for the
  word array that \<^verbatim>\<open>Utf8.parse\<close> makes of it. Random words are arguments. \<open>None\<close> is a run that throws or does not return.
\<close>

datatype Format = OpenSSLFormatter | HexFormatter

record CipherParams =
  cp_ciphertext :: WordArray
  cp_key :: "WordArray option"
  cp_iv :: "WordArray option"
  cp_salt :: "WordArray option"
  cp_mode :: "Mode option"
  cp_padding :: "Padding option"
  cp_blockSize :: "nat option"
  cp_formatter :: "Format option"

definition CipherParams_create :: "WordArray \<Rightarrow> WordArray option \<Rightarrow> CipherParams" where
  "CipherParams_create ciphertext salt =
     \<lparr>cp_ciphertext = ciphertext, cp_key = None, cp_iv = None, cp_salt = salt, cp_mode = None, cp_padding = None,
      cp_blockSize = None, cp_formatter = None\<rparr>"

definition OpenSSL_stringify :: "CipherParams \<Rightarrow> jsstring" where
  "OpenSSL_stringify cp =
     Base64_stringify
       (case cp_salt cp of
          Some salt \<Rightarrow> wa_concat (wa_concat (WordArray_init [0x53616c74, 0x65645f5f] None) salt) (cp_ciphertext cp)
        | None \<Rightarrow> cp_ciphertext cp)"

text \<open>A header that is cut off leaves a negative number of bytes; no word array of the model has one.\<close>

definition OpenSSL_parse :: "jsstring \<Rightarrow> CipherParams option" where
  "OpenSSL_parse openSSLStr =
     (let ciphertext = Base64_parse openSSLStr;
          ciphertextWords = words ciphertext
      in if wget ciphertextWords 0 = 0x53616c74 \<and> wget ciphertextWords 1 = 0x65645f5f then
           if sigBytes ciphertext < 16 then None
           else Some (CipherParams_create
                  \<lparr>words = drop 4 ciphertextWords, sigBytes = sigBytes ciphertext - 16\<rparr>
                  (Some (WordArray_init (js_slice ciphertextWords 2 4) None)))
         else Some (CipherParams_create ciphertext None))"

definition Hex_format :: "CipherParams \<Rightarrow> jsstring" where
  "Hex_format cp = Hex_stringify (cp_ciphertext cp)"

definition Hex_unformat :: "jsstring \<Rightarrow> CipherParams option" where
  "Hex_unformat input = map_option (\<lambda>ciphertext. CipherParams_create ciphertext None) (Hex_parse input)"

primrec format_stringify :: "Format \<Rightarrow> CipherParams \<Rightarrow> jsstring" where
  "format_stringify OpenSSLFormatter cp = OpenSSL_stringify cp"
| "format_stringify HexFormatter cp = Hex_format cp"

primrec format_parse :: "Format \<Rightarrow> jsstring \<Rightarrow> CipherParams option" where
  "format_parse OpenSSLFormatter s = OpenSSL_parse s"
| "format_parse HexFormatter s = Hex_unformat s"

definition CipherParams_toString :: "Format option \<Rightarrow> CipherParams \<Rightarrow> jsstring option" where
  "CipherParams_toString formatter cp =
     (case formatter of Some f \<Rightarrow> Some (format_stringify f cp)
      | None \<Rightarrow> map_option (\<lambda>f. format_stringify f cp) (cp_formatter cp))"

subsection \<open>Encryption under a key\<close>

record CipherAlgo =
  ca_create :: "WordArray \<Rightarrow> BlockCipher"
  ca_keySize :: nat
  ca_ivSize :: nat

record CipherCfg =
  cfg_iv :: "WordArray option"
  cfg_mode :: Mode
  cfg_padding :: Padding
  cfg_format :: Format

definition Serializable_encrypt ::
    "(nat \<Rightarrow> word32) \<Rightarrow> CipherAlgo \<Rightarrow> WordArray \<Rightarrow> WordArray \<Rightarrow> CipherCfg \<Rightarrow> CipherParams option" where
  "Serializable_encrypt rnd cipher message key cfg =
     map_option
       (\<lambda>ciphertext.
         \<lparr>cp_ciphertext = ciphertext, cp_key = Some key, cp_iv = cfg_iv cfg, cp_salt = None, cp_mode = Some (cfg_mode cfg),
          cp_padding = Some (cfg_padding cfg), cp_blockSize = Some (bc_blockSize (ca_create cipher key)),
          cp_formatter = Some (cfg_format cfg)\<rparr>)
       (block_encrypt rnd (ca_create cipher key) (cfg_mode cfg) (cfg_padding cfg) (cfg_iv cfg) message)"

datatype Ciphertext = Text jsstring | Params CipherParams

primrec Serializable_parse :: "Ciphertext \<Rightarrow> Format \<Rightarrow> CipherParams option" where
  "Serializable_parse (Text s) format = format_parse format s"
| "Serializable_parse (Params cp) format = Some cp"

definition Serializable_decrypt ::
    "CipherAlgo \<Rightarrow> Ciphertext \<Rightarrow> WordArray \<Rightarrow> CipherCfg \<Rightarrow> WordArray option" where
  "Serializable_decrypt cipher ciphertext key cfg =
     (case Serializable_parse ciphertext (cfg_format cfg) of None \<Rightarrow> None
      | Some cp \<Rightarrow>
          block_decrypt (ca_create cipher key) (cfg_mode cfg) (cfg_padding cfg) (cfg_iv cfg) (cp_ciphertext cp))"

subsection \<open>Encryption under a password\<close>

text \<open>\<open>T\<close> is the table of MD5. The fuel of the derivation is the number of words it has to make.\<close>

definition OpenSSLKdf_execute ::
    "word32 list \<Rightarrow> (nat \<Rightarrow> word32) \<Rightarrow> WordArray \<Rightarrow> nat \<Rightarrow> nat \<Rightarrow> WordArray option \<Rightarrow> (WordArray \<times> WordArray \<times> WordArray) option" where
  "OpenSSLKdf_execute T rnd password keySize ivSize salt =
     (let salt = (case salt of Some salt \<Rightarrow> salt | None \<Rightarrow> WordArray_random rnd (64 div 8))
      in map_option
           (\<lambda>key. (key\<lparr>sigBytes := keySize * 4\<rparr>, WordArray_init (drop keySize (words key)) (Some (ivSize * 4)), salt))
           (evpkdf_compute (md5_hasher T) (keySize + ivSize) 1 (keySize + ivSize) password salt))"

definition PasswordBased_encrypt ::
    "word32 list \<Rightarrow> (nat \<Rightarrow> word32) \<Rightarrow> (nat \<Rightarrow> word32) \<Rightarrow> CipherAlgo \<Rightarrow> WordArray \<Rightarrow> WordArray \<Rightarrow> CipherCfg \<Rightarrow> CipherParams option" where
  "PasswordBased_encrypt T rndSalt rndPad cipher message password cfg =
     (case OpenSSLKdf_execute T rndSalt password (ca_keySize cipher) (ca_ivSize cipher) None of None \<Rightarrow> None
      | Some (key, iv, salt) \<Rightarrow>
          map_option (\<lambda>cp. cp\<lparr>cp_key := Some key, cp_iv := Some iv, cp_salt := Some salt\<rparr>)
            (Serializable_encrypt rndPad cipher message key (cfg\<lparr>cfg_iv := Some iv\<rparr>)))"

definition PasswordBased_decrypt ::
    "word32 list \<Rightarrow> (nat \<Rightarrow> word32) \<Rightarrow> CipherAlgo \<Rightarrow> Ciphertext \<Rightarrow> WordArray \<Rightarrow> CipherCfg \<Rightarrow> WordArray option" where
  "PasswordBased_decrypt T rndSalt cipher ciphertext password cfg =
     (case Serializable_parse ciphertext (cfg_format cfg) of None \<Rightarrow> None
      | Some cp \<Rightarrow>
         (case OpenSSLKdf_execute T rndSalt password (ca_keySize cipher) (ca_ivSize cipher) (cp_salt cp) of None \<Rightarrow> None
          | Some (key, iv, salt) \<Rightarrow> Serializable_decrypt cipher (Params cp) key (cfg\<lparr>cfg_iv := Some iv\<rparr>)))"

text \<open>The helper of a cipher chooses by the type of its key.\<close>

datatype CipherKey = Password WordArray | Key WordArray

primrec helper_encrypt ::
    "word32 list \<Rightarrow> (nat \<Rightarrow> word32) \<Rightarrow> (nat \<Rightarrow> word32) \<Rightarrow> CipherAlgo \<Rightarrow> WordArray \<Rightarrow> CipherKey \<Rightarrow> CipherCfg \<Rightarrow> CipherParams option" where
  "helper_encrypt T rndSalt rndPad cipher message (Password p) cfg = PasswordBased_encrypt T rndSalt rndPad cipher message p cfg"
| "helper_encrypt T rndSalt rndPad cipher message (Key k) cfg = Serializable_encrypt rndPad cipher message k cfg"

primrec helper_decrypt ::
    "word32 list \<Rightarrow> (nat \<Rightarrow> word32) \<Rightarrow> CipherAlgo \<Rightarrow> Ciphertext \<Rightarrow> CipherKey \<Rightarrow> CipherCfg \<Rightarrow> WordArray option" where
  "helper_decrypt T rndSalt cipher ciphertext (Password p) cfg = PasswordBased_decrypt T rndSalt cipher ciphertext p cfg"
| "helper_decrypt T rndSalt cipher ciphertext (Key k) cfg = Serializable_decrypt cipher ciphertext k cfg"

subsection \<open>The formats\<close>

lemma wget_bytes_eq:
  assumes "wa_bytes v = wa_bytes w" "4 * i + 4 \<le> sigBytes v"
  shows "wget (words v) i = wget (words w) i"
proof (rule bit_word_eqI)
  fix k assume "k < LENGTH(32)"
  then have k: "k < 32" by simp
  define j where "j = 4 * i + (3 - k div 8)"
  define t where "t = 3 - k div 8"
  have t: "t < 4" "24 - t * 8 = 8 * (k div 8)" using k by (simp_all add: t_def diff_mult_distrib)
  then have "(4 * i + t) mod 4 = t" "(4 * i + t) div 4 = i" by simp_all
  then have j: "j < sigBytes v" "j div 4 = i" "24 - (j mod 4) * 8 + k mod 8 = k"
    using t assms(2) by (simp_all add: j_def flip: t_def)
  have "wbyte (words v) j = wbyte (words w) j" using wa_bytes_eqD [OF assms(1)] j(1) by auto
  then have "bit (wbyte (words v) j) (k mod 8) = bit (wbyte (words w) j) (k mod 8)" by simp
  then show "bit (wget (words v) i) k = bit (wget (words w) i) k" unfolding bit_wbyte j by simp
qed

lemma Base64_parse_length: "length (words (Base64_parse s)) = (sigBytes (Base64_parse s) + 3) div 4"
proof -
  define f where "f t = base64_reverse (s ! t)" for t
  define n where "n = length (takeWhile (\<lambda>c. c \<noteq> base64_map ! 64) s)"
  have inv: "length (fst p) = (snd p + 3) div 4 \<Longrightarrow> length (fst (fold (parse_step f) xs p)) = (snd (fold (parse_step f) xs p) + 3) div 4" for xs p
  proof (induction xs arbitrary: p)
    case (Cons i xs)
    have "length (fst (parse_step f i p)) = (snd (parse_step f i p) + 3) div 4"
      using Cons.prems by (auto simp: parse_step_def split_beta or_byte_def max_def)
    then show ?case using Cons.IH [of "parse_step f i p"] by simp
  qed simp
  obtain ws m where r: "fold (parse_step f) [0..<n] ([], 0) = (ws, m)" by fastforce
  have "Base64_parse s = WordArray_init ws (Some m)"
    using r unfolding Base64_parse_def base64_parseLoop_def n_def [symmetric] parse_step_def [abs_def] f_def Let_def by simp
  moreover have "length ws = (m + 3) div 4" using inv [of "([], 0)" "[0..<n]"] unfolding r by simp
  ultimately show ?thesis by (simp add: WordArray_init_def)
qed

lemma OpenSSL_parse_salted:
  assumes "sigBytes salt = 8" "length (words salt) = 2"
  shows "\<exists>cp. OpenSSL_parse (Base64_stringify (wa_concat (wa_concat (WordArray_init [0x53616c74, 0x65645f5f] None) salt) ct)) = Some cp \<and>
    cp_salt cp = Some salt \<and> wa_bytes (cp_ciphertext cp) = wa_bytes ct"
proof -
  let ?h = "WordArray_init [0x53616c74, 0x65645f5f] None"
  define v where "v = Base64_parse (Base64_stringify (wa_concat (wa_concat ?h salt) ct))"
  define us where "us = [0x53616c74, 0x65645f5f] @ words salt"
  obtain x y where xy: "words salt = [x, y]" using assms(2) by (auto simp: length_Suc_conv numeral_2_eq_2)
  have salt: "salt = \<lparr>words = [x, y], sigBytes = 8\<rparr>" using xy assms(1) by (cases salt) simp
  have bytes: "wa_bytes v = wa_bytes \<lparr>words = us, sigBytes = 16\<rparr> @ wa_bytes ct"
    by (simp add: v_def Base64_round_trip us_def salt WordArray_init_def wa_bytes_words word_bytes_def)
  then have sv: "sigBytes v = 16 + sigBytes ct" 
    using arg_cong [OF bytes, of length, unfolded length_append length_wa_bytes] by simp
  have "wa_bytes (v\<lparr>sigBytes := 16\<rparr>) = wa_bytes \<lparr>words = us, sigBytes = 16\<rparr>"
    using wa_bytes_shrink [of 16 v] bytes sv by simp
  then have get: "wget (words v) i = wget us i" if "i < 4" for i
    using wget_bytes_eq [of "v\<lparr>sigBytes := 16\<rparr>" "\<lparr>words = us, sigBytes = 16\<rparr>" i] that by simp
  have len: "4 \<le> length (words v)" using sv by (simp add: v_def Base64_parse_length)
  have sl: "js_slice (words v) 2 4 = [x, y]"
    using get [of 2] get [of 3] len by (intro nth_equalityI) (auto simp: js_slice_def us_def xy wget_def nth_Cons' less_Suc_eq numeral_2_eq_2 numeral_3_eq_3)
  have rest: "wa_bytes \<lparr>words = drop 4 (words v), sigBytes = sigBytes v - 16\<rparr> = drop 16 (wa_bytes v)"
  proof (rule nth_equalityI)
    have "wbyte (drop 4 (words v)) i = wbyte (words v) (16 + i)" for i
    proof -
      have i: "(16 + i) div 4 = 4 + i div 4" "(16 + i) mod 4 = i mod 4" by presburger+
      have g: "wget (drop 4 ws) j = wget ws (4 + j)" for ws j by (auto simp: wget_def)
      show ?thesis unfolding wbyte_def get_byte_def i g ..
    qed
    then show "wa_bytes \<lparr>words = drop 4 (words v), sigBytes = sigBytes v - 16\<rparr> ! i = drop 16 (wa_bytes v) ! i"
      if "i < length (wa_bytes \<lparr>words = drop 4 (words v), sigBytes = sigBytes v - 16\<rparr>)" for i
      using that sv by (simp add: wa_bytes_def)
  qed simp
  moreover have "wget us 0 = 0x53616c74" "wget us 1 = 0x65645f5f" by (simp_all add: us_def wget_def)
  ultimately have "OpenSSL_parse (Base64_stringify (wa_concat (wa_concat ?h salt) ct)) =
      Some (CipherParams_create \<lparr>words = drop 4 (words v), sigBytes = sigBytes v - 16\<rparr> (Some (WordArray_init [x, y] None)))"
    unfolding OpenSSL_parse_def Let_def v_def [symmetric] using get [of 0] get [of 1] sv sl by simp
  moreover have "wa_bytes \<lparr>words = drop 4 (words v), sigBytes = sigBytes v - 16\<rparr> = wa_bytes ct" using rest bytes by simp
  ultimately show ?thesis by (simp add: CipherParams_create_def WordArray_init_def flip: salt)
qed

lemma OpenSSL_parse_plain:
  assumes "\<not> (take 8 (wa_bytes ct) = [0x53, 0x61, 0x6c, 0x74, 0x65, 0x64, 0x5f, 0x5f])" "4 dvd sigBytes ct"
  shows "\<exists>cp. OpenSSL_parse (Base64_stringify ct) = Some cp \<and> cp_salt cp = None \<and> wa_bytes (cp_ciphertext cp) = wa_bytes ct"
proof -
  define v where "v = Base64_parse (Base64_stringify ct)"
  have bytes: "wa_bytes v = wa_bytes ct" by (simp add: v_def Base64_round_trip)
  have "\<not> (wget (words v) 0 = 0x53616c74 \<and> wget (words v) 1 = 0x65645f5f)"
  proof
    assume w: "wget (words v) 0 = 0x53616c74 \<and> wget (words v) 1 = 0x65645f5f"
    have sv: "length (words v) = (sigBytes v + 3) div 4" by (simp add: v_def Base64_parse_length)
    have "(0x65645f5f :: word32) \<noteq> 0" by simp
    then have "1 < length (words v)" using w by (metis wget_def)
    then have "8 \<le> sigBytes v" using sv assms(2) wa_bytes_eqD(1) [OF bytes] by (auto simp: dvd_def)
    moreover have "wbyte (words v) i = [0x53, 0x61, 0x6c, 0x74, 0x65, 0x64, 0x5f, 0x5f] ! i" if "i < 8" for i
    proof -
      have "i = 0 \<or> i = 1 \<or> i = 2 \<or> i = 3 \<or> i = 4 \<or> i = 5 \<or> i = 6 \<or> i = 7" using that by auto
      then show ?thesis using w by (elim disjE) (simp_all add: wbyte_def get_byte_def shr_def)
    qed
    ultimately have "take 8 (wa_bytes v) = [0x53, 0x61, 0x6c, 0x74, 0x65, 0x64, 0x5f, 0x5f]"
      by (intro nth_equalityI) (simp_all add: nth_wa_bytes)
    then show False using assms(1) bytes by simp
  qed
  then have "OpenSSL_parse (Base64_stringify ct) = Some (CipherParams_create v None)"
    by (simp only: OpenSSL_parse_def Let_def flip: v_def) simp
  then show ?thesis using bytes by (simp add: CipherParams_create_def)
qed

subsection \<open>A ciphertext that went through a string\<close>

lemma block_decrypt_cong:
  assumes "wa_bytes v = wa_bytes w" "4 dvd sigBytes w"
  shows "block_decrypt c mode pd iv v = block_decrypt c mode pd iv w"
proof -
  have "4 dvd sigBytes v" using assms wa_bytes_eqD(1) [OF assms(1)] by simp
  then have "bba_append v a = bba_append w a" for a :: "BlockCipherMode option BufferedBlockAlgorithm"
    using assms wa_bytes_eqD(1) [OF assms(1)] by (simp add: bba_append_def wa_concat_of_bytes wa_tidy_dvd)
  then show ?thesis by (simp add: block_decrypt_def cipher_finalize_def)
qed

lemma block_encrypt_dvd:
  assumes "0 < bc_blockSize c" "bc_blockSize c < 64" "paddable CBC pd (bc_blockSize c) (wa_bytes m)"
    and "block_encrypt rnd c mode pd iv m = Some ct"
  shows "4 dvd sigBytes ct"
proof -
  define d where "d = wa_concat (WordArray_init [] None) m"
  have "wa_bytes d = wa_bytes m" unfolding d_def by simp (simp add: WordArray_init_def wa_bytes_def)
  then have "4 * bc_blockSize c dvd sigBytes (pad_of rnd pd d (bc_blockSize c))"
    using padding.fills [OF padding_of assms(1,2), of pd d rnd] assms(3) by (simp add: mult.commute)
  then have "4 dvd sigBytes (pad_of rnd pd d (bc_blockSize c))" by (rule dvd_mult_left)
  then have size: "4 dvd sigBytes (fst (bba_process (bc_blockSize c) 0 step True a))" if "alg_data a = pad_of rnd pd d (bc_blockSize c)"
    for step and a :: "BlockCipherMode option BufferedBlockAlgorithm"
    using that by (simp add: bba_process_def Let_def split_beta WordArray_init_def min_def)
  show ?thesis
    using assms(4) by (auto intro: size simp: block_encrypt_def Let_def split_beta cipher_finalize_def block_encrypt_doFinalize_def bba_append_def
        bba_reset_def d_def split: if_splits)
qed

lemma block_string_round_trip:
  assumes "block_cipher c E D" "bc_blockSize c < 64" "mode = ECB \<or> iv \<noteq> None"
    and "paddable CBC pd (bc_blockSize c) (wa_bytes m)"
  obtains ct where "block_encrypt rnd c mode pd iv m = Some ct"
    "\<And>v. wa_bytes v = wa_bytes ct \<Longrightarrow> \<exists>pt. block_decrypt c mode pd iv v = Some pt \<and> wa_bytes pt = wa_bytes m"
proof -
  have "paddable mode pd (bc_blockSize c) (wa_bytes m)" using assms(4) by (cases pd) auto
  from block_cipher.block_round_trip [OF assms(1,2,3) this, of rnd] obtain ct pt where
    r: "block_encrypt rnd c mode pd iv m = Some ct" "block_decrypt c mode pd iv ct = Some pt" "wa_bytes pt = wa_bytes m" by blast
  have "4 dvd sigBytes ct" using block_encrypt_dvd [OF block_cipher.size [OF assms(1)] assms(2,4) r(1)] .
  then show ?thesis using that [OF r(1)] block_decrypt_cong r(2,3) by metis
qed

text \<open>What a password encrypted into a string comes back from it.\<close>

lemma password_round_trip:
  assumes "\<And>key. block_cipher (ca_create cipher key) (E key) (D key)" "\<And>key. bc_blockSize (ca_create cipher key) = n" "n < 64"
    and "cfg_format cfg = OpenSSLFormatter" "paddable CBC (cfg_padding cfg) n (wa_bytes m)"
    and "wa_tidy password" "sigBytes password + 24 < 2 ^ 28"
  shows "\<exists>cp s pt. PasswordBased_encrypt T rndSalt rndPad cipher m password cfg = Some cp \<and>
    CipherParams_toString None cp = Some s \<and>
    PasswordBased_decrypt T rndSalt' cipher (Text s) password cfg = Some pt \<and> wa_bytes pt = wa_bytes m"
proof -
  define salt where "salt = WordArray_random rndSalt 8"
  have steps: "js_steps 8 4 = [0, 4]" by (simp add: js_steps_def upt_rec)
  have salt: "sigBytes salt = 8" "length (words salt) = 2" "wa_tidy salt"
    by (simp_all add: salt_def WordArray_random_def WordArray_init_def steps wa_tidy_dvd)
  let ?k = "ca_keySize cipher" and ?i = "ca_ivSize cipher"
  obtain dk where dk: "evpkdf_compute (md5_hasher T) (?k + ?i) 1 (?k + ?i) password salt = Some dk"
    using md5_object.evpkdf [OF assms(6) salt(3), of "?k + ?i" "?k + ?i" T 1] assms(7) salt(1) by auto
  define key where "key = dk\<lparr>sigBytes := ?k * 4\<rparr>"
  define iv where "iv = WordArray_init (drop ?k (words dk)) (Some (?i * 4))"
  have kdf: "OpenSSLKdf_execute T r password ?k ?i s = Some (key, iv, salt)" if "s = Some salt \<or> s = None \<and> r = rndSalt" for r s
    using that dk by (auto simp: OpenSSLKdf_execute_def Let_def key_def iv_def simp flip: salt_def)
  obtain ct where ct: "block_encrypt rndPad (ca_create cipher key) (cfg_mode cfg) (cfg_padding cfg) (Some iv) m = Some ct"
    "\<And>v. wa_bytes v = wa_bytes ct \<Longrightarrow>
      \<exists>pt. block_decrypt (ca_create cipher key) (cfg_mode cfg) (cfg_padding cfg) (Some iv) v = Some pt \<and> wa_bytes pt = wa_bytes m"
    using block_string_round_trip [OF assms(1), of key "cfg_mode cfg" "Some iv" "cfg_padding cfg" m rndPad] assms(2,3,5) by auto
  obtain cp' where cp': "OpenSSL_parse (Base64_stringify (wa_concat (wa_concat (WordArray_init [0x53616c74, 0x65645f5f] None) salt) ct)) = Some cp'"
    "cp_salt cp' = Some salt" "wa_bytes (cp_ciphertext cp') = wa_bytes ct" using OpenSSL_parse_salted [OF salt(1,2)] by blast
  obtain pt where pt: "block_decrypt (ca_create cipher key) (cfg_mode cfg) (cfg_padding cfg) (Some iv) (cp_ciphertext cp') = Some pt"
    "wa_bytes pt = wa_bytes m" using ct(2) [OF cp'(3)] by blast
  show ?thesis
    using kdf [of None rndSalt] kdf [of "Some salt" rndSalt'] ct(1) cp' pt assms(4)
    by (simp add: PasswordBased_encrypt_def PasswordBased_decrypt_def Serializable_encrypt_def Serializable_decrypt_def
        CipherParams_toString_def OpenSSL_stringify_def)
qed

end
