(* ===== verification/Crypto_Results.thy ===== *)
theory Crypto_Results
  imports Aes_Correct Des_Correct Rabbit Cipher_Formats
begin

text \<open>
  What the CryptoJS modules of \<^verbatim>\<open>src/internal/jsre/deps/web3.js\<close> compute together: the digests against their standards, and
  the ciphers under every mode, padding and format. The lemmas come from the interpretations of the hash and cipher
  interfaces.
\<close>

subsection \<open>The ciphers as the helpers take them\<close>

definition AES_algo :: CipherAlgo where
  "AES_algo = \<lparr>ca_create = AES, ca_keySize = 256 div 32, ca_ivSize = 128 div 32\<rparr>"

definition DES_algo :: CipherAlgo where
  "DES_algo = \<lparr>ca_create = DES, ca_keySize = 64 div 32, ca_ivSize = 64 div 32\<rparr>"

definition TripleDES_algo :: CipherAlgo where
  "TripleDES_algo = \<lparr>ca_create = TripleDES, ca_keySize = 192 div 32, ca_ivSize = 64 div 32\<rparr>"

lemma algo_sizes [simp]:
  "bc_blockSize (AES key) = 4" "bc_blockSize (DES key) = 2" "bc_blockSize (TripleDES key) = 2"
  by (simp_all add: AES_def DES_def TripleDES_def Let_def)

text \<open>
  C3: A text encrypted under a password with AES, DES or Triple-DES, in any mode, and written in the OpenSSL format comes
  back when the string is decrypted under the same password, whatever salt and random padding were drawn: the derivation of
  key and IV returns, the string carries the salt, and the padding is removed.
\<close>

theorem password_string_round_trip:
  assumes "cipher \<in> {AES_algo, DES_algo, TripleDES_algo}" "n = bc_blockSize (ca_create cipher someKey)"
    and "cfg_format cfg = OpenSSLFormatter" "paddable CBC (cfg_padding cfg) n (wa_bytes message)"
    and "wa_tidy password" "sigBytes password + 24 < 2 ^ 28"
  shows "\<exists>cp s pt. helper_encrypt T rndSalt rndPad cipher message (Password password) cfg = Some cp \<and>
    CipherParams_toString None cp = Some s \<and>
    helper_decrypt T rndSalt' cipher (Text s) (Password password) cfg = Some pt \<and> wa_bytes pt = wa_bytes message"
proof -
  from assms(1) consider "cipher = AES_algo" | "cipher = DES_algo" | "cipher = TripleDES_algo" by blast
  then show ?thesis
  proof cases
    case 1
    then show ?thesis
      using password_round_trip [of cipher aes_E aes_D 4] aes.block_cipher_axioms assms(2-) by (simp add: AES_algo_def)
  next
    case 2
    then show ?thesis
      using password_round_trip [of cipher "\<lambda>key. des_E (des_subKeys (words key))" "\<lambda>key. des_E (rev (des_subKeys (words key)))" 2] des.block_cipher_axioms assms(2-) by (simp add: DES_algo_def)
  next
    case 3
    then show ?thesis
      using password_round_trip [of cipher tdes_E tdes_D 2] tripleDes.block_cipher_axioms assms(2-) by (simp add: TripleDES_algo_def)
  qed
qed

theorem password_string_round_trip_witness:
  "\<exists>cp s pt. helper_encrypt [] (\<lambda>_. 7) (\<lambda>_. 9) AES_algo (WordArray_init [0x61626364] None) (Password (WordArray_init [0x73656372] None))
      \<lparr>cfg_iv = None, cfg_mode = CBC, cfg_padding = Pkcs7, cfg_format = OpenSSLFormatter\<rparr> = Some cp \<and>
    CipherParams_toString None cp = Some s \<and>
    helper_decrypt [] (\<lambda>_. 8) AES_algo (Text s) (Password (WordArray_init [0x73656372] None))
      \<lparr>cfg_iv = None, cfg_mode = CBC, cfg_padding = Pkcs7, cfg_format = OpenSSLFormatter\<rparr> = Some pt \<and>
    wa_bytes pt = wa_bytes (WordArray_init [0x61626364] None)"
  by (rule password_string_round_trip [where someKey = "WordArray_init [] None"])
    (simp_all add: WordArray_init_def wa_tidy_dvd)

text \<open>
  C5: Under one key AES, DES and Triple-DES decrypt what they encrypted, in every mode and with every padding that can be
  removed from the message; a mode that only adds a key stream needs no padding.
\<close>

theorem block_ciphers_round_trip:
  assumes "c \<in> {AES key, DES key, TripleDES key}" "0 < sigBytes key" "4 dvd sigBytes key"
    and "mode = ECB \<or> iv \<noteq> None" "paddable mode pd (bc_blockSize c) (wa_bytes message)"
  shows "\<exists>ct pt. block_encrypt rnd c mode pd iv message = Some ct \<and> block_decrypt c mode pd iv ct = Some pt \<and>
    wa_bytes pt = wa_bytes message"
  using assms(1,4,5) aes.block_round_trip [of key mode iv pd message rnd] des.block_round_trip [of key mode iv pd message rnd]
    tripleDes.block_round_trip [of key mode iv pd message rnd] by auto

theorem block_ciphers_round_trip_witness:
  "\<exists>ct pt. block_encrypt (\<lambda>_. 0) (TripleDES (WordArray_init [1, 2, 3, 4, 5, 6] None)) CFB NoPadding (Some (WordArray_init [7, 8] None))
      (WordArray_init [0x61620000] (Some 2)) = Some ct \<and>
    block_decrypt (TripleDES (WordArray_init [1, 2, 3, 4, 5, 6] None)) CFB NoPadding (Some (WordArray_init [7, 8] None)) ct = Some pt \<and>
    wa_bytes pt = wa_bytes (WordArray_init [0x61620000] (Some 2))"
  by (rule block_ciphers_round_trip [where key = "WordArray_init [1, 2, 3, 4, 5, 6] None"]) (simp_all add: WordArray_init_def)

text \<open>
  C16: The stream ciphers take their key stream away again: a second run from the same state gives the bytes back, at any
  length and from any state.
\<close>

theorem stream_ciphers_round_trip:
  "wa_bytes (stream_crypt 1 rc4_doProcessBlock st (stream_crypt 1 rc4_doProcessBlock st m)) = wa_bytes m \<and>
   wa_bytes (stream_crypt 4 rabbit_doProcessBlock r (stream_crypt 4 rabbit_doProcessBlock r m)) = wa_bytes m \<and>
   wa_bytes (stream_crypt 4 legacy_doProcessBlock r (stream_crypt 4 legacy_doProcessBlock r m)) = wa_bytes m"
  by (intro conjI rc4.stream_round_trip rabbit.stream_round_trip rabbitLegacy.stream_round_trip)

text \<open>The carry of the counters alone tells the two states of a key apart.\<close>

lemma four_counters:
  assumes "legacy_counters c0 0 = (c1, b1)" "legacy_counters c1 b1 = (c2, b2)" "legacy_counters c2 b2 = (c3, b3)"
    "legacy_counters c3 b3 = (c4, b4)" "r_C (legacy_keySetup (words key)) = c0"
  shows "r_b (legacy_doReset key None) = b4"
proof -
  have n: "r_b (legacy_nextState st) = snd (legacy_counters (r_C st) (r_b st))"
    "r_C (legacy_nextState st) = fst (legacy_counters (r_C st) (r_b st))" for st
    by (simp_all add: legacy_nextState_def split_beta Let_def)
  have "r_b (legacy_keySetup (words key)) = 0" by (simp add: legacy_keySetup_def)
  moreover have "(legacy_nextState ^^ 4) st = legacy_nextState (legacy_nextState (legacy_nextState (legacy_nextState st)))" for st
    by (simp add: eval_nat_numeral)
  ultimately show ?thesis by (simp add: legacy_doReset_def Let_def n assms)
qed

lemma key_135:
  "r_b (legacy_doReset (WordArray_init [0, 0, 0, 135] None) None) = 1"
  by (rule four_counters [of
    "[0, 0, 0x870000, 0, 0, 0x87, 0, 0]" "[0x4d34d34d, 0xd34d34d3, 0x355a4d34, 0x4d34d34d, 0xd34d34d3, 0x34d34dbb, 0x4d34d34d, 0xd34d34d3]" 0 "[0x9a69a69a, 0xa69a69a6, 0x6a2d9a69, 0x9a69a69a, 0xa69a69a6, 0x69a69af0, 0x9a69a69a, 0xa69a69a6]" 1
    "[0xe79e79e8, 0x79e79e79, 0x9f00e79e, 0xe79e79e7, 0x79e79e79, 0x9e79e825, 0xe79e79e7, 0x79e79e79]" 1 "[0x34d34d36, 0x4d34d34d, 0xd3d434d3, 0x34d34d34, 0x4d34d34d, 0xd34d355a, 0x34d34d34, 0x4d34d34d]" 1])
    (simp_all add: legacy_counters_def legacy_keySetup_def WordArray_init_def wget_def shl_def shr_def)

lemma key_135_turned:
  "r_b (legacy_doReset (WordArray_init [0, 0, 0, 0x87000000] None) None) = 0"
  by (rule four_counters [of
    "[0, 0, 0x8700, 0, 0, 0, 0, 0x87000000]" "[0x4d34d34d, 0xd34d34d3, 0x34d3d434, 0x4d34d34d, 0xd34d34d3, 0x34d34d34, 0x4d34d34d, 0x5a4d34d3]" 1 "[0x9a69a69b, 0xa69a69a6, 0x69a72169, 0x9a69a69a, 0xa69a69a6, 0x69a69a69, 0x9a69a69a, 0x2d9a69a6]" 1
    "[0xe79e79e9, 0x79e79e79, 0x9e7a6e9e, 0xe79e79e7, 0x79e79e79, 0x9e79e79e, 0xe79e79e7, 0xe79e79]" 1 "[0x34d34d37, 0x4d34d34d, 0xd34dbbd3, 0x34d34d34, 0x4d34d34d, 0xd34d34d3, 0x34d34d34, 0xd434d34d]" 0])
    (simp_all add: legacy_counters_def legacy_keySetup_def WordArray_init_def wget_def shl_def shr_def)

text \<open>
  C24: \<^verbatim>\<open>Rabbit._doReset\<close> turns the bytes of the caller's key around in place. So the next cipher that is created with the same
  key object starts from the state of RabbitLegacy, not from the one that encrypted.
\<close>

theorem rabbit_turns_callers_key:
  assumes "4 \<le> length (words key)"
  shows "fst (rabbit_doReset (snd (rabbit_doReset key iv)) iv) = legacy_doReset key iv"
  using assms by (simp add: rabbit_doReset_legacy Let_def rabbit_swapKey_twice)

theorem rabbit_turns_callers_key_witness:
  "fst (rabbit_doReset (snd (rabbit_doReset (WordArray_init [0, 0, 0, 135] None) None)) None) =
     legacy_doReset (WordArray_init [0, 0, 0, 135] None) None \<and>
   legacy_doReset (WordArray_init [0, 0, 0, 135] None) None \<noteq> fst (rabbit_doReset (WordArray_init [0, 0, 0, 135] None) None)"
proof
  let ?k = "WordArray_init [0, 0, 0, 135] None"
  show "fst (rabbit_doReset (snd (rabbit_doReset ?k None)) None) = legacy_doReset ?k None"
    by (rule rabbit_turns_callers_key) (simp add: WordArray_init_def)
  have "rabbit_swapKey [0, 0, 0, 135] = [0, 0, 0, 0x87000000]"
    by (simp add: rabbit_swapKey_def upt_rec wset_def wget_def shl_def shr_def)
  then have "fst (rabbit_doReset ?k None) = legacy_doReset (WordArray_init [0, 0, 0, 0x87000000] None) None"
    by (simp add: rabbit_doReset_legacy Let_def WordArray_init_def)
  then show "legacy_doReset ?k None \<noteq> fst (rabbit_doReset ?k None)" using key_135 key_135_turned by (metis zero_neq_one)
qed

text \<open>
  C25: The g-value of a Rabbit step is the upper half of the 64-bit square of the 32-bit sum, exclusive-or its lower half:
  the split into 16-bit parts loses no carry.
\<close>

theorem rabbit_g_halves_of_square:
  "rabbit_g (Some x) c = (let q = (unat (x + c))\<^sup>2 in of_nat (q div 2 ^ 32) XOR of_nat q)"
  unfolding rabbit_g_legacy by (rule legacy_g_square)

text \<open>
  C26: In every state of RC4 and of RC4Drop the table is a permutation of the numbers below 256 and both counters are below
  256, so that every index into the table is in range.
\<close>

theorem rc4_state_well_formed:
  "rc4_perm (((\<lambda>st. fst (generateKeystreamWord st)) ^^ k) (rc4_doReset key)) \<and>
   rc4_perm (((\<lambda>st. fst (generateKeystreamWord st)) ^^ k) (rc4Drop_doReset d key))"
  by (induction k) (simp_all add: rc4_doReset_perm rc4Drop_doReset_perm generateKeystreamWord_perm)

subsection \<open>Digests\<close>

text \<open>
  C9: SHA3 in any of its output lengths, fed in pieces, is the Keccak sponge over 64-bit lanes with the padding of the original
  submission, although the code computes with pairs of 32-bit halves and in place.
\<close>

theorem sha3_is_keccak:
  assumes "outputLength \<in> {224, 256, 384, 512}" "list_all wa_tidy ms" "wa_tidy m"
    and "B = concat (map wa_bytes ms) @ wa_bytes m" "length B < 2 ^ 28"
  shows "wa_bytes (fst (hash_finalize (sha3_hasher outputLength) (Some m)
      (fold (hash_update (sha3_hasher outputLength)) ms (hash_init (sha3_hasher outputLength))))) =
    keccak_digest (sha3_blockSize outputLength) (outputLength div 8) B"
proof -
  from assms(1) consider "outputLength = 224" | "outputLength = 256" | "outputLength = 384" | "outputLength = 512" by blast
  then show ?thesis
    using sha3_224_object.run [OF assms(2-5)] sha3_256_object.run [OF assms(2-5)] sha3_384_object.run [OF assms(2-5)]
      sha3_512_object.run [OF assms(2-5)] by cases (simp_all add: sha3_blockSize_def)
qed

theorem sha3_is_keccak_witness:
  "wa_bytes (fst (hash_finalize (sha3_hasher 256) (Some (WordArray_init [0x61626300] (Some 3)))
      (fold (hash_update (sha3_hasher 256)) [WordArray_init [1] None] (hash_init (sha3_hasher 256))))) =
    keccak_digest (sha3_blockSize 256) (256 div 8) [0, 0, 0, 1, 0x61, 0x62, 0x63]"
  by (rule sha3_is_keccak) (simp_all add: WordArray_init_def wa_tidy_def wa_bytes_def wbyte_def get_byte_def wget_def shr_def upt_rec)

definition fips512_H :: "word64 list" where
  "fips512_H = map (\<lambda>p. of_nat (floor_root 2 (p * 2 ^ 128) 67)) (take 8 sha2_primes)"

definition be_bytes64 :: "word64 \<Rightarrow> bytes" where
  "be_bytes64 x = map (\<lambda>i. ucast (drop_bit (56 - 8 * i) x)) [0..<8]"

lemma square_roots_512:
  "floor_root 2 (2 * 2 ^ 128) 67 = 0x16a09e667f3bcc908"
  "floor_root 2 (3 * 2 ^ 128) 67 = 0x1bb67ae8584caa73b"
  "floor_root 2 (5 * 2 ^ 128) 67 = 0x23c6ef372fe94f82b"
  "floor_root 2 (7 * 2 ^ 128) 67 = 0x2a54ff53a5f1d36f1"
  "floor_root 2 (11 * 2 ^ 128) 67 = 0x3510e527fade682d1"
  "floor_root 2 (13 * 2 ^ 128) 67 = 0x39b05688c2b3e6c1f"
  "floor_root 2 (17 * 2 ^ 128) 67 = 0x41f83d9abfb41bd6b"
  "floor_root 2 (19 * 2 ^ 128) 67 = 0x45be0cd19137e2179"
  by (rule floor_root_unique; simp)+

lemma sha512_doReset_64: "map to64 sha512_doReset = fips512_H"
  by (simp add: fips512_H_def sha2_primes_def square_roots_512 [simplified] sha512_doReset_def to64_def)

lemma be_bytes64_to64: "be_bytes64 (to64 x) = word_bytes (high x) @ word_bytes (low x)"
proof -
  have "(ucast (drop_bit (56 - 8 * i) (to64 x)) :: byte) = (if i < 4 then word_bytes (high x) ! i else word_bytes (low x) ! (i - 4))" if "i < 8" for i
  proof (cases "i < 4")
    case True
    then show ?thesis
      by (intro bit_word_eqI) (cases x, auto simp: word_bytes_def bit_ucast_iff bit_drop_bit_eq bit_to64)
  next
    case False
    then obtain j where "i = 4 + j" using le_Suc_ex by (metis not_less)
    then show ?thesis
      using that by (intro bit_word_eqI) (cases x, auto simp: word_bytes_def bit_ucast_iff bit_drop_bit_eq bit_to64)
  qed
  then show ?thesis by (intro nth_equalityI) (auto simp: be_bytes64_def nth_append)
qed

lemma wa_bytes_x64:
  "wa_bytes (WordArray_init (x64_toX32 ws) (Some (length ws * 8))) = concat (map be_bytes64 (map to64 ws))"
proof -
  have "concat (map word_bytes (x64_toX32 ws)) = concat (map be_bytes64 (map to64 ws))"
    by (induction ws) (simp_all add: x64_toX32_def be_bytes64_to64)
  moreover have "length (concat (map be_bytes64 (map to64 ws))) = length ws * 8"
    by (induction ws) (simp_all add: be_bytes64_def)
  ultimately show ?thesis by (simp add: WordArray_init_def wa_bytes_words)
qed

text \<open>
  C10: SHA-512, fed in pieces, is the function of FIPS 180-4 on 64-bit words, with the constants as the fractional bits of the
  square and cube roots of the primes, although the code adds 32-bit halves with explicit carries.
\<close>

theorem sha512_is_fips:
  assumes "list_all wa_tidy ms" "wa_tidy m" "B = concat (map wa_bytes ms) @ wa_bytes m" "length B < 2 ^ 28"
  shows "wa_bytes (fst (hash_finalize sha512_hasher (Some m) (fold (hash_update sha512_hasher) ms (hash_init sha512_hasher)))) =
    concat (map be_bytes64 (md_hash 32 16 be64 fips512_absorb fips512_H B))"
proof -
  have "length sha512_doReset = 8" by (simp add: sha512_doReset_def)
  note h = sha512_md_hash_64 [OF this, of B, unfolded sha512_doReset_64]
  show ?thesis
    using sha512_object.run [OF assms] unfolding wa_bytes_x64 by (simp only: h)
qed

theorem sha512_is_fips_witness:
  "wa_bytes (fst (hash_finalize sha512_hasher (Some (WordArray_init [0x61626300] (Some 3)))
      (fold (hash_update sha512_hasher) [WordArray_init [1] None] (hash_init sha512_hasher)))) =
    concat (map be_bytes64 (md_hash 32 16 be64 fips512_absorb fips512_H [0, 0, 0, 1, 0x61, 0x62, 0x63]))"
  by (rule sha512_is_fips) (simp_all add: WordArray_init_def wa_tidy_def wa_bytes_def wbyte_def get_byte_def wget_def shr_def upt_rec)

text \<open>
  C15: \<^verbatim>\<open>HmacSHA256\<close>, keyed and fed in pieces, is the function of RFC 2104 over SHA-256, for a key of any length.
\<close>

theorem hmac_sha256_is_rfc2104:
  assumes "wa_tidy key" "sigBytes key < 2 ^ 28" "list_all wa_tidy ms" "wa_tidy m"
    and "M = concat (map wa_bytes ms) @ wa_bytes m" "64 + length M < 2 ^ 28"
  defines "hc \<equiv> sha256_hasher (map word_of_int fips_H256) (map word_of_int fips_K256)"
    and "H \<equiv> \<lambda>B. wa_bytes (WordArray_init (md_hash 16 8 be64 (sha256_absorb (map word_of_int fips_K256))
      (sha256_doReset (map word_of_int fips_H256)) B) None)"
  shows "wa_bytes (fst (hmac_finalize hc (Some m) (fold (hmac_update hc) ms (hmac_init hc key)))) =
    hmac_rfc H 64 (wa_bytes key) M"
  using sha256_object.hmac_stream [OF assms(1-5), of "map word_of_int fips_K256"] assms(6)
  by (simp add: hc_def H_def sha256_hasher_def)

theorem hmac_sha256_is_rfc2104_witness:
  "wa_bytes (fst (hmac_finalize (sha256_hasher (map word_of_int fips_H256) (map word_of_int fips_K256)) (Some (WordArray_init [2] None))
      (fold (hmac_update (sha256_hasher (map word_of_int fips_H256) (map word_of_int fips_K256))) []
        (hmac_init (sha256_hasher (map word_of_int fips_H256) (map word_of_int fips_K256)) (WordArray_init [1] None))))) =
    hmac_rfc (\<lambda>B. wa_bytes (WordArray_init (md_hash 16 8 be64 (sha256_absorb (map word_of_int fips_K256))
      (sha256_doReset (map word_of_int fips_H256)) B) None)) 64 (wa_bytes (WordArray_init [1] None)) (wa_bytes (WordArray_init [2] None))"
  by (rule hmac_sha256_is_rfc2104) (simp_all add: WordArray_init_def wa_tidy_dvd)

text \<open>
  C14: The loop of PBKDF2 over HMAC-SHA1 returns after as many turns as there are words to derive, and the key it returns is
  the one of RFC 2898.
\<close>

theorem pbkdf2_returns_rfc2898:
  assumes "wa_tidy password" "sigBytes password < 2 ^ 28" "wa_tidy salt" "sigBytes salt + 68 < 2 ^ 28" "keySize \<le> fuel"
  defines "H \<equiv> \<lambda>B. wa_bytes (WordArray_init (md_hash 16 8 be64 sha1_absorb sha1_doReset B) None)"
  shows "\<exists>key. pbkdf2_compute sha1_hasher keySize iterations fuel password salt = Some key \<and>
    wa_bytes key = take (keySize * 4) (rfc2898_bytes (hmac_rfc H 64 (wa_bytes password)) iterations (wa_bytes salt) keySize)"
  using sha1_object.pbkdf2 [OF assms(1,2,3) _ assms(5), of iterations] assms(4) by (simp add: H_def sha1_hasher_def)

theorem pbkdf2_returns_rfc2898_witness:
  "\<exists>key. pbkdf2_compute sha1_hasher 4 1000 4 (WordArray_init [1] None) (WordArray_init [2, 3] None) = Some key \<and>
    wa_bytes key = take (4 * 4) (rfc2898_bytes
      (hmac_rfc (\<lambda>B. wa_bytes (WordArray_init (md_hash 16 8 be64 sha1_absorb sha1_doReset B) None)) 64 (wa_bytes (WordArray_init [1] None)))
      1000 (wa_bytes (WordArray_init [2, 3] None)) 4)"
  by (rule pbkdf2_returns_rfc2898) (simp_all add: WordArray_init_def wa_tidy_dvd)

subsection \<open>Paddings and encodings\<close>

text \<open>
  C35: Removing the zero padding, or the padding of ISO 9797-1, from data that has only zeros never ends: the loop that looks
  for the last byte to keep runs below index 0 and on.
\<close>

theorem zero_unpad_never_ends:
  assumes "\<forall>w \<in> set (words data). w = 0"
  shows "zero_unpad data = None \<and> iso97971_unpad data = None"
  using zero_scan_zeros [OF assms] by (simp add: zero_unpad_def iso97971_unpad_def)

theorem zero_unpad_never_ends_witness:
  "zero_unpad (WordArray_init [0, 0, 0, 0] None) = None \<and> iso97971_unpad (WordArray_init [0, 0, 0, 0] None) = None"
  by (rule zero_unpad_never_ends) (simp add: WordArray_init_def)

text \<open>
  C19: The text encodings give back the bytes of every word array: Hex, Base64 and Latin1 for any number of bytes, UTF-16 in both
  byte orders for an even one.
\<close>

theorem encodings_round_trip:
  "(\<exists>v. Hex_parse (Hex_stringify w) = Some v \<and> wa_bytes v = wa_bytes w) \<and>
   wa_bytes (Base64_parse (Base64_stringify w)) = wa_bytes w \<and>
   wa_bytes (Latin1_parse (Latin1_stringify w)) = wa_bytes w \<and>
   (even (sigBytes w) \<longrightarrow> wa_bytes (Utf16_parse (Utf16_stringify w)) = wa_bytes w \<and>
      wa_bytes (Utf16LE_parse (Utf16LE_stringify w)) = wa_bytes w)"
  using Hex_round_trip Base64_round_trip latin1.parse_stringify [of w] utf16.parse_stringify [of w] utf16le.parse_stringify [of w] by auto

theorem encodings_round_trip_witness:
  "wa_bytes (Utf16LE_parse (Utf16LE_stringify (WordArray_init [0x00610062] None))) = [0, 0x61, 0, 0x62]"
  using encodings_round_trip [of "WordArray_init [0x00610062] None"]
  by (simp add: WordArray_init_def wa_bytes_def wbyte_def get_byte_def wget_def shr_def upt_rec)

subsection \<open>The tables of AES\<close>


end
