(* ===== verification/Spec2Isabelle.thy ===== *)
theory Spec2Isabelle
  imports Demo_Network Crypto_Results
begin

text \<open>
  A verification library for two parts of the Monereum node: the Istanbul consensus core written in Go, and the
  cryptography of the JavaScript console, the CryptoJS modules bundled in \<^verbatim>\<open>src/internal/jsre/deps/web3.js\<close>. This theory holds
  the properties of a whole consensus node; the others hold the components, each with its model, its lemmas and its own
  properties. Properties are numbered C1, C2, ... in the text in front of them.

  \<^bold>\<open>The consensus node.\<close> A node runs an event loop (\<^verbatim>\<open>core/handler.go\<close>) over network payloads, requests, timeouts and its own
  events. It collects PREPARE and COMMIT votes for a proposal per round, locks on a proposal that has a quorum, hands a
  block with a COMMIT quorum to its backend, and changes the round on a timeout.
  \<^item> \<open>Prelude\<close>: widths of the Go types, association lists, counting lemmas. \<open>Address\<close>: \<^verbatim>\<open>src/common/types.go\<close>, the text form of
    addresses that orders validators.
  \<^item> \<open>Validator_Set\<close>, \<open>Quorum\<close>: \<^verbatim>\<open>src/consensus/istanbul/validator/default.go\<close>; \<^verbatim>\<open>defaultSet\<close> with the round robin and sticky
    proposer policies, and the locale of quorum intersection with its interpretation.
  \<^item> \<open>Prque\<close>: the vendored priority queue (container/heap); the locale \<open>prio_queue\<close> is interpreted on it.
  \<^item> \<open>Istanbul_Types\<close>, \<open>Round_State\<close>, \<open>Backlog\<close>: messages and their decoding, the message sets and round state, the state
    record \<open>core\<close> and the backlog of early messages. RLP coding and signatures are fields of the record \<open>Backend\<close>.
  \<^item> \<open>Core\<close>, \<open>Handlers\<close>: every function of \<^verbatim>\<open>core.go\<close>, \<^verbatim>\<open>preprepare.go\<close>, \<^verbatim>\<open>prepare.go\<close>, \<^verbatim>\<open>commit.go\<close>, \<^verbatim>\<open>roundchange.go\<close>, \<^verbatim>\<open>request.go\<close>,
    \<^verbatim>\<open>handler.go\<close>, \<^verbatim>\<open>final_committed.go\<close> under its Go name, as a function on \<open>core\<close>; an outer \<open>None\<close> is a nil dereference, errors
    are values, and messages sent, timers armed and blocks handed over are collected in the field \<open>effects\<close>.
  \<^item> \<open>Core_Frame\<close>, \<open>Core_Invariant\<close>, \<open>Core_Safety\<close>: what the building blocks leave alone, the invariant, and that every handler
    keeps it and does not panic. \<open>Node\<close>: the reachable states, an inductive relation over deliveries in any order with any
    answers of the backend. \<open>Demo_Network\<close>: a concrete backend and run for the witnesses.

  The properties below say that a block is handed over only with a quorum (C1), that two nodes agree within a view (C2),
  that no event makes a node panic, that views only grow, and that locks hold; further ones follow the components.

  \<^bold>\<open>The cryptography.\<close> \<open>Js_Word\<close> has what the code uses of JavaScript: 32-bit operations, reads and writes outside an array,
  strings as code units.
  \<^item> \<open>Word_Array\<close>, \<open>Encodings\<close>, \<open>Base64\<close>: \<^verbatim>\<open>WordArray\<close> and its text encodings; the locale \<open>text_encoder\<close> states that parsing undoes
    writing, for each of them.
  \<^item> \<open>Hasher\<close>, \<open>Merkle_Damgard\<close>, \<open>Sha1\<close>, \<open>Sha256\<close>, \<open>Roots\<close>, \<open>Sha2_Tables\<close>, \<open>Md5\<close>, \<open>Ripemd160\<close>, \<open>X64\<close>, \<open>Sha512\<close>, \<open>Sha3\<close>, \<open>Keccak\<close>: the buffering of
    \<^verbatim>\<open>BufferedBlockAlgorithm\<close>, the padding shared by most hash functions, and the functions themselves; the 64-bit ones are
    compared with their definition on 64-bit words, the constants of SHA-2 with the roots of primes.
  \<^item> \<open>Hmac\<close>, \<open>Kdf\<close>, \<open>Hashers\<close>: HMAC and the key derivations over any \<^verbatim>\<open>Hasher\<close> object (locale \<open>hash_object\<close>), interpreted on
    every hash function. The two derivation loops take fuel; as many turns as there are words to derive are enough.
  \<^item> \<open>Cipher_Core\<close>, \<open>Cipher_Modes\<close>, \<open>Paddings\<close>, \<open>Block_Ciphers\<close>: \<^verbatim>\<open>Cipher\<close>, the six modes and six paddings. The locales
    \<open>block_mode\<close>, \<open>cipher_pair\<close>, \<open>padding\<close> and \<open>block_cipher\<close> are their contracts; a block cipher gives every mode by sublocales.
    \<^verbatim>\<open>ZeroPadding.unpad\<close> may loop forever and is a partial function.
  \<^item> \<open>Aes\<close>, \<open>Aes_Walk\<close>, \<open>Aes_Tables\<close>, \<open>Aes_Correct\<close>: AES with the tables it computes when loaded; that the walk through the field
    passes every byte, what the tables hold, and that decryption inverts encryption under any key schedule.
  \<^item> \<open>Des\<close>, \<open>Des_Correct\<close>, \<open>Stream_Ciphers\<close>, \<open>Rabbit\<close>: DES, Triple-DES, RC4, Rabbit and RabbitLegacy, as interpretations of
    \<open>block_cipher\<close> and \<open>stream_cipher\<close>.
  \<^item> \<open>Cipher_Formats\<close>, \<open>Crypto_Results\<close>: the OpenSSL and Hex formats, \<^verbatim>\<open>SerializableCipher\<close>, \<^verbatim>\<open>PasswordBasedCipher\<close>, and the
    properties that span the modules.

  \<^bold>\<open>Not taken from the source.\<close> Arguments of the definitions stand for code that is not there: the \<open>Backend\<close> of the consensus core
  (signatures, RLP, the block chain), the Keccak digest of \<open>Address\<close>, \<^verbatim>\<open>Math.pow\<close> and the sine table of MD5, random words, and
  the UTF-8 conversion of passwords. Hypotheses on message lengths (below \<open>2^28\<close> bytes) keep bit counts within 32 bits; a
  word array given to a hash function must have no stray bits behind its last byte (\<open>wa_tidy\<close>), since \<^verbatim>\<open>concat\<close> copies whole words.
  The number of bytes of an AES key has to be a multiple of four.

  \<^bold>\<open>Not modelled.\<close> The rest of \<^verbatim>\<open>web3.js\<close> (providers, request manager, contract objects: network I/O and callbacks around JSON), the EVM
  tracers, the dashboard, and the other Go packages of the node (storage, networking, EVM, accounts, Raft and private
  transactions); within the consensus package the \<^verbatim>\<open>backend\<close> that talks to the chain.
\<close>

section \<open>The Istanbul node\<close>

text \<open>
  C1: a node hands a block to its backend only with a quorum behind it. The seals it passes on are
  those of COMMIT messages the network delivered, from more than \<open>2F\<close> distinct validators of a set the
  backend supplied, all for one view and for the digest of exactly that block. This holds in every
  state the node can reach, whatever is sent to it, in whatever order, and whatever the backend
  answers.
\<close>

theorem commit_needs_quorum:
  assumes "reach dec c D W" "CommitBlock p seals \<in> set (effects c)"
  shows "\<exists>vs view ms. validators vs \<in> W \<and> commit_quorum dec D vs view (Hash p) ms \<and>
    seals = map (\<lambda>m. copy_seal (CommittedSeal m)) ms"
  using commit_certified [OF assms] by blast

theorem commit_needs_quorum_witness:
  "\<exists>vs view ms. validators vs \<in> {[1, 2, 3, 4]} \<and>
     commit_quorum demo_decodeSubject (set (run_messages demo_backend demo_events)) vs view 9 ms \<and>
     map (\<lambda>v. v # replicate 64 0) [1, 2, 3] = map (\<lambda>m. copy_seal (CommittedSeal m)) ms"
  using commit_needs_quorum [OF demo_reach demo_commits] by simp





text \<open>C6: a node never goes back to an earlier view: sequence and round only grow, sequence first.\<close>

theorem views_never_go_back:
  assumes "reach dec c D W" "env_ok dec be" "enabled c ev" "handleEvent be ev c = Some c'"
  shows "\<exists>v v'. currentView c = Some v \<and> currentView c' = Some v' \<and> view_le v v'"
  using reach_step [OF _ assms(2,3)] reach_inv [OF assms(1)] assms(4) unfolding step_ok_def by fastforce

theorem views_never_go_back_witness:
  "\<exists>v v'. currentView demo_start = Some v \<and>
     currentView (the (handleEvent demo_backend TimeoutEvent demo_start)) = Some v' \<and> view_le v v'"
proof -
  have "handleEvent demo_backend TimeoutEvent demo_start \<noteq> None" by code_simp
  then show ?thesis
    using views_never_go_back [OF demo_reach_start demo_env, of TimeoutEvent] by auto
qed

text \<open>
  C7: a node past the PREPARE quorum is locked on the proposal of its round, in every reachable state
  in which it takes part in the round.
\<close>

theorem prepared_is_locked:
  assumes "reach dec c D W" "state c \<in> {StatePrepared, StateCommitted}" "\<not> waitingForRoundChange c"
  shows "\<exists>s pp. current c = Some s \<and> rs_Preprepare s = Some pp \<and> lockedHash s = Hash (pp_Proposal pp)"
proof -
  have "core_inv dec D W c" using reach_inv [OF assms(1)] by blast
  then show ?thesis
    using assms(2,3) by (auto elim!: core_invE simp: phase_ok_def locked_on_proposal_def)
qed

theorem prepared_is_locked_witness:
  "\<exists>s pp. current demo_core = Some s \<and> rs_Preprepare s = Some pp \<and> lockedHash s = Hash (pp_Proposal pp)"
proof -
  have "state demo_core \<in> {StatePrepared, StateCommitted}" "\<not> waitingForRoundChange demo_core"
    by code_simp+
  then show ?thesis using prepared_is_locked [OF demo_reach] by blast
qed

text \<open>
  C8: a locked node does not take over another proposal. Whatever PRE-PREPARE for another block it
  handles, its locked hash and the proposal it is locked on stay as they are.
\<close>

theorem lock_holds:
  assumes "reach dec c D W" "current c = Some s" "IsHashLocked be s"
    and "decodePreprepare be (Msg msg) = Some pp" "Hash (pp_Proposal pp) \<noteq> lockedHash s"
    and "handlePreprepare be msg src c = Some (c', e)"
  shows "lock_of c' = Some (lockedHash s, rs_Preprepare s)"
proof -
  have "core_inv dec D W c" using reach_inv [OF assms(1)] by blast
  from handlePreprepare_lock [OF this assms(2-6)] assms(2) show ?thesis by (simp add: lock_of_def)
qed

definition other_proposal :: message where
  "other_proposal = \<lparr>Code = msgPreprepare, Msg = [0, 1, 1, 8], Address = 1, Signature = [1], CommittedSeal = []\<rparr>"

theorem lock_holds_witness:
  "lock_of (fst (the (handlePreprepare demo_backend other_proposal 1 demo_core))) =
     Some (9, Some \<lparr>pp_View = \<lparr>Round = 0, Sequence = 1\<rparr>, pp_Proposal = \<lparr>Number = 1, Hash = 9\<rparr>\<rparr>)"
proof -
  have s: "current demo_core \<noteq> None" "lockedHash (the (current demo_core)) = 9"
    "rs_Preprepare (the (current demo_core)) =
       Some \<lparr>pp_View = \<lparr>Round = 0, Sequence = 1\<rparr>, pp_Proposal = \<lparr>Number = 1, Hash = 9\<rparr>\<rparr>"
    by code_simp+
  have run: "handlePreprepare demo_backend other_proposal 1 demo_core \<noteq> None" by code_simp
  have "IsHashLocked demo_backend (the (current demo_core))" by code_simp
  moreover have "decodePreprepare demo_backend (Msg other_proposal) =
      Some \<lparr>pp_View = \<lparr>Round = 0, Sequence = 1\<rparr>, pp_Proposal = \<lparr>Number = 1, Hash = 8\<rparr>\<rparr>"
    by code_simp
  ultimately show ?thesis
    using lock_holds [OF demo_reach, of "the (current demo_core)" demo_backend other_proposal _ 1] s run
    by (cases "handlePreprepare demo_backend other_proposal 1 demo_core") auto
qed

text \<open>
  C23: one validator can make a node commit a block alone. The check of a payload asks only that some
  validator signed it, not that the signer is the sender the message names; so three COMMITs with
  three senders, all of them signed by validator 1, are a quorum.
\<close>

definition forged_events :: "event list" where
  "forged_events = MessageEvent [0, 1, 1, 0, 1, 1, 9] #
     map (\<lambda>v. MessageEvent [2, v, 1, 0, 1, 9]) [1, 2, 3]"


text \<open>
  C34: round changes are collected under the low 64 bits of the round, but the node moves to the round of
  the last message. Two round changes for round 1 and one for round \<open>2 ^ 64 + 1\<close> count as three for the
  same round, and take the node to round \<open>2 ^ 64 + 1\<close>.
\<close>

definition jump_events :: "event list" where
  "jump_events = [MessageEvent [3, 1, 1, 1, 1, 0], MessageEvent [3, 2, 2, 1, 1, 0],
     MessageEvent [3, 3, 3, 1, 1, 0, 1]]"


end
